theory Spec2Isabelle
  imports Main
begin

section \<open>JavaScript numbers\<close>

text \<open>
  Every number the engine handles is an IEEE 754 double. The engine is given integers,
  which it only adds, subtracts and compares, so the values it can hold are the doubles
  that are integers, the two infinities and \<open>NaN\<close>. \<open>Num n\<close> is the double equal to the
  integer \<open>n\<close>; an integer that no double equals (such as \<open>2 ^ 53 + 1\<close>) is not a value
  the code can be given or can compute.
\<close>

datatype jsnum = Num int | PInf | NInf | NaN

text \<open>The number of binary digits of a positive integer.\<close>

function bit_length :: "int \<Rightarrow> nat" where
  "bit_length n = (if n \<le> 0 then 0 else Suc (bit_length (n div 2)))"
  by pat_completeness auto
termination
  by (relation "measure nat") auto

declare bit_length.simps [simp del]

text \<open>
  The double nearest to an integer: the integer itself when it has at most 53 binary
  digits; otherwise the digits after the 53rd are rounded off to the nearest, a tie going
  to the even 53-digit significand; and infinity from \<open>2 ^ 1024\<close> on. This is the rounding
  that \<open>+\<close> and \<open>-\<close> apply to the exact sum or difference of two doubles.
\<close>

definition to_double :: "int \<Rightarrow> jsnum" where
  "to_double n =
     (let a = \<bar>n\<bar>;
          e = bit_length a - 53;
          q = a div 2 ^ e;
          r = a mod 2 ^ e;
          m = (if 2 * r > 2 ^ e \<or> (2 * r = 2 ^ e \<and> odd q) then q + 1 else q) * 2 ^ e
      in if m \<ge> 2 ^ 1024 then (if n < 0 then NInf else PInf)
         else Num (if n < 0 then - m else m))"

text \<open>\<open>x + y\<close>, \<open>x - y\<close> and \<open>x > y\<close> on numbers.\<close>

fun js_add :: "jsnum \<Rightarrow> jsnum \<Rightarrow> jsnum" where
  "js_add (Num a) (Num b) = to_double (a + b)"
| "js_add NaN _ = NaN"
| "js_add _ NaN = NaN"
| "js_add PInf NInf = NaN"
| "js_add NInf PInf = NaN"
| "js_add PInf _ = PInf"
| "js_add _ PInf = PInf"
| "js_add NInf _ = NInf"
| "js_add _ NInf = NInf"

fun js_sub :: "jsnum \<Rightarrow> jsnum \<Rightarrow> jsnum" where
  "js_sub (Num a) (Num b) = to_double (a - b)"
| "js_sub NaN _ = NaN"
| "js_sub _ NaN = NaN"
| "js_sub PInf PInf = NaN"
| "js_sub NInf NInf = NaN"
| "js_sub PInf _ = PInf"
| "js_sub _ NInf = PInf"
| "js_sub NInf _ = NInf"
| "js_sub _ PInf = NInf"

fun js_gt :: "jsnum \<Rightarrow> jsnum \<Rightarrow> bool" where
  "js_gt (Num a) (Num b) = (a > b)"
| "js_gt NaN _ = False"
| "js_gt _ NaN = False"
| "js_gt PInf PInf = False"
| "js_gt PInf _ = True"
| "js_gt NInf _ = False"
| "js_gt (Num a) NInf = True"
| "js_gt (Num a) PInf = False"

text \<open>\<open>x >= y\<close> on numbers.\<close>

fun js_ge :: "jsnum \<Rightarrow> jsnum \<Rightarrow> bool" where
  "js_ge (Num a) (Num b) = (a \<ge> b)"
| "js_ge NaN _ = False"
| "js_ge _ NaN = False"
| "js_ge PInf _ = True"
| "js_ge _ NInf = True"
| "js_ge NInf _ = False"
| "js_ge (Num a) PInf = False"

text \<open>An integer vector or matrix as the caller passes it.\<close>

definition nums :: "int list \<Rightarrow> jsnum list" where
  "nums v = map Num v"

definition numss :: "int list list \<Rightarrow> jsnum list list" where
  "numss m = map nums m"

text \<open>
  The integer a number is, if it is one. Sums and differences of integers whose result
  is at most \<open>2 ^ 53\<close> in absolute value are exact.
\<close>

definition int_of :: "jsnum \<Rightarrow> int option" where
  "int_of v = (case v of Num n \<Rightarrow> Some n | _ \<Rightarrow> None)"

definition exact_int :: "int \<Rightarrow> bool" where
  "exact_int n = (\<bar>n\<bar> \<le> 2 ^ 53)"

section \<open>Memory block allocation (firstFit, nextFit, bestFit, worstFit)\<close>

text \<open>
  A memory block and a process are both JavaScript objects \<open>{id, size}\<close>. The sizes are
  JavaScript numbers that the input form produces with \<open>parseInt\<close>; a size is an
  integer, so that a zero or negative size is an input like any other. Sizes are only
  compared, copied and set to 0, which is exact; the fragmentation figures are computed
  from them with \<open>-\<close> and \<open>+\<close> and are numbers.
  \<open>JSON.parse(JSON.stringify(x))\<close> on such objects is a deep copy that preserves both
  fields, so the working copies \<open>blocks\<close> and \<open>procs\<close> start out equal to the arguments.
\<close>

record mem_item =
  id_of :: int
  size_of :: int

text \<open>
  The mutable locals of one run: the working copy of the blocks (whose sizes are set to
  0 when a block is handed out), \<open>allocation\<close> (\<open>None\<close> is JavaScript's \<open>null\<close>) and
  \<open>internalFragmentation\<close>.
\<close>

record alloc_state =
  st_blocks :: "mem_item list"
  st_allocation :: "nat option list"
  st_frag :: "jsnum list"

record alloc_result =
  algorithm :: string
  allocation :: "nat option list"
  internalFragmentation :: "jsnum list"
  externalFragmentation :: jsnum
  totalFragmentation :: jsnum
  unallocatedProcesses :: "int list"

text \<open>\<open>procs.map(() => null)\<close> and \<open>blocks.map(() => 0)\<close>.\<close>

definition init_state :: "mem_item list \<Rightarrow> mem_item list \<Rightarrow> alloc_state" where
  "init_state memoryBlocks processes =
     \<lparr>st_blocks = memoryBlocks,
      st_allocation = map (\<lambda>_. None) processes,
      st_frag = map (\<lambda>_. Num 0) memoryBlocks\<rparr>"

text \<open>
  The three assignments every strategy performs once block \<open>j\<close> is chosen for process
  \<open>i\<close> of size \<open>psize\<close>:
  \<^verbatim>\<open>allocation[i] = j; internalFragmentation[j] = blocks[j].size - procs[i].size; blocks[j].size = 0;\<close>
  Both indices are in range wherever the strategies call it.
\<close>

definition allocate_block :: "nat \<Rightarrow> nat \<Rightarrow> int \<Rightarrow> alloc_state \<Rightarrow> alloc_state" where
  "allocate_block i j psize st =
     st\<lparr>st_allocation := (st_allocation st)[i := Some j],
        st_frag := (st_frag st)[j := js_sub (Num (size_of (st_blocks st ! j))) (Num psize)],
        st_blocks := (st_blocks st)[j := (st_blocks st ! j)\<lparr>size_of := 0\<rparr>]\<rparr>"

subsection \<open>First fit\<close>

text \<open>The inner \<open>for j\<close> loop with its \<open>break\<close>: the first index whose block is large enough.\<close>

definition ff_search :: "mem_item list \<Rightarrow> int \<Rightarrow> nat option" where
  "ff_search blocks psize =
     find (\<lambda>j. size_of (blocks ! j) \<ge> psize) [0..<length blocks]"

definition ff_step :: "mem_item list \<Rightarrow> nat \<Rightarrow> alloc_state \<Rightarrow> alloc_state" where
  "ff_step procs i st =
     (case ff_search (st_blocks st) (size_of (procs ! i)) of
        None \<Rightarrow> st
      | Some j \<Rightarrow> allocate_block i j (size_of (procs ! i)) st)"

definition firstFit_run :: "mem_item list \<Rightarrow> mem_item list \<Rightarrow> alloc_state" where
  "firstFit_run memoryBlocks processes =
     fold (ff_step processes) [0..<length processes] (init_state memoryBlocks processes)"

subsection \<open>Next fit\<close>

text \<open>
  The \<open>while (blocksChecked < blocks.length)\<close> loop. It is entered with
  \<open>j = lastAllocatedIndex\<close>, which is 0 or \<open>(j' + 1) % blocks.length\<close>, so \<open>j\<close> is a valid
  index whenever the body runs.
\<close>

function nf_search :: "mem_item list \<Rightarrow> int \<Rightarrow> nat \<Rightarrow> nat \<Rightarrow> nat option" where
  "nf_search blocks psize j blocksChecked =
     (if blocksChecked < length blocks then
        (if size_of (blocks ! j) \<ge> psize then Some j
         else nf_search blocks psize ((j + 1) mod length blocks) (blocksChecked + 1))
      else None)"
  by pat_completeness auto
termination
  by (relation "measure (\<lambda>(blocks, psize, j, blocksChecked). length blocks - blocksChecked)") auto

declare nf_search.simps [simp del]

text \<open>The state of the outer loop carries \<open>lastAllocatedIndex\<close> next to the arrays.\<close>

definition nf_step :: "mem_item list \<Rightarrow> nat \<Rightarrow> alloc_state \<times> nat \<Rightarrow> alloc_state \<times> nat" where
  "nf_step procs i s =
     (case s of (st, lastAllocatedIndex) \<Rightarrow>
        (case nf_search (st_blocks st) (size_of (procs ! i)) lastAllocatedIndex 0 of
           None \<Rightarrow> (st, lastAllocatedIndex)
         | Some j \<Rightarrow> (allocate_block i j (size_of (procs ! i)) st,
                      (j + 1) mod length (st_blocks st))))"

definition nextFit_run :: "mem_item list \<Rightarrow> mem_item list \<Rightarrow> alloc_state" where
  "nextFit_run memoryBlocks processes =
     fst (fold (nf_step processes) [0..<length processes]
            (init_state memoryBlocks processes, 0))"

subsection \<open>Best fit\<close>

text \<open>
  The scan keeps \<open>bestBlockIndex\<close> (\<open>None\<close> for the sentinel \<open>-1\<close>) and \<open>bestBlockSize\<close>
  (\<open>None\<close> for \<open>Infinity\<close>, below which every integer lies).
\<close>

definition bf_scan_step :: "mem_item list \<Rightarrow> int \<Rightarrow> nat \<Rightarrow> nat option \<times> int option
    \<Rightarrow> nat option \<times> int option" where
  "bf_scan_step blocks psize j b =
     (case b of (bestBlockIndex, bestBlockSize) \<Rightarrow>
        if size_of (blocks ! j) \<ge> psize \<and>
           (case bestBlockSize of None \<Rightarrow> True | Some s \<Rightarrow> size_of (blocks ! j) < s)
        then (Some j, Some (size_of (blocks ! j)))
        else (bestBlockIndex, bestBlockSize))"

definition bf_search :: "mem_item list \<Rightarrow> int \<Rightarrow> nat option" where
  "bf_search blocks psize =
     fst (fold (bf_scan_step blocks psize) [0..<length blocks] (None, None))"

definition bf_step :: "mem_item list \<Rightarrow> nat \<Rightarrow> alloc_state \<Rightarrow> alloc_state" where
  "bf_step procs i st =
     (case bf_search (st_blocks st) (size_of (procs ! i)) of
        None \<Rightarrow> st
      | Some bestBlockIndex \<Rightarrow> allocate_block i bestBlockIndex (size_of (procs ! i)) st)"

definition bestFit_run :: "mem_item list \<Rightarrow> mem_item list \<Rightarrow> alloc_state" where
  "bestFit_run memoryBlocks processes =
     fold (bf_step processes) [0..<length processes] (init_state memoryBlocks processes)"

subsection \<open>Worst fit\<close>

text \<open>Here \<open>worstBlockSize\<close> starts at the number \<open>-1\<close>; the index sentinel is \<open>None\<close> again.\<close>

definition wf_scan_step :: "mem_item list \<Rightarrow> int \<Rightarrow> nat \<Rightarrow> nat option \<times> int
    \<Rightarrow> nat option \<times> int" where
  "wf_scan_step blocks psize j w =
     (case w of (worstBlockIndex, worstBlockSize) \<Rightarrow>
        if size_of (blocks ! j) \<ge> psize \<and> size_of (blocks ! j) > worstBlockSize
        then (Some j, size_of (blocks ! j))
        else (worstBlockIndex, worstBlockSize))"

definition wf_search :: "mem_item list \<Rightarrow> int \<Rightarrow> nat option" where
  "wf_search blocks psize =
     fst (fold (wf_scan_step blocks psize) [0..<length blocks] (None, - 1))"

definition wf_step :: "mem_item list \<Rightarrow> nat \<Rightarrow> alloc_state \<Rightarrow> alloc_state" where
  "wf_step procs i st =
     (case wf_search (st_blocks st) (size_of (procs ! i)) of
        None \<Rightarrow> st
      | Some worstBlockIndex \<Rightarrow> allocate_block i worstBlockIndex (size_of (procs ! i)) st)"

definition worstFit_run :: "mem_item list \<Rightarrow> mem_item list \<Rightarrow> alloc_state" where
  "worstFit_run memoryBlocks processes =
     fold (wf_step processes) [0..<length processes] (init_state memoryBlocks processes)"

subsection \<open>Fragmentation accounting and the result object\<close>

text \<open>
  \<open>Math.max(...xs)\<close>; \<open>None\<close> stands for the \<open>-Infinity\<close> of an empty argument list, which
  the guard \<open>unallocatedProcesses.length > 0\<close> keeps the code from ever comparing with.
\<close>

fun Math_max :: "int list \<Rightarrow> int option" where
  "Math_max [] = None"
| "Math_max (x # xs) = Some (fold max xs x)"

text \<open>\<open>procs.filter((_, index) => allocation[index] === null)\<close>.\<close>

definition unallocated :: "mem_item list \<Rightarrow> nat option list \<Rightarrow> mem_item list" where
  "unallocated procs alloc =
     map (\<lambda>index. procs ! index) (filter (\<lambda>index. alloc ! index = None) [0..<length procs])"

definition external_frag :: "mem_item list \<Rightarrow> mem_item list \<Rightarrow> jsnum" where
  "external_frag blocks unallocatedProcs =
     (if length unallocatedProcs > 0 then
        (case Math_max (map size_of unallocatedProcs) of
           None \<Rightarrow> Num 0
         | Some largestUnallocatedSize \<Rightarrow>
             fold (\<lambda>block sum. js_add sum (Num (size_of block)))
               (filter (\<lambda>block. size_of block > 0 \<and> size_of block < largestUnallocatedSize) blocks)
               (Num 0))
      else Num 0)"

text \<open>
  The tail of each of the four functions is the same text; \<open>finish\<close> is that text with the
  algorithm's display name as a parameter.
\<close>

definition finish :: "string \<Rightarrow> mem_item list \<Rightarrow> alloc_state \<Rightarrow> alloc_result" where
  "finish name procs st =
     (let externalFrag = external_frag (st_blocks st) (unallocated procs (st_allocation st)) in
      \<lparr>algorithm = name,
       allocation = st_allocation st,
       internalFragmentation = st_frag st,
       externalFragmentation = externalFrag,
       totalFragmentation =
         js_add (fold (\<lambda>frag sum. js_add sum frag) (st_frag st) (Num 0)) externalFrag,
       unallocatedProcesses = map id_of (unallocated procs (st_allocation st))\<rparr>)"

definition firstFit :: "mem_item list \<Rightarrow> mem_item list \<Rightarrow> alloc_result" where
  "firstFit memoryBlocks processes =
     finish ''First Fit'' processes (firstFit_run memoryBlocks processes)"

definition nextFit :: "mem_item list \<Rightarrow> mem_item list \<Rightarrow> alloc_result" where
  "nextFit memoryBlocks processes =
     finish ''Next Fit'' processes (nextFit_run memoryBlocks processes)"

definition bestFit :: "mem_item list \<Rightarrow> mem_item list \<Rightarrow> alloc_result" where
  "bestFit memoryBlocks processes =
     finish ''Best Fit'' processes (bestFit_run memoryBlocks processes)"

definition worstFit :: "mem_item list \<Rightarrow> mem_item list \<Rightarrow> alloc_result" where
  "worstFit memoryBlocks processes =
     finish ''Worst Fit'' processes (worstFit_run memoryBlocks processes)"

subsection \<open>Inputs of the concrete scenarios\<close>

definition blocks_100_50_200 :: "mem_item list" where
  "blocks_100_50_200 =
     [\<lparr>id_of = 1, size_of = 100\<rparr>, \<lparr>id_of = 2, size_of = 50\<rparr>, \<lparr>id_of = 3, size_of = 200\<rparr>]"

definition procs_90_50 :: "mem_item list" where
  "procs_90_50 = [\<lparr>id_of = 1, size_of = 90\<rparr>, \<lparr>id_of = 2, size_of = 50\<rparr>]"

subsection \<open>Inputs of further scenarios\<close>

definition procs_60 :: "mem_item list" where
  "procs_60 = [\<lparr>id_of = 1, size_of = 60\<rparr>]"

definition blocks_100 :: "mem_item list" where
  "blocks_100 = [\<lparr>id_of = 1, size_of = 100\<rparr>]"

definition procs_90_0 :: "mem_item list" where
  "procs_90_0 = [\<lparr>id_of = 1, size_of = 90\<rparr>, \<lparr>id_of = 2, size_of = 0\<rparr>]"

definition blocks_10_20_5 :: "mem_item list" where
  "blocks_10_20_5 =
     [\<lparr>id_of = 1, size_of = 10\<rparr>, \<lparr>id_of = 2, size_of = 20\<rparr>, \<lparr>id_of = 3, size_of = 5\<rparr>]"

definition procs_30_8 :: "mem_item list" where
  "procs_30_8 = [\<lparr>id_of = 1, size_of = 30\<rparr>, \<lparr>id_of = 2, size_of = 8\<rparr>]"

section \<open>Specification of the block allocators\<close>

text \<open>
  What the specification says a choice must be, in its own words. Best fit: among the
  blocks whose current size is at least the process size, the one with the smallest size,
  the lowest index winning a tie; no block when none is large enough.
\<close>

definition is_best_choice :: "mem_item list \<Rightarrow> int \<Rightarrow> nat option \<Rightarrow> bool" where
  "is_best_choice cur p choice =
     (case choice of
        None \<Rightarrow> \<forall>k<length cur. size_of (cur ! k) < p
      | Some j \<Rightarrow> j < length cur \<and> p \<le> size_of (cur ! j) \<and>
          (\<forall>k<length cur. p \<le> size_of (cur ! k) \<longrightarrow> size_of (cur ! j) \<le> size_of (cur ! k)) \<and>
          (\<forall>k<j. p \<le> size_of (cur ! k) \<longrightarrow> size_of (cur ! j) < size_of (cur ! k)))"

text \<open>Worst fit: the same with the largest size.\<close>

definition is_worst_choice :: "mem_item list \<Rightarrow> int \<Rightarrow> nat option \<Rightarrow> bool" where
  "is_worst_choice cur p choice =
     (case choice of
        None \<Rightarrow> \<forall>k<length cur. size_of (cur ! k) < p
      | Some j \<Rightarrow> j < length cur \<and> p \<le> size_of (cur ! j) \<and>
          (\<forall>k<length cur. p \<le> size_of (cur ! k) \<longrightarrow> size_of (cur ! k) \<le> size_of (cur ! j)) \<and>
          (\<forall>k<j. p \<le> size_of (cur ! k) \<longrightarrow> size_of (cur ! k) < size_of (cur ! j)))"

text \<open>
  The three simple strategies differ in their search only; \<open>gen_step\<close> is their common
  loop body with the search as a parameter, used to state facts about them once.
\<close>

definition gen_step :: "(mem_item list \<Rightarrow> int \<Rightarrow> nat option) \<Rightarrow> mem_item list \<Rightarrow> nat
    \<Rightarrow> alloc_state \<Rightarrow> alloc_state" where
  "gen_step search procs i st =
     (case search (st_blocks st) (size_of (procs ! i)) of
        None \<Rightarrow> st
      | Some j \<Rightarrow> allocate_block i j (size_of (procs ! i)) st)"

text \<open>
  Loop invariants of the two scans, after the indices below \<open>k\<close> have been looked at.
\<close>

definition bf_scan_inv :: "mem_item list \<Rightarrow> int \<Rightarrow> nat \<Rightarrow> nat option \<times> int option \<Rightarrow> bool" where
  "bf_scan_inv blocks psize k b =
     (case fst b of
        None \<Rightarrow> snd b = None \<and> (\<forall>m<k. size_of (blocks ! m) < psize)
      | Some j \<Rightarrow> j < k \<and> snd b = Some (size_of (blocks ! j)) \<and> psize \<le> size_of (blocks ! j) \<and>
          (\<forall>m<k. psize \<le> size_of (blocks ! m) \<longrightarrow> size_of (blocks ! j) \<le> size_of (blocks ! m)) \<and>
          (\<forall>m<j. psize \<le> size_of (blocks ! m) \<longrightarrow> size_of (blocks ! j) < size_of (blocks ! m)))"

definition wf_scan_inv :: "mem_item list \<Rightarrow> int \<Rightarrow> nat \<Rightarrow> nat option \<times> int \<Rightarrow> bool" where
  "wf_scan_inv blocks psize k w =
     (case fst w of
        None \<Rightarrow> snd w = - 1 \<and> (\<forall>m<k. \<not> (psize \<le> size_of (blocks ! m) \<and> - 1 < size_of (blocks ! m)))
      | Some j \<Rightarrow> j < k \<and> snd w = size_of (blocks ! j) \<and> psize \<le> size_of (blocks ! j) \<and>
          - 1 < size_of (blocks ! j) \<and>
          (\<forall>m<k. psize \<le> size_of (blocks ! m) \<longrightarrow> size_of (blocks ! m) \<le> size_of (blocks ! j)) \<and>
          (\<forall>m<j. psize \<le> size_of (blocks ! m) \<longrightarrow> size_of (blocks ! m) < size_of (blocks ! j)))"

text \<open>
  The invariant of a run after the processes below \<open>k\<close> have been handled, against the
  blocks \<open>orig\<close> as the caller passed them: a block handed out was large enough for
  its one process, carries the difference as its entry and has working size 0; every
  other block is untouched and has entry 0.
\<close>

definition alloc_inv :: "mem_item list \<Rightarrow> mem_item list \<Rightarrow> nat \<Rightarrow> alloc_state \<Rightarrow> bool" where
  "alloc_inv orig procs k st =
     (length (st_blocks st) = length orig \<and> length (st_frag st) = length orig \<and>
      length (st_allocation st) = length procs \<and>
      (\<forall>i<length procs. \<forall>j. st_allocation st ! i = Some j \<longrightarrow>
         i < k \<and> j < length orig \<and> size_of (procs ! i) \<le> size_of (orig ! j) \<and>
         st_frag st ! j = js_sub (Num (size_of (orig ! j))) (Num (size_of (procs ! i))) \<and>
         size_of (st_blocks st ! j) = 0 \<and>
         (\<forall>i'<length procs. st_allocation st ! i' = Some j \<longrightarrow> i' = i)) \<and>
      (\<forall>j<length orig. (\<forall>i<length procs. st_allocation st ! i \<noteq> Some j) \<longrightarrow>
         st_blocks st ! j = orig ! j \<and> st_frag st ! j = Num 0))"

text \<open>
  The block sizes add up, in absolute value, to at most \<open>2 ^ 53\<close>: then every difference
  and every sum of the fragmentation accounting is exact.
\<close>

definition sizes_in_range :: "mem_item list \<Rightarrow> bool" where
  "sizes_in_range blocks = (sum_list (map (\<lambda>b. \<bar>size_of b\<bar>) blocks) \<le> 2 ^ 53)"

text \<open>The left-to-right sum \<open>xs.reduce((sum, x) => sum + x, 0)\<close>.\<close>

definition js_sum :: "jsnum list \<Rightarrow> jsnum" where
  "js_sum xs = fold (\<lambda>x sum. js_add sum x) xs (Num 0)"

subsection \<open>Inputs of the scenarios with large or negative sizes\<close>

definition blocks_big_3_3 :: "mem_item list" where
  "blocks_big_3_3 =
     [\<lparr>id_of = 1, size_of = 2 ^ 53 + 2\<rparr>, \<lparr>id_of = 2, size_of = 3\<rparr>, \<lparr>id_of = 3, size_of = 3\<rparr>]"

definition procs_2_2_2 :: "mem_item list" where
  "procs_2_2_2 = [\<lparr>id_of = 1, size_of = 2\<rparr>, \<lparr>id_of = 2, size_of = 2\<rparr>, \<lparr>id_of = 3, size_of = 2\<rparr>]"

definition blocks_big :: "mem_item list" where
  "blocks_big = [\<lparr>id_of = 1, size_of = 2 ^ 53 + 2\<rparr>]"

definition procs_1 :: "mem_item list" where
  "procs_1 = [\<lparr>id_of = 1, size_of = 1\<rparr>]"

definition blocks_neg3 :: "mem_item list" where
  "blocks_neg3 = [\<lparr>id_of = 1, size_of = - 3\<rparr>]"

definition procs_neg5 :: "mem_item list" where
  "procs_neg5 = [\<lparr>id_of = 1, size_of = - 5\<rparr>]"

section \<open>Banker's algorithm (isSafeState, resourceRequest, runBankersAlgorithm)\<close>

subsection \<open>Array reads and writes\<close>

text \<open>
  Reading past the end of an array gives \<open>undefined\<close>, and \<open>undefined\<close> behaves like \<open>NaN\<close>
  under \<open>+\<close>, \<open>-\<close> and \<open>>\<close> (the sum or difference is \<open>NaN\<close>, the comparison is false).
\<close>

text \<open>\<open>xs[j]\<close> read as a number, and \<open>m[i]\<close> read as a row (\<open>None\<close> is \<open>undefined\<close>).\<close>

definition num_at :: "jsnum list \<Rightarrow> nat \<Rightarrow> jsnum" where
  "num_at xs j = (if j < length xs then xs ! j else NaN)"

definition row_at :: "jsnum list list \<Rightarrow> nat \<Rightarrow> jsnum list option" where
  "row_at m i = (if i < length m then Some (m ! i) else None)"

text \<open>
  \<open>xs[j] = v\<close>: a write past the end extends the array; the holes it leaves read as
  \<open>undefined\<close>, that is as \<open>NaN\<close>.
\<close>

definition js_set :: "jsnum list \<Rightarrow> nat \<Rightarrow> jsnum \<Rightarrow> jsnum list" where
  "js_set xs j v =
     (if j < length xs then xs[j := v] else xs @ replicate (j - length xs) NaN @ [v])"

text \<open>
  \<open>JSON.parse(JSON.stringify(m))\<close> copies a matrix of integers as it is, and writes
  \<open>NaN\<close> and the infinities as \<open>null\<close>; \<open>null\<close> is 0 under \<open>+\<close>, \<open>-\<close> and \<open>>\<close>.
\<close>

definition json_num :: "jsnum \<Rightarrow> jsnum" where
  "json_num v = (case v of Num n \<Rightarrow> Num n | _ \<Rightarrow> Num 0)"

definition json_copy :: "jsnum list list \<Rightarrow> jsnum list list" where
  "json_copy m = map (map json_num) m"

text \<open>Indexing \<open>undefined\<close> (a row that is not there) throws.\<close>

datatype js_error = TypeError

subsection \<open>isSafeState\<close>

record safety_result =
  safe :: bool
  safeSequence :: "nat list"
  unfinishedProcesses :: "nat list"

text \<open>
  \<open>maxDemand.map((process, i) => process.map((resource, j) => resource - currentAllocation[i][j]))\<close>.
  The inner callback runs once per entry of the row \<open>process\<close>, so an empty row never
  touches \<open>currentAllocation[i]\<close>.
\<close>

definition need_row :: "jsnum list \<Rightarrow> jsnum list \<Rightarrow> jsnum list" where
  "need_row process alloc_row =
     map (\<lambda>j. js_sub (process ! j) (num_at alloc_row j)) [0..<length process]"

definition need_of :: "jsnum list list \<Rightarrow> nat \<Rightarrow> jsnum list \<Rightarrow> js_error + jsnum list" where
  "need_of currentAllocation i process =
     (if process = [] then Inr []
      else (case row_at currentAllocation i of
              None \<Rightarrow> Inl TypeError
            | Some alloc_row \<Rightarrow> Inr (need_row process alloc_row)))"

fun map_rows :: "(nat \<Rightarrow> 'a \<Rightarrow> js_error + 'b) \<Rightarrow> nat \<Rightarrow> 'a list \<Rightarrow> js_error + 'b list" where
  "map_rows f i [] = Inr []"
| "map_rows f i (x # xs) =
     (case f i x of
        Inl e \<Rightarrow> Inl e
      | Inr y \<Rightarrow> (case map_rows f (Suc i) xs of Inl e \<Rightarrow> Inl e | Inr ys \<Rightarrow> Inr (y # ys)))"

definition calc_need :: "jsnum list list \<Rightarrow> jsnum list list \<Rightarrow> js_error + jsnum list list" where
  "calc_need maxDemand currentAllocation = map_rows (need_of currentAllocation) 0 maxDemand"

text \<open>The mutable locals of the \<open>while\<close> loop.\<close>

record safety_state =
  availableResources :: "jsnum list"
  finished :: "bool list"
  safeSequence_w :: "nat list"
  count :: nat
  found :: bool

text \<open>The \<open>for j\<close> loop that clears \<open>canAllocate\<close> and breaks at the first need above what is available.\<close>

definition canAllocate :: "nat \<Rightarrow> jsnum list \<Rightarrow> jsnum list \<Rightarrow> bool" where
  "canAllocate numResources need_i avail =
     list_all (\<lambda>j. \<not> js_gt (num_at need_i j) (num_at avail j)) [0..<numResources]"

text \<open>
  \<open>for (j...) availableResources[j] += currentAllocation[i][j]\<close>; with no resource type
  the body never runs and a missing row is never indexed.
\<close>

definition give_back :: "nat \<Rightarrow> jsnum list option \<Rightarrow> jsnum list \<Rightarrow> js_error + jsnum list" where
  "give_back numResources alloc_row avail =
     (if numResources = 0 then Inr avail
      else (case alloc_row of
              None \<Rightarrow> Inl TypeError
            | Some row \<Rightarrow>
                Inr (fold (\<lambda>j av. js_set av j (js_add (num_at av j) (num_at row j)))
                       [0..<numResources] avail)))"

text \<open>The body of the \<open>for i\<close> loop. \<open>need\<close> and \<open>finished\<close> have \<open>numProcesses\<close> entries.\<close>

definition visit :: "jsnum list list \<Rightarrow> jsnum list list \<Rightarrow> nat \<Rightarrow> nat \<Rightarrow> safety_state
    \<Rightarrow> js_error + safety_state" where
  "visit need currentAllocation numResources i st =
     (if finished st ! i then Inr st
      else if canAllocate numResources (need ! i) (availableResources st) then
        (case give_back numResources (row_at currentAllocation i) (availableResources st) of
           Inl e \<Rightarrow> Inl e
         | Inr av \<Rightarrow>
             Inr (st\<lparr>availableResources := av,
                     finished := (finished st)[i := True],
                     safeSequence_w := safeSequence_w st @ [i],
                     count := count st + 1,
                     found := True\<rparr>))
      else Inr st)"

fun scan :: "jsnum list list \<Rightarrow> jsnum list list \<Rightarrow> nat \<Rightarrow> nat list \<Rightarrow> safety_state
    \<Rightarrow> js_error + safety_state" where
  "scan need currentAllocation numResources [] st = Inr st"
| "scan need currentAllocation numResources (i # ids) st =
     (case visit need currentAllocation numResources i st of
        Inl e \<Rightarrow> Inl e
      | Inr st' \<Rightarrow> scan need currentAllocation numResources ids st')"

text \<open>\<open>finished.map((status, index) => !status ? index : null).filter(p => p !== null)\<close>.\<close>

definition unfinished_of :: "bool list \<Rightarrow> nat list" where
  "unfinished_of fin =
     map the (filter (\<lambda>p. p \<noteq> None)
       (map (\<lambda>index. if \<not> fin ! index then Some index else None) [0..<length fin]))"

text \<open>
  The \<open>while (count < numProcesses)\<close> loop. Each round that does not return has finished
  a process, so \<open>count\<close> grows towards \<open>numProcesses\<close>: the loop always ends.
\<close>

function safety_loop :: "jsnum list list \<Rightarrow> jsnum list list \<Rightarrow> nat \<Rightarrow> nat \<Rightarrow> safety_state
    \<Rightarrow> js_error + safety_result" where
  "safety_loop need currentAllocation numResources numProcesses st =
     (if count st < numProcesses then
        (case scan need currentAllocation numResources [0..<numProcesses] (st\<lparr>found := False\<rparr>) of
           Inl e \<Rightarrow> Inl e
         | Inr st' \<Rightarrow>
             if \<not> found st' then
               Inr \<lparr>safe = False, safeSequence = [],
                    unfinishedProcesses = unfinished_of (finished st')\<rparr>
             else safety_loop need currentAllocation numResources numProcesses st')
      else Inr \<lparr>safe = True, safeSequence = safeSequence_w st, unfinishedProcesses = []\<rparr>)"
  by pat_completeness auto
termination
proof -
  have visit_count: "count st \<le> count st' \<and> (found st' \<longrightarrow> found st \<or> count st < count st')"
    if "visit need ca nr i st = Inr st'" for need ca nr i st st'
    using that by (auto simp: visit_def split: if_splits sum.splits)
  have scan_count: "count st \<le> count st' \<and> (found st' \<longrightarrow> found st \<or> count st < count st')"
    if "scan need ca nr ids st = Inr st'" for need ca nr ids st st'
    using that
  proof (induction ids arbitrary: st)
    case Nil
    then show ?case by simp
  next
    case (Cons i ids)
    then obtain st1 where v: "visit need ca nr i st = Inr st1"
      and s: "scan need ca nr ids st1 = Inr st'"
      by (auto split: sum.splits)
    from visit_count [OF v] Cons.IH [OF s] show ?case by auto
  qed
  show ?thesis
  proof (relation "measure (\<lambda>(need, ca, nr, np, st). np - count st)")
    show "wf (measure (\<lambda>(need, ca, nr, np, st). np - count st))" by simp
  next
    fix need ca :: "jsnum list list" and nr np :: nat and st st' :: safety_state
    assume lt: "count st < np"
      and sc: "scan need ca nr [0..<np] (st\<lparr>found := False\<rparr>) = Inr st'"
      and f: "\<not> \<not> found st'"
    from scan_count [OF sc] f have "count st < count st'" by simp
    then show "((need, ca, nr, np, st'), (need, ca, nr, np, st))
        \<in> measure (\<lambda>(need, ca, nr, np, st). np - count st)"
      using lt by simp
  qed
qed

declare safety_loop.simps [simp del]

text \<open>
  The locals before the loop: \<open>[...available]\<close>, \<open>Array(numProcesses).fill(false)\<close>, an
  empty sequence and \<open>count = 0\<close>; \<open>found\<close> is declared inside the loop.
\<close>

definition safety_init :: "jsnum list \<Rightarrow> nat \<Rightarrow> safety_state" where
  "safety_init available numProcesses =
     \<lparr>availableResources = available,
      finished = replicate numProcesses False,
      safeSequence_w = [],
      count = 0,
      found = False\<rparr>"

definition isSafeState :: "jsnum list \<Rightarrow> jsnum list list \<Rightarrow> jsnum list list
    \<Rightarrow> js_error + safety_result" where
  "isSafeState available maxm alloc =
     (let maxDemand = json_copy maxm;
          currentAllocation = json_copy alloc
      in case calc_need maxDemand currentAllocation of
           Inl e \<Rightarrow> Inl e
         | Inr need \<Rightarrow>
             safety_loop need currentAllocation (length available) (length maxDemand)
               (safety_init available (length maxDemand)))"

subsection \<open>resourceRequest\<close>

text \<open>
  The result object; a key that the returned object does not have is \<open>None\<close>.
\<close>

record request_result =
  granted :: bool
  reason :: "string option"
  resourceIndex :: "nat option"
  safeSequence_r :: "nat list option"
  unsafeProcesses :: "nat list option"

text \<open>
  Each of the two checking loops returns at the first \<open>j\<close> with \<open>request[j] > limit[j]\<close>.
\<close>

definition first_above :: "nat \<Rightarrow> jsnum list \<Rightarrow> jsnum list \<Rightarrow> nat option" where
  "first_above numResources request limit =
     find (\<lambda>j. js_gt (num_at request j) (num_at limit j)) [0..<numResources]"

text \<open>\<open>for (j...) v[j] -= request[j]\<close> and \<open>for (j...) v[j] += request[j]\<close>.\<close>

definition take_away :: "nat \<Rightarrow> jsnum list \<Rightarrow> jsnum list \<Rightarrow> jsnum list" where
  "take_away n request v =
     fold (\<lambda>j a. js_set a j (js_sub (num_at a j) (num_at request j))) [0..<n] v"

definition add_on :: "nat \<Rightarrow> jsnum list \<Rightarrow> jsnum list \<Rightarrow> jsnum list" where
  "add_on n request v =
     fold (\<lambda>j a. js_set a j (js_add (num_at a j) (num_at request j))) [0..<n] v"

text \<open>
  The first check reads \<open>need[processId][j]\<close> and the tentative allocation writes
  \<open>currentAllocation[processId][j]\<close>; either throws when the row is missing, unless there
  is no resource type and the loops do not run. The loop's third assignment,
  \<open>need[processId][j] -= request[j]\<close>, changes a local that is not read again.
\<close>

definition resourceRequest :: "jsnum list \<Rightarrow> jsnum list list \<Rightarrow> jsnum list list \<Rightarrow> nat
    \<Rightarrow> jsnum list \<Rightarrow> js_error + request_result" where
  "resourceRequest available maxm alloc processId request =
     (let maxDemand = json_copy maxm;
          currentAllocation = json_copy alloc;
          numResources = length available
      in case calc_need maxDemand currentAllocation of
           Inl e \<Rightarrow> Inl e
         | Inr need \<Rightarrow>
             if numResources = 0 then
               (case isSafeState available maxDemand currentAllocation of
                  Inl e \<Rightarrow> Inl e
                | Inr safetyResult \<Rightarrow>
                    if safe safetyResult then
                      Inr \<lparr>granted = True, reason = None, resourceIndex = None,
                           safeSequence_r = Some (safeSequence safetyResult),
                           unsafeProcesses = None\<rparr>
                    else
                      Inr \<lparr>granted = False, reason = Some ''Resulting state would be unsafe'',
                           resourceIndex = None, safeSequence_r = None,
                           unsafeProcesses = Some (unfinishedProcesses safetyResult)\<rparr>)
             else
               (case row_at need processId of
                  None \<Rightarrow> Inl TypeError
                | Some need_p \<Rightarrow>
                    (case first_above numResources request need_p of
                       Some j \<Rightarrow>
                         Inr \<lparr>granted = False, reason = Some ''Request exceeds maximum claim'',
                              resourceIndex = Some j, safeSequence_r = None,
                              unsafeProcesses = None\<rparr>
                     | None \<Rightarrow>
                         (case first_above numResources request available of
                            Some j \<Rightarrow>
                              Inr \<lparr>granted = False, reason = Some ''Resources not available'',
                                   resourceIndex = Some j, safeSequence_r = None,
                                   unsafeProcesses = None\<rparr>
                          | None \<Rightarrow>
                              (case row_at currentAllocation processId of
                                 None \<Rightarrow> Inl TypeError
                               | Some alloc_p \<Rightarrow>
                                   (case isSafeState
                                           (take_away numResources request available)
                                           maxDemand
                                           (currentAllocation
                                              [processId := add_on numResources request alloc_p]) of
                                      Inl e \<Rightarrow> Inl e
                                    | Inr safetyResult \<Rightarrow>
                                        if safe safetyResult then
                                          Inr \<lparr>granted = True, reason = None, resourceIndex = None,
                                               safeSequence_r = Some (safeSequence safetyResult),
                                               unsafeProcesses = None\<rparr>
                                        else
                                          Inr \<lparr>granted = False,
                                               reason = Some ''Resulting state would be unsafe'',
                                               resourceIndex = None, safeSequence_r = None,
                                               unsafeProcesses =
                                                 Some (unfinishedProcesses safetyResult)\<rparr>))))))"

subsection \<open>runBankersAlgorithm\<close>

record bank_request =
  processId :: nat
  request :: "jsnum list"

text \<open>An element of \<open>requestResults\<close>: \<open>{processId, request, ...requestResult}\<close>.\<close>

record request_entry =
  entry_processId :: nat
  entry_request :: "jsnum list"
  outcome :: request_result

record bankers_output =
  initialState :: safety_result
  requestResults :: "request_entry list"

text \<open>
  The update after a granted request runs over \<open>request.length\<close>:
  \<^verbatim>\<open>currentAvailable[j] -= request[j]; currentAllocation[processId][j] += request[j];\<close>
\<close>

definition commit :: "nat \<Rightarrow> jsnum list \<Rightarrow> jsnum list \<times> jsnum list list
    \<Rightarrow> js_error + jsnum list \<times> jsnum list list" where
  "commit pid req s =
     (case s of (currentAvailable, currentAllocation) \<Rightarrow>
        if length req = 0 then Inr (currentAvailable, currentAllocation)
        else (case row_at currentAllocation pid of
                None \<Rightarrow> Inl TypeError
              | Some alloc_p \<Rightarrow>
                  Inr (take_away (length req) req currentAvailable,
                       currentAllocation[pid := add_on (length req) req alloc_p])))"

text \<open>The \<open>for (const req of requests)\<close> loop; an exception leaves the whole function.\<close>

fun replay :: "jsnum list list \<Rightarrow> bank_request list \<Rightarrow> jsnum list \<times> jsnum list list
    \<Rightarrow> js_error + request_entry list" where
  "replay maxm [] s = Inr []"
| "replay maxm (req # rest) s =
     (case resourceRequest (fst s) maxm (snd s) (processId req) (request req) of
        Inl e \<Rightarrow> Inl e
      | Inr requestResult \<Rightarrow>
          (case (if granted requestResult then commit (processId req) (request req) s else Inr s) of
             Inl e \<Rightarrow> Inl e
           | Inr s' \<Rightarrow>
               (case replay maxm rest s' of
                  Inl e \<Rightarrow> Inl e
                | Inr results \<Rightarrow>
                    Inr (\<lparr>entry_processId = processId req, entry_request = request req,
                          outcome = requestResult\<rparr> # results))))"

text \<open>
  The argument object is destructured into \<open>available\<close>, \<open>max\<close>, \<open>allocation\<close> and
  \<open>requests\<close> at once; the model takes the four as arguments. A missing \<open>requests\<close>
  behaves like an empty list.
\<close>

definition runBankersAlgorithm :: "jsnum list \<Rightarrow> jsnum list list \<Rightarrow> jsnum list list
    \<Rightarrow> bank_request list \<Rightarrow> js_error + bankers_output" where
  "runBankersAlgorithm available maxm alloc reqs =
     (case isSafeState available maxm alloc of
        Inl e \<Rightarrow> Inl e
      | Inr initialSafetyCheck \<Rightarrow>
          (case (if safe initialSafetyCheck \<and> length reqs > 0
                 then replay maxm reqs (available, json_copy alloc)
                 else Inr []) of
             Inl e \<Rightarrow> Inl e
           | Inr results \<Rightarrow>
               Inr \<lparr>initialState =
                      \<lparr>safe = safe initialSafetyCheck,
                       safeSequence = safeSequence initialSafetyCheck,
                       unfinishedProcesses = unfinishedProcesses initialSafetyCheck\<rparr>,
                    requestResults = results\<rparr>))"

subsection \<open>Inputs of the concrete scenarios\<close>

definition available_332 :: "int list" where
  "available_332 = [3, 3, 2]"

definition max_5x3 :: "int list list" where
  "max_5x3 = [[7, 5, 3], [3, 2, 2], [9, 0, 2], [2, 2, 2], [4, 3, 3]]"

definition allocation_5x3 :: "int list list" where
  "allocation_5x3 = [[0, 1, 0], [2, 0, 0], [3, 0, 2], [2, 1, 1], [0, 0, 2]]"

section \<open>Specification of the safety check\<close>

text \<open>
  The safety algorithm in the specification's words, over integer vectors. A pass goes
  through the ids that are still unfinished, in ascending order; a process whose need row
  is pointwise at most the working vector is finished on the spot: its allocation row is
  added to the working vector, which the processes after it in the same pass already
  see. The pass returns the new working vector, the ids it finished and the ids it left.
\<close>

definition vec_le :: "int list \<Rightarrow> int list \<Rightarrow> bool" where
  "vec_le xs ys = list_all2 (\<le>) xs ys"

definition vec_add :: "int list \<Rightarrow> int list \<Rightarrow> int list" where
  "vec_add xs ys = map2 (+) xs ys"

definition vec_sub :: "int list \<Rightarrow> int list \<Rightarrow> int list" where
  "vec_sub xs ys = map2 (-) xs ys"

definition need_matrix :: "int list list \<Rightarrow> int list list \<Rightarrow> int list list" where
  "need_matrix mx al = map2 vec_sub mx al"

fun spec_pass :: "int list list \<Rightarrow> int list list \<Rightarrow> nat list \<Rightarrow> int list
    \<Rightarrow> int list \<times> nat list \<times> nat list" where
  "spec_pass need al [] work = (work, [], [])"
| "spec_pass need al (i # ids) work =
     (if vec_le (need ! i) work then
        (case spec_pass need al ids (vec_add work (al ! i)) of
           (work', fin, left) \<Rightarrow> (work', i # fin, left))
      else
        (case spec_pass need al ids work of
           (work', fin, left) \<Rightarrow> (work', fin, i # left)))"

text \<open>
  Passes go on until no process is left (safe, with the sequence in which the processes
  finished) or a whole pass finishes none (unsafe, with an empty sequence and the ids
  still unfinished).
\<close>

function spec_passes :: "int list list \<Rightarrow> int list list \<Rightarrow> nat list \<Rightarrow> int list \<Rightarrow> nat list
    \<Rightarrow> safety_result" where
  "spec_passes need al unfinished work sq =
     (if unfinished = [] then
        \<lparr>safe = True, safeSequence = sq, unfinishedProcesses = []\<rparr>
      else
        (case spec_pass need al unfinished work of
           (work', fin, left) \<Rightarrow>
             if fin = [] then
               \<lparr>safe = False, safeSequence = [], unfinishedProcesses = unfinished\<rparr>
             else spec_passes need al left work' (sq @ fin)))"
  by pat_completeness auto
termination
proof -
  have split: "length fin + length left = length ids"
    if "spec_pass need al ids work = (work', fin, left)"
    for need al ids work work' fin left
    using that
    by (induction ids arbitrary: work work' fin left) (auto split: if_splits prod.splits)
  show ?thesis
  proof (relation "measure (\<lambda>(need, al, unfinished, work, sq). length unfinished)")
    show "wf (measure (\<lambda>(need, al, unfinished, work, sq). length unfinished))" by simp
  next
    fix need al :: "int list list" and unfinished fin left :: "nat list"
      and work work' :: "int list" and sq :: "nat list" and y
    assume "unfinished \<noteq> []" and "(work', y) = spec_pass need al unfinished work"
      and "(fin, left) = y" and ne: "fin \<noteq> []"
    then have "spec_pass need al unfinished work = (work', fin, left)" by simp
    from split [OF this] ne
    show "((need, al, left, work', sq @ fin), (need, al, unfinished, work, sq))
        \<in> measure (\<lambda>(need, al, unfinished, work, sq). length unfinished)"
      by (cases fin) simp_all
  qed
qed

declare spec_passes.simps [simp del]

definition spec_isSafeState :: "int list \<Rightarrow> int list list \<Rightarrow> int list list \<Rightarrow> safety_result" where
  "spec_isSafeState av mx al =
     spec_passes (need_matrix mx al) al [0..<length mx] av []"

text \<open>
  Matching dimensions: as many allocation rows as maximum rows, every row as long as the
  vector of available resources. The entries are arbitrary integers.
\<close>

definition dims_ok :: "int list \<Rightarrow> int list list \<Rightarrow> int list list \<Rightarrow> bool" where
  "dims_ok av mx al =
     (length al = length mx \<and>
      list_all (\<lambda>row. length row = length av) mx \<and>
      list_all (\<lambda>row. length row = length av) al)"

text \<open>
  The numbers of a run stay exact when they stay within \<open>2 ^ 53\<close> in absolute value. This
  is so when, for every resource type, the available amount, the amounts allocated to all
  processes and twice the amounts of all requests still to come add up, in absolute
  value, to at most \<open>2 ^ 53\<close>, and every need with the requested amounts does.
  \<open>load al ids j\<close> is what the processes \<open>ids\<close> hold of resource \<open>j\<close>, in absolute value.
\<close>

definition load :: "int list list \<Rightarrow> nat list \<Rightarrow> nat \<Rightarrow> int" where
  "load al ids j = sum_list (map (\<lambda>i. \<bar>al ! i ! j\<bar>) ids)"

definition asked :: "int list list \<Rightarrow> nat \<Rightarrow> int" where
  "asked reqs j = sum_list (map (\<lambda>r. \<bar>r ! j\<bar>) reqs)"

definition totals_in_range :: "int list \<Rightarrow> int list list \<Rightarrow> int list list \<Rightarrow> bool" where
  "totals_in_range av al reqs =
     list_all (\<lambda>j. \<bar>av ! j\<bar> + load al [0..<length al] j + 2 * asked reqs j \<le> 2 ^ 53)
       [0..<length av]"

definition needs_in_range :: "int list \<Rightarrow> int list list \<Rightarrow> int list list \<Rightarrow> int list list \<Rightarrow> bool" where
  "needs_in_range av mx al reqs =
     list_all (\<lambda>i. list_all (\<lambda>j. \<bar>mx ! i ! j - al ! i ! j\<bar> + asked reqs j \<le> 2 ^ 53)
                      [0..<length av])
       [0..<length mx]"

definition within_range :: "int list \<Rightarrow> int list list \<Rightarrow> int list list \<Rightarrow> int list list \<Rightarrow> bool" where
  "within_range av mx al reqs = (totals_in_range av al reqs \<and> needs_in_range av mx al reqs)"

text \<open>The flags after the processes \<open>fin\<close> have been marked finished.\<close>

definition mark :: "nat list \<Rightarrow> bool list \<Rightarrow> bool list" where
  "mark fin flags = map (\<lambda>i. flags ! i \<or> i \<in> set fin) [0..<length flags]"

section \<open>Specification of the request arbiter and of the driver\<close>

text \<open>The three kinds of denial and the grant, as the result objects they are reported in.\<close>

definition denied_at :: "string \<Rightarrow> nat \<Rightarrow> request_result" where
  "denied_at why j =
     \<lparr>granted = False, reason = Some why, resourceIndex = Some j,
      safeSequence_r = None, unsafeProcesses = None\<rparr>"

definition denied_unsafe :: "nat list \<Rightarrow> request_result" where
  "denied_unsafe ps =
     \<lparr>granted = False, reason = Some ''Resulting state would be unsafe'',
      resourceIndex = None, safeSequence_r = None, unsafeProcesses = Some ps\<rparr>"

definition granted_with :: "nat list \<Rightarrow> request_result" where
  "granted_with sq =
     \<lparr>granted = True, reason = None, resourceIndex = None,
      safeSequence_r = Some sq, unsafeProcesses = None\<rparr>"

text \<open>
  The steps of the arbiter in the order the specification gives them: the claim check,
  then the availability check, each reporting the first offending resource index, and
  only then the safety check of the state with the request applied.
\<close>

definition spec_resourceRequest :: "int list \<Rightarrow> int list list \<Rightarrow> int list list \<Rightarrow> nat
    \<Rightarrow> int list \<Rightarrow> request_result" where
  "spec_resourceRequest av mx al pid req =
     (case find (\<lambda>j. req ! j > mx ! pid ! j - al ! pid ! j) [0..<length av] of
        Some j \<Rightarrow> denied_at ''Request exceeds maximum claim'' j
      | None \<Rightarrow>
          (case find (\<lambda>j. req ! j > av ! j) [0..<length av] of
             Some j \<Rightarrow> denied_at ''Resources not available'' j
           | None \<Rightarrow>
               (let r = spec_isSafeState (vec_sub av req) mx (al[pid := vec_add (al ! pid) req])
                in if safe r then granted_with (safeSequence r)
                   else denied_unsafe (unfinishedProcesses r))))"

text \<open>
  The driver as a fold over the requests that carries the running pair of available
  vector and allocation matrix: a granted request is committed before the next one is
  looked at, a denied one leaves the pair as it was.
\<close>

definition lift_request :: "nat \<times> int list \<Rightarrow> bank_request" where
  "lift_request r = \<lparr>processId = fst r, request = nums (snd r)\<rparr>"

fun spec_replay :: "int list list \<Rightarrow> int list \<times> int list list \<Rightarrow> (nat \<times> int list) list
    \<Rightarrow> request_entry list" where
  "spec_replay mx s [] = []"
| "spec_replay mx s (r # rest) =
     (let res = spec_resourceRequest (fst s) mx (snd s) (fst r) (snd r) in
      \<lparr>entry_processId = fst r, entry_request = nums (snd r), outcome = res\<rparr> #
      spec_replay mx
        (if granted res
         then (vec_sub (fst s) (snd r), (snd s)[fst r := vec_add (snd s ! fst r) (snd r)])
         else s)
        rest)"

text \<open>A request of the right shape: an existing process and one amount per resource type.\<close>

definition request_ok :: "int list \<Rightarrow> int list list \<Rightarrow> nat \<times> int list \<Rightarrow> bool" where
  "request_ok av mx r = (fst r < length mx \<and> length (snd r) = length av)"

subsection \<open>Further scenario inputs\<close>

definition requests_3 :: "(nat \<times> int list) list" where
  "requests_3 = [(1, [1, 0, 2]), (4, [3, 3, 0]), (0, [0, 2, 0])]"

definition max_over :: "int list list" where
  "max_over = [[1, 1], [2, 2]]"

definition allocation_over :: "int list list" where
  "allocation_over = [[3, 0], [0, 1]]"

section \<open>The steps of the safety algorithm and the resources held\<close>

text \<open>
  One step of the algorithm is the loop body run for one process id, or the reset of
  \<open>found\<close> at the start of a pass. The states of a run are those reached from the
  initial locals by such steps.
\<close>

inductive safety_step :: "jsnum list list \<Rightarrow> jsnum list list \<Rightarrow> nat \<Rightarrow> nat
    \<Rightarrow> safety_state \<Rightarrow> safety_state \<Rightarrow> bool"
  for need currentAllocation numResources numProcesses where
  visit_step: "i < numProcesses \<Longrightarrow> visit need currentAllocation numResources i st = Inr st'
     \<Longrightarrow> safety_step need currentAllocation numResources numProcesses st st'"
| pass_step: "safety_step need currentAllocation numResources numProcesses st (st\<lparr>found := False\<rparr>)"

definition reachable :: "int list \<Rightarrow> int list list \<Rightarrow> int list list \<Rightarrow> safety_state \<Rightarrow> bool" where
  "reachable av mx al st =
     (\<exists>need. calc_need (numss mx) (numss al) = Inr need \<and>
        rtranclp (safety_step need (numss al) (length av) (length mx))
          (safety_init (nums av) (length mx)) st)"

text \<open>
  For resource type \<open>j\<close>: what the processes whose finished flag is \<open>b\<close> hold; the
  working available plus what the unfinished processes hold; and that plus what the
  finished processes held, which the working available already contains. These are sums
  of integers, taken exactly; there is none when the working available is not an integer.
\<close>

definition held :: "int list list \<Rightarrow> bool list \<Rightarrow> bool \<Rightarrow> nat \<Rightarrow> int" where
  "held al fl b j = sum_list (map (\<lambda>i. if fl ! i = b then al ! i ! j else 0) [0..<length al])"

definition in_circulation :: "int list list \<Rightarrow> safety_state \<Rightarrow> nat \<Rightarrow> int option" where
  "in_circulation al st j =
     map_option (\<lambda>w. w + held al (finished st) False j) (int_of (num_at (availableResources st) j))"

definition with_returned :: "int list list \<Rightarrow> safety_state \<Rightarrow> nat \<Rightarrow> int option" where
  "with_returned al st j =
     map_option (\<lambda>c. c + held al (finished st) True j) (in_circulation al st j)"

text \<open>
  The safe scenario after process 1, the first eligible one, has finished and returned
  its row \<open>[2, 0, 0]\<close>.
\<close>

definition after_process_1 :: safety_state where
  "after_process_1 =
     \<lparr>availableResources = nums [5, 3, 2],
      finished = [False, True, False, False, False],
      safeSequence_w = [1],
      count = 1,
      found = True\<rparr>"

text \<open>
  The invariant of the steps: the working vector is an integer vector of the right
  length, and for every resource type it is the initial vector plus the rows of the
  finished processes.
\<close>

definition step_inv :: "int list \<Rightarrow> int list list \<Rightarrow> int list list \<Rightarrow> safety_state \<Rightarrow> bool" where
  "step_inv av mx al st =
     (length (finished st) = length mx \<and>
      (\<exists>w. availableResources st = nums w \<and> length w = length av \<and>
           (\<forall>j<length av. w ! j = av ! j + held al (finished st) True j)))"

text \<open>
  A single process holding 1 unit, on a system with \<open>2 ^ 53\<close> units available: the state
  after the process has finished.
\<close>

definition after_big :: safety_state where
  "after_big =
     \<lparr>availableResources = nums [2 ^ 53],
      finished = [True],
      safeSequence_w = [0],
      count = 1,
      found = True\<rparr>"

section \<open>The engine on a store of arrays\<close>

text \<open>
  A function on lists cannot change its arguments, so it cannot say whether the
  JavaScript leaves the caller's arrays alone. This second account of the seven
  operations keeps every array and object the caller can see, and every copy made of
  one, in a store of cells; an argument is the address of a cell, and an assignment
  \<open>a[j] = v\<close> or \<open>o.size = v\<close> replaces the cell that \<open>a\<close> or \<open>o\<close> refers to. The
  computations on the contents are the functions defined above. Arrays that a call
  creates empty and fills itself (\<open>need\<close>, \<open>finished\<close>, \<open>safeSequence\<close>, \<open>allocation\<close>,
  \<open>internalFragmentation\<close>, \<open>requestResults\<close>) stay values.
\<close>

type_synonym addr = nat

datatype cell =
  Nums "jsnum list"
| Refs "addr list"
| Item mem_item
| Request nat addr

type_synonym store = "cell list"

text \<open>A new cell gets the next address.\<close>

definition new_cell :: "cell \<Rightarrow> store \<Rightarrow> addr \<times> store" where
  "new_cell c h = (length h, h @ [c])"

fun new_cells :: "cell list \<Rightarrow> store \<Rightarrow> addr list \<times> store" where
  "new_cells [] h = ([], h)"
| "new_cells (c # cs) h =
     (case new_cell c h of (a, h1) \<Rightarrow>
        (case new_cells cs h1 of (as, h2) \<Rightarrow> (a # as, h2)))"

text \<open>
  Reading an argument as what the engine expects it to be: an array of numbers, an array
  of references (to rows, blocks, processes or requests), an object \<open>{id, size}\<close>.
\<close>

definition nums_of :: "store \<Rightarrow> addr \<Rightarrow> jsnum list" where
  "nums_of h a = (case h ! a of Nums xs \<Rightarrow> xs | _ \<Rightarrow> [])"

definition refs_of :: "store \<Rightarrow> addr \<Rightarrow> addr list" where
  "refs_of h a = (case h ! a of Refs rs \<Rightarrow> rs | _ \<Rightarrow> [])"

definition item_of :: "store \<Rightarrow> addr \<Rightarrow> mem_item" where
  "item_of h a = (case h ! a of Item it \<Rightarrow> it | _ \<Rightarrow> \<lparr>id_of = 0, size_of = 0\<rparr>)"

definition matrix_of :: "store \<Rightarrow> addr \<Rightarrow> jsnum list list" where
  "matrix_of h a = map (nums_of h) (refs_of h a)"

definition items_of :: "store \<Rightarrow> addr \<Rightarrow> mem_item list" where
  "items_of h a = map (item_of h) (refs_of h a)"

text \<open>
  \<open>[...available]\<close> makes one new array; \<open>JSON.parse(JSON.stringify(m))\<close> makes a new
  outer array and a new array or object for each of its elements.
\<close>

definition spread :: "addr \<Rightarrow> store \<Rightarrow> addr \<times> store" where
  "spread a h = new_cell (Nums (nums_of h a)) h"

definition json_clone_matrix :: "addr \<Rightarrow> store \<Rightarrow> addr \<times> store" where
  "json_clone_matrix a h =
     (case new_cells (map (\<lambda>row. Nums (map json_num row)) (matrix_of h a)) h of
        (rows, h1) \<Rightarrow> new_cell (Refs rows) h1)"

definition json_clone_items :: "addr \<Rightarrow> store \<Rightarrow> addr \<times> store" where
  "json_clone_items a h =
     (case new_cells (map Item (items_of h a)) h of
        (objs, h1) \<Rightarrow> new_cell (Refs objs) h1)"

subsection \<open>isSafeState on the store\<close>

text \<open>
  The loop body reads the working vector and the allocation matrix from their cells and
  puts the working vector back into its cell; \<open>a_avail\<close> is the address held by the
  local \<open>availableResources\<close>, \<open>a_alloc\<close> the one held by \<open>currentAllocation\<close>. An exception
  is raised before anything is assigned.
\<close>

definition visit_h :: "jsnum list list \<Rightarrow> addr \<Rightarrow> addr \<Rightarrow> nat \<Rightarrow> nat \<Rightarrow> safety_state \<times> store
    \<Rightarrow> (js_error + safety_state) \<times> store" where
  "visit_h need a_alloc a_avail numResources i s =
     (case s of (st, h) \<Rightarrow>
        (case visit need (matrix_of h a_alloc) numResources i
                (st\<lparr>availableResources := nums_of h a_avail\<rparr>) of
           Inl e \<Rightarrow> (Inl e, h)
         | Inr st' \<Rightarrow> (Inr st', h[a_avail := Nums (availableResources st')])))"

fun scan_h :: "jsnum list list \<Rightarrow> addr \<Rightarrow> addr \<Rightarrow> nat \<Rightarrow> nat list \<Rightarrow> safety_state \<times> store
    \<Rightarrow> (js_error + safety_state) \<times> store" where
  "scan_h need a_alloc a_avail numResources [] s = (Inr (fst s), snd s)"
| "scan_h need a_alloc a_avail numResources (i # ids) s =
     (case visit_h need a_alloc a_avail numResources i s of
        (Inl e, h) \<Rightarrow> (Inl e, h)
      | (Inr st', h) \<Rightarrow> scan_h need a_alloc a_avail numResources ids (st', h))"

function safety_loop_h :: "jsnum list list \<Rightarrow> addr \<Rightarrow> addr \<Rightarrow> nat \<Rightarrow> nat \<Rightarrow> safety_state \<times> store
    \<Rightarrow> (js_error + safety_result) \<times> store" where
  "safety_loop_h need a_alloc a_avail numResources numProcesses s =
     (if count (fst s) < numProcesses then
        (case scan_h need a_alloc a_avail numResources [0..<numProcesses]
                ((fst s)\<lparr>found := False\<rparr>, snd s) of
           (Inl e, h) \<Rightarrow> (Inl e, h)
         | (Inr st', h) \<Rightarrow>
             if \<not> found st' then
               (Inr \<lparr>safe = False, safeSequence = [],
                     unfinishedProcesses = unfinished_of (finished st')\<rparr>, h)
             else safety_loop_h need a_alloc a_avail numResources numProcesses (st', h))
      else (Inr \<lparr>safe = True, safeSequence = safeSequence_w (fst s),
                  unfinishedProcesses = []\<rparr>, snd s))"
  by pat_completeness auto
termination
proof -
  have visit_count: "count st \<le> count st' \<and> (found st' \<longrightarrow> found st \<or> count st < count st')"
    if "visit_h need ca aw nr i (st, h) = (Inr st', h')" for need ca aw nr i st h st' h'
    using that by (auto simp: visit_h_def visit_def split: if_splits sum.splits)
  have scan_count: "count st \<le> count st' \<and> (found st' \<longrightarrow> found st \<or> count st < count st')"
    if "scan_h need ca aw nr ids (st, h) = (Inr st', h')" for need ca aw nr ids st h st' h'
    using that
  proof (induction ids arbitrary: st h)
    case Nil
    then show ?case by simp
  next
    case (Cons i ids)
    then obtain st1 h1 where v: "visit_h need ca aw nr i (st, h) = (Inr st1, h1)"
      and s: "scan_h need ca aw nr ids (st1, h1) = (Inr st', h')"
      by (auto split: prod.splits sum.splits)
    from visit_count [OF v] Cons.IH [OF s] show ?case by auto
  qed
  show ?thesis
  proof (relation "measure (\<lambda>(need, ca, aw, nr, np, s). np - count (fst s))")
    show "wf (measure (\<lambda>(need, ca, aw, nr, np, s). np - count (fst s)))" by simp
  next
    fix need :: "jsnum list list" and ca aw :: addr and nr np :: nat
      and s :: "safety_state \<times> store" and r h and st' :: safety_state
    assume lt: "count (fst s) < np"
      and x: "(r, h) = scan_h need ca aw nr [0..<np] ((fst s)\<lparr>found := False\<rparr>, snd s)"
      and "r = Inr st'" and f: "\<not> \<not> found st'"
    then have "scan_h need ca aw nr [0..<np] ((fst s)\<lparr>found := False\<rparr>, snd s) = (Inr st', h)"
      by simp
    from scan_count [OF this] f have "count (fst s) < count st'" by simp
    then show "((need, ca, aw, nr, np, st', h), (need, ca, aw, nr, np, s))
        \<in> measure (\<lambda>(need, ca, aw, nr, np, s). np - count (fst s))"
      using lt by simp
  qed
qed

declare safety_loop_h.simps [simp del]

definition isSafeState_h :: "addr \<Rightarrow> addr \<Rightarrow> addr \<Rightarrow> store \<Rightarrow> (js_error + safety_result) \<times> store" where
  "isSafeState_h a_available a_max a_allocation h =
     (case spread a_available h of (a_avail, h1) \<Rightarrow>
      (case json_clone_matrix a_max h1 of (maxDemand, h2) \<Rightarrow>
       (case json_clone_matrix a_allocation h2 of (currentAllocation, h3) \<Rightarrow>
          (case calc_need (matrix_of h3 maxDemand) (matrix_of h3 currentAllocation) of
             Inl e \<Rightarrow> (Inl e, h3)
           | Inr need \<Rightarrow>
               safety_loop_h need currentAllocation a_avail
                 (length (nums_of h3 a_available)) (length (matrix_of h3 maxDemand))
                 (safety_init (nums_of h3 a_avail) (length (matrix_of h3 maxDemand)), h3)))))"

subsection \<open>resourceRequest on the store\<close>

definition outcome_of :: "(js_error + safety_result) \<times> store \<Rightarrow> (js_error + request_result) \<times> store" where
  "outcome_of rs =
     (case rs of
        (Inl e, h) \<Rightarrow> (Inl e, h)
      | (Inr safetyResult, h) \<Rightarrow>
          (Inr (if safe safetyResult then granted_with (safeSequence safetyResult)
                else denied_unsafe (unfinishedProcesses safetyResult)), h))"

text \<open>
  The loop \<open>v[j] -= request[j]; row[j] += request[j]\<close> over \<open>n\<close> indices, where \<open>v\<close> is the
  array at \<open>a_v\<close> and \<open>row\<close> is element \<open>pid\<close> of the matrix at \<open>a_m\<close>. When that element is
  missing, the first subtraction has been made by the time the exception is raised.
\<close>

definition apply_request_h :: "nat \<Rightarrow> jsnum list \<Rightarrow> addr \<Rightarrow> addr \<Rightarrow> nat \<Rightarrow> store
    \<Rightarrow> (js_error + unit) \<times> store" where
  "apply_request_h n req a_v a_m pid h =
     (if n = 0 then (Inr (), h)
      else if pid < length (refs_of h a_m) then
        (let row = refs_of h a_m ! pid;
             h1 = h[a_v := Nums (take_away n req (nums_of h a_v))];
             h2 = h1[row := Nums (add_on n req (nums_of h1 row))]
         in (Inr (), h2))
      else
        (Inl TypeError,
         h[a_v := Nums (js_set (nums_of h a_v) 0
                          (js_sub (num_at (nums_of h a_v) 0) (num_at req 0)))]))"

definition resourceRequest_h :: "addr \<Rightarrow> addr \<Rightarrow> addr \<Rightarrow> nat \<Rightarrow> addr \<Rightarrow> store
    \<Rightarrow> (js_error + request_result) \<times> store" where
  "resourceRequest_h a_available a_max a_allocation pid a_request h =
     (case spread a_available h of (a_avail, h1) \<Rightarrow>
      (case json_clone_matrix a_max h1 of (maxDemand, h2) \<Rightarrow>
       (case json_clone_matrix a_allocation h2 of (currentAllocation, h3) \<Rightarrow>
          (let numResources = length (nums_of h3 a_available);
               req = nums_of h3 a_request
           in case calc_need (matrix_of h3 maxDemand) (matrix_of h3 currentAllocation) of
                Inl e \<Rightarrow> (Inl e, h3)
              | Inr need \<Rightarrow>
                  if numResources = 0 then
                    outcome_of (isSafeState_h a_avail maxDemand currentAllocation h3)
                  else
                    (case row_at need pid of
                       None \<Rightarrow> (Inl TypeError, h3)
                     | Some need_p \<Rightarrow>
                         (case first_above numResources req need_p of
                            Some j \<Rightarrow> (Inr (denied_at ''Request exceeds maximum claim'' j), h3)
                          | None \<Rightarrow>
                              (case first_above numResources req (nums_of h3 a_avail) of
                                 Some j \<Rightarrow> (Inr (denied_at ''Resources not available'' j), h3)
                               | None \<Rightarrow>
                                   (case apply_request_h numResources req a_avail
                                           currentAllocation pid h3 of
                                      (Inl e, h4) \<Rightarrow> (Inl e, h4)
                                    | (Inr u, h4) \<Rightarrow>
                                        outcome_of (isSafeState_h a_avail maxDemand
                                                      currentAllocation h4)))))))))"

subsection \<open>runBankersAlgorithm on the store\<close>

text \<open>An element of \<open>requestResults\<close> refers to the caller's \<open>request\<close> array itself.\<close>

record request_entry_h =
  entry_processId_h :: nat
  entry_request_h :: addr
  outcome_h :: request_result

record bankers_output_h =
  initialState_h :: safety_result
  requestResults_h :: "request_entry_h list"

fun replay_h :: "addr \<Rightarrow> addr list \<Rightarrow> addr \<Rightarrow> addr \<Rightarrow> store
    \<Rightarrow> (js_error + request_entry_h list) \<times> store" where
  "replay_h a_max [] currentAvailable currentAllocation h = (Inr [], h)"
| "replay_h a_max (r # rest) currentAvailable currentAllocation h =
     (case h ! r of
        Request pid a_request \<Rightarrow>
          (case resourceRequest_h currentAvailable a_max currentAllocation pid a_request h of
             (Inl e, h1) \<Rightarrow> (Inl e, h1)
           | (Inr requestResult, h1) \<Rightarrow>
               (case (if granted requestResult
                      then apply_request_h (length (nums_of h1 a_request)) (nums_of h1 a_request)
                             currentAvailable currentAllocation pid h1
                      else (Inr (), h1)) of
                  (Inl e, h2) \<Rightarrow> (Inl e, h2)
                | (Inr u, h2) \<Rightarrow>
                    (case replay_h a_max rest currentAvailable currentAllocation h2 of
                       (Inl e, h3) \<Rightarrow> (Inl e, h3)
                     | (Inr results, h3) \<Rightarrow>
                         (Inr (\<lparr>entry_processId_h = pid, entry_request_h = a_request,
                                outcome_h = requestResult\<rparr> # results), h3))))
      | _ \<Rightarrow> (Inl TypeError, h))"

definition runBankersAlgorithm_h :: "addr \<Rightarrow> addr \<Rightarrow> addr \<Rightarrow> addr \<Rightarrow> store
    \<Rightarrow> (js_error + bankers_output_h) \<times> store" where
  "runBankersAlgorithm_h a_available a_max a_allocation a_requests h =
     (case isSafeState_h a_available a_max a_allocation h of
        (Inl e, h1) \<Rightarrow> (Inl e, h1)
      | (Inr initialSafetyCheck, h1) \<Rightarrow>
          if safe initialSafetyCheck \<and> length (refs_of h1 a_requests) > 0 then
            (case spread a_available h1 of (currentAvailable, h2) \<Rightarrow>
             (case json_clone_matrix a_allocation h2 of (currentAllocation, h3) \<Rightarrow>
                (case replay_h a_max (refs_of h3 a_requests) currentAvailable currentAllocation h3 of
                   (Inl e, h4) \<Rightarrow> (Inl e, h4)
                 | (Inr results, h4) \<Rightarrow>
                     (Inr \<lparr>initialState_h = initialSafetyCheck, requestResults_h = results\<rparr>, h4))))
          else (Inr \<lparr>initialState_h = initialSafetyCheck, requestResults_h = []\<rparr>, h1))"

subsection \<open>The block allocators on the store\<close>

text \<open>
  \<open>b\<close> and \<open>p\<close> are the addresses held by the locals \<open>blocks\<close> and \<open>procs\<close>. Choosing block
  \<open>j\<close> ends with \<open>blocks[j].size = 0\<close>, which replaces the object that element \<open>j\<close> of
  \<open>blocks\<close> refers to.
\<close>

definition allocate_block_h :: "addr \<Rightarrow> nat \<Rightarrow> nat \<Rightarrow> int \<Rightarrow> alloc_state \<times> store
    \<Rightarrow> alloc_state \<times> store" where
  "allocate_block_h b i j psize s =
     (case s of (st, h) \<Rightarrow>
        (let st' = allocate_block i j psize (st\<lparr>st_blocks := items_of h b\<rparr>)
         in (st', h[refs_of h b ! j := Item (st_blocks st' ! j)])))"

definition step_h :: "(mem_item list \<Rightarrow> int \<Rightarrow> nat option) \<Rightarrow> addr \<Rightarrow> addr \<Rightarrow> nat
    \<Rightarrow> alloc_state \<times> store \<Rightarrow> alloc_state \<times> store" where
  "step_h search b p i s =
     (case s of (st, h) \<Rightarrow>
        (case search (items_of h b) (size_of (items_of h p ! i)) of
           None \<Rightarrow> s
         | Some j \<Rightarrow> allocate_block_h b i j (size_of (items_of h p ! i)) s))"

definition nf_step_h :: "addr \<Rightarrow> addr \<Rightarrow> nat \<Rightarrow> (alloc_state \<times> store) \<times> nat
    \<Rightarrow> (alloc_state \<times> store) \<times> nat" where
  "nf_step_h b p i sl =
     (case sl of ((st, h), lastAllocatedIndex) \<Rightarrow>
        (case nf_search (items_of h b) (size_of (items_of h p ! i)) lastAllocatedIndex 0 of
           None \<Rightarrow> sl
         | Some j \<Rightarrow> (allocate_block_h b i j (size_of (items_of h p ! i)) (st, h),
                      (j + 1) mod length (items_of h b))))"

text \<open>The two copies at the start of each function, and the result built at its end.\<close>

definition finish_h :: "string \<Rightarrow> addr \<Rightarrow> addr \<Rightarrow> alloc_state \<times> store \<Rightarrow> alloc_result \<times> store" where
  "finish_h name b p s =
     (case s of (st, h) \<Rightarrow> (finish name (items_of h p) (st\<lparr>st_blocks := items_of h b\<rparr>), h))"

definition simple_fit_h :: "string \<Rightarrow> (mem_item list \<Rightarrow> int \<Rightarrow> nat option) \<Rightarrow> addr \<Rightarrow> addr
    \<Rightarrow> store \<Rightarrow> alloc_result \<times> store" where
  "simple_fit_h name search a_memoryBlocks a_processes h =
     (case json_clone_items a_memoryBlocks h of (b, h1) \<Rightarrow>
      (case json_clone_items a_processes h1 of (p, h2) \<Rightarrow>
         finish_h name b p
           (fold (step_h search b p) [0..<length (items_of h2 p)]
              (init_state (items_of h2 b) (items_of h2 p), h2))))"

definition firstFit_h :: "addr \<Rightarrow> addr \<Rightarrow> store \<Rightarrow> alloc_result \<times> store" where
  "firstFit_h = simple_fit_h ''First Fit'' ff_search"

definition bestFit_h :: "addr \<Rightarrow> addr \<Rightarrow> store \<Rightarrow> alloc_result \<times> store" where
  "bestFit_h = simple_fit_h ''Best Fit'' bf_search"

definition worstFit_h :: "addr \<Rightarrow> addr \<Rightarrow> store \<Rightarrow> alloc_result \<times> store" where
  "worstFit_h = simple_fit_h ''Worst Fit'' wf_search"

definition nextFit_h :: "addr \<Rightarrow> addr \<Rightarrow> store \<Rightarrow> alloc_result \<times> store" where
  "nextFit_h a_memoryBlocks a_processes h =
     (case json_clone_items a_memoryBlocks h of (b, h1) \<Rightarrow>
      (case json_clone_items a_processes h1 of (p, h2) \<Rightarrow>
         finish_h ''Next Fit'' b p
           (fst (fold (nf_step_h b p) [0..<length (items_of h2 p)]
                   ((init_state (items_of h2 b) (items_of h2 p), h2), 0)))))"

text \<open>
  Nothing the caller could see has changed: every cell that was in the store is still
  there with the content it had.
\<close>

definition untouched :: "store \<Rightarrow> store \<Rightarrow> bool" where
  "untouched h h' = (length h \<le> length h' \<and> take (length h) h' = h)"

text \<open>
  The elements of a cloned outer array are new cells, and a write of anything but an
  array of references leaves an outer array as it is or makes the cell read as empty.
\<close>

definition owned :: "store \<Rightarrow> store \<Rightarrow> addr \<Rightarrow> bool" where
  "owned h0 h a = (\<forall>r\<in>set (refs_of h a). length h0 \<le> r)"

text \<open>
  The safe scenario laid out in a store: the available vector at 0, the maximum matrix
  at 6 over the rows 1 to 5, the allocation matrix at 12 over the rows 7 to 11, and the
  request \<open>[3, 3, 2]\<close> at 13.
\<close>

definition store_5x3 :: store where
  "store_5x3 =
     [Nums (nums available_332)] @ map (\<lambda>row. Nums (nums row)) max_5x3 @ [Refs [1, 2, 3, 4, 5]] @
     map (\<lambda>row. Nums (nums row)) allocation_5x3 @ [Refs [7, 8, 9, 10, 11]] @
     [Nums (nums [3, 3, 2])]"

text \<open>
  An array argument the engine can read: its address is in the store; for an array of
  references, so are the addresses of its elements.
\<close>

definition refs_in :: "store \<Rightarrow> addr \<Rightarrow> bool" where
  "refs_in h a = (a < length h \<and> list_all (\<lambda>r. r < length h) (refs_of h a))"

text \<open>
  During the loop of \<open>isSafeState\<close> the cell of the working vector holds what the list
  account has in \<open>availableResources\<close>, the copy of the allocation matrix reads as the
  matrix \<open>ca\<close>, and the working vector is neither that outer array nor one of its rows.
\<close>

definition synced :: "addr \<Rightarrow> addr \<Rightarrow> jsnum list list \<Rightarrow> safety_state \<times> store \<Rightarrow> bool" where
  "synced a_avail a_alloc ca s =
     (a_avail < length (snd s) \<and> a_avail \<noteq> a_alloc \<and>
      a_avail \<notin> set (refs_of (snd s) a_alloc) \<and>
      nums_of (snd s) a_avail = availableResources (fst s) \<and>
      matrix_of (snd s) a_alloc = ca)"

text \<open>
  What the list account is given for the request at address \<open>r\<close>, for an element of
  \<open>requestResults\<close> and for the returned object. A request the engine can read is an object
  \<open>{processId, request}\<close> in the store whose \<open>request\<close> array is in the store.
\<close>

definition request_of :: "store \<Rightarrow> addr \<Rightarrow> bank_request" where
  "request_of h r =
     (case h ! r of
        Request pid a \<Rightarrow> \<lparr>processId = pid, request = nums_of h a\<rparr>
      | _ \<Rightarrow> \<lparr>processId = 0, request = []\<rparr>)"

definition is_request :: "store \<Rightarrow> addr \<Rightarrow> bool" where
  "is_request h r = (r < length h \<and> (case h ! r of Request pid a \<Rightarrow> a < length h | _ \<Rightarrow> False))"

definition entry_of :: "store \<Rightarrow> request_entry_h \<Rightarrow> request_entry" where
  "entry_of h e =
     \<lparr>entry_processId = entry_processId_h e, entry_request = nums_of h (entry_request_h e),
      outcome = outcome_h e\<rparr>"

definition output_of :: "store \<Rightarrow> bankers_output_h \<Rightarrow> bankers_output" where
  "output_of h out =
     \<lparr>initialState = initialState_h out,
      requestResults = map (entry_of h) (requestResults_h out)\<rparr>"

text \<open>
  During the loop of \<open>runBankersAlgorithm\<close> over a caller's store \<open>h0\<close>: the caller's cells are
  as they were, and \<open>currentAvailable\<close>, \<open>currentAllocation\<close> and the rows of the latter are
  cells made since, all different.
\<close>

definition working :: "store \<Rightarrow> addr \<Rightarrow> addr \<Rightarrow> store \<Rightarrow> bool" where
  "working h0 cur cal h =
     (untouched h0 h \<and> length h0 \<le> cur \<and> cur < length h \<and> length h0 \<le> cal \<and> cal < length h \<and>
      cur \<noteq> cal \<and> cur \<notin> set (refs_of h cal) \<and> cal \<notin> set (refs_of h cal) \<and>
      distinct (refs_of h cal) \<and>
      list_all (\<lambda>x. length h0 \<le> x \<and> x < length h) (refs_of h cal))"

text \<open>
  During the loop of a block allocator the copy of \<open>memoryBlocks\<close> reads as the list
  account's \<open>blocks\<close> and the copy of \<open>processes\<close> as \<open>procs\<close>; the objects of the first
  copy are different cells, none of them the second copy or one of its objects.
\<close>

definition mem_synced :: "addr \<Rightarrow> addr \<Rightarrow> mem_item list \<Rightarrow> alloc_state \<times> store \<Rightarrow> bool" where
  "mem_synced b p procs s =
     (refs_in (snd s) b \<and> distinct (refs_of (snd s) b) \<and> b \<notin> set (refs_of (snd s) b) \<and>
      p \<notin> set (refs_of (snd s) b) \<and> set (refs_of (snd s) b) \<inter> set (refs_of (snd s) p) = {} \<and>
      items_of (snd s) b = st_blocks (fst s) \<and> items_of (snd s) p = procs)"

section \<open>Properties of the number operations\<close>

lemma bit_length_le: "a < 2 ^ k \<Longrightarrow> bit_length a \<le> k"
proof (induction k arbitrary: a)
  case 0
  then show ?case by (simp add: bit_length.simps)
next
  case (Suc k)
  show ?case
  proof (cases "a \<le> 0")
    case True
    then show ?thesis by (simp add: bit_length.simps)
  next
    case False
    have "a div 2 < 2 ^ k" using Suc.prems by simp
    from Suc.IH [OF this] False show ?thesis by (subst bit_length.simps) simp
  qed
qed

lemma bit_length_pow: "bit_length (2 ^ k) = Suc k"
proof (induction k)
  case 0
  show ?case by (simp add: bit_length.simps [of 1] bit_length.simps [of 0])
next
  case (Suc k)
  have "(0::int) < 2 ^ Suc k" by simp
  then show ?case using Suc by (subst bit_length.simps) simp
qed

lemma bit_length_lower: "0 < a \<Longrightarrow> 2 ^ (bit_length a - 1) \<le> a"
proof (induction a rule: bit_length.induct)
  case (1 n)
  show ?case
  proof (cases "n div 2 \<le> 0")
    case True
    then have "n = 1" using "1.prems" by simp
    then show ?thesis by (simp add: bit_length.simps [of 1] bit_length.simps [of 0])
  next
    case False
    then have pos: "0 < n div 2" by simp
    have n: "\<not> n \<le> 0" using "1.prems" by simp
    from "1.IH" [OF n pos] have ih: "2 ^ (bit_length (n div 2) - 1) \<le> n div 2" .
    have b: "bit_length (n div 2) \<noteq> 0" using pos by (subst bit_length.simps) simp
    have "bit_length n = Suc (bit_length (n div 2))" using n by (subst bit_length.simps) simp
    then have "(2::int) ^ (bit_length n - 1) = 2 * 2 ^ (bit_length (n div 2) - 1)"
      using b by (cases "bit_length (n div 2)") simp_all
    also have "\<dots> \<le> 2 * (n div 2)" using ih by simp
    also have "\<dots> \<le> n" by simp
    finally show ?thesis .
  qed
qed

lemma to_double_unfold:
  fixes n :: int
  defines "e \<equiv> bit_length \<bar>n\<bar> - 53"
  defines "m \<equiv> (if 2 * (\<bar>n\<bar> mod 2 ^ e) > 2 ^ e \<or>
                      (2 * (\<bar>n\<bar> mod 2 ^ e) = 2 ^ e \<and> odd (\<bar>n\<bar> div 2 ^ e))
                   then \<bar>n\<bar> div 2 ^ e + 1 else \<bar>n\<bar> div 2 ^ e) * 2 ^ e"
  shows "to_double n = (if m \<ge> 2 ^ 1024 then (if n < 0 then NInf else PInf)
                        else Num (if n < 0 then - m else m))"
  unfolding to_double_def Let_def e_def m_def ..

lemma to_double_exact: "\<bar>n\<bar> \<le> 2 ^ 53 \<Longrightarrow> to_double n = Num n"
proof -
  assume n: "\<bar>n\<bar> \<le> 2 ^ 53"
  define big :: int where "big = 2 ^ 1024"
  define B :: int where "B = 2 ^ 53"
  have "(2::int) ^ 53 < 2 ^ 1024" by (rule power_strict_increasing) simp_all
  then have small: "\<not> big \<le> \<bar>n\<bar>" using n unfolding big_def by linarith
  have m: "(if 2 * (\<bar>n\<bar> mod 2 ^ (bit_length \<bar>n\<bar> - 53)) > 2 ^ (bit_length \<bar>n\<bar> - 53) \<or>
                      (2 * (\<bar>n\<bar> mod 2 ^ (bit_length \<bar>n\<bar> - 53)) = 2 ^ (bit_length \<bar>n\<bar> - 53) \<and>
                       odd (\<bar>n\<bar> div 2 ^ (bit_length \<bar>n\<bar> - 53)))
                   then \<bar>n\<bar> div 2 ^ (bit_length \<bar>n\<bar> - 53) + 1
                   else \<bar>n\<bar> div 2 ^ (bit_length \<bar>n\<bar> - 53)) * 2 ^ (bit_length \<bar>n\<bar> - 53) = \<bar>n\<bar>"
  proof (cases "\<bar>n\<bar> = B")
    case True
    have "bit_length \<bar>n\<bar> = Suc 53" unfolding True B_def by (rule bit_length_pow)
    then have e: "bit_length \<bar>n\<bar> - 53 = 1" by simp
    have "B = 2 * 2 ^ 52" unfolding B_def by simp
    then have q: "\<bar>n\<bar> mod 2 = 0" "\<bar>n\<bar> div 2 * 2 = \<bar>n\<bar>" using True by simp_all
    show ?thesis unfolding e using q by simp
  next
    case False
    then have "\<bar>n\<bar> < 2 ^ 53" using n unfolding B_def by simp
    then have e: "bit_length \<bar>n\<bar> - 53 = 0" using bit_length_le by simp
    show ?thesis unfolding e by simp
  qed
  have "to_double n = (if big \<le> \<bar>n\<bar> then (if n < 0 then NInf else PInf)
                        else Num (if n < 0 then - \<bar>n\<bar> else \<bar>n\<bar>))"
    unfolding to_double_unfold m big_def ..
  then show ?thesis using small by (simp add: abs_if)
qed

lemma to_double_cases:
  obtains m where "to_double n = Num m" "0 < n \<Longrightarrow> 0 < m" "n < 0 \<Longrightarrow> m < 0" "n = 0 \<Longrightarrow> m = 0"
  | "to_double n = PInf" "0 < n"
  | "to_double n = NInf" "n < 0"
proof -
  define big :: int where "big = 2 ^ 1024"
  define e where "e = bit_length \<bar>n\<bar> - 53"
  define q where "q = \<bar>n\<bar> div 2 ^ e"
  define r where "r = \<bar>n\<bar> mod 2 ^ e"
  define m where "m = (if 2 * r > 2 ^ e \<or> (2 * r = 2 ^ e \<and> odd q) then q + 1 else q) * 2 ^ e"
  have td: "to_double n = (if m \<ge> big then (if n < 0 then NInf else PInf)
         else Num (if n < 0 then - m else m))"
    unfolding to_double_unfold big_def m_def q_def r_def e_def ..
  have bigpos: "0 < big" unfolding big_def by (rule zero_less_power) simp
  have q0: "0 \<le> q" by (simp add: q_def pos_imp_zdiv_nonneg_iff)
  have m0: "0 \<le> m" using q0 by (simp add: m_def)
  have mpos: "0 < m" if "n \<noteq> 0"
  proof -
    have a: "0 < \<bar>n\<bar>" using that by simp
    have "(2::int) ^ e \<le> 2 ^ (bit_length \<bar>n\<bar> - 1)"
      by (rule power_increasing) (simp_all add: e_def)
    also have "\<dots> \<le> \<bar>n\<bar>" by (rule bit_length_lower [OF a])
    finally have "(2::int) ^ e \<le> \<bar>n\<bar>" .
    then have "0 < \<bar>n\<bar> div 2 ^ e" by (subst pos_imp_zdiv_pos_iff) simp_all
    then have "1 \<le> q" by (simp add: q_def)
    then show ?thesis by (simp add: m_def)
  qed
  have zero: "m = 0" if "n = 0"
    using that by (simp add: m_def q_def r_def)
  show thesis
  proof (cases "m \<ge> big")
    case True
    then have "n \<noteq> 0" using zero bigpos by auto
    then show ?thesis using True td that(2,3) by (cases "n < 0") auto
  next
    case False
    show ?thesis
    proof (rule that(1))
      show "to_double n = Num (if n < 0 then - m else m)" using False td by simp
    qed (use mpos zero m0 in auto)
  qed
qed

lemma exact_intI: "\<bar>n\<bar> \<le> 2 ^ 53 \<Longrightarrow> exact_int n"
  by (simp add: exact_int_def)

lemma to_double_exact_int: "exact_int n \<Longrightarrow> to_double n = Num n"
  by (simp add: exact_int_def to_double_exact)

lemma js_add_exact: "exact_int (a + b) \<Longrightarrow> js_add (Num a) (Num b) = Num (a + b)"
  by (simp add: exact_int_def to_double_exact)

lemma js_sub_exact: "exact_int (a - b) \<Longrightarrow> js_sub (Num a) (Num b) = Num (a - b)"
  by (simp add: exact_int_def to_double_exact)

lemma exact_int_between: "exact_int a \<Longrightarrow> exact_int b \<Longrightarrow> a \<le> n \<Longrightarrow> n \<le> b \<Longrightarrow> exact_int n"
  unfolding exact_int_def by linarith

lemma exact_int_0 [simp]: "exact_int 0"
  by (simp add: exact_int_def)

text \<open>Rounding keeps the sign.\<close>

lemma js_gt_to_double_neg: "n < 0 \<Longrightarrow> 0 \<le> r \<Longrightarrow> js_gt (Num r) (to_double n)"
  by (rule to_double_cases [of n]) auto

lemma js_ge_to_double_nonneg: "0 \<le> n \<Longrightarrow> js_ge (to_double n) (Num 0)"
  by (rule to_double_cases [of n]) (auto simp: le_less)

text \<open>A left-to-right sum of non-negative integers is exact as long as the total is.\<close>

lemma fold_js_add_exact:
  assumes "\<forall>x\<in>set xs. 0 \<le> x" "0 \<le> a" "a + sum_list xs \<le> 2 ^ 53"
  shows "fold (\<lambda>x sum. js_add sum x) (map Num xs) (Num a) = Num (a + sum_list xs)"
  using assms
proof (induction xs arbitrary: a)
  case Nil
  show ?case by simp
next
  case (Cons x xs)
  have s: "0 \<le> sum_list xs" using Cons.prems(1) by (intro sum_list_nonneg) simp
  have x: "0 \<le> x" using Cons.prems(1) by simp
  have "exact_int (a + x)"
    using Cons.prems(2,3) s x by (simp add: exact_int_def)
  then have "js_add (Num a) (Num x) = Num (a + x)" by (rule js_add_exact)
  moreover have "fold (\<lambda>x sum. js_add sum x) (map Num xs) (Num (a + x)) = Num (a + x + sum_list xs)"
    using Cons.prems x by (intro Cons.IH) simp_all
  ultimately show ?case by (simp add: add.assoc)
qed

lemma js_sum_exact:
  assumes "\<forall>x\<in>set xs. 0 \<le> x" "sum_list xs \<le> 2 ^ 53"
  shows "js_sum (map Num xs) = Num (sum_list xs)"
  using fold_js_add_exact [OF assms(1), of 0] assms(2) by (simp add: js_sum_def)

lemma int_of_Num [simp]: "int_of (Num n) = Some n"
  by (simp add: int_of_def)

section \<open>Properties of the block allocators\<close>

subsection \<open>The accounting at the end of a run\<close>

lemma finish_all_allocated:
  assumes "unallocatedProcesses (finish name procs st) = []"
  shows "externalFragmentation (finish name procs st) = Num 0"
    and "totalFragmentation (finish name procs st) =
         js_add (js_sum (internalFragmentation (finish name procs st))) (Num 0)"
  using assms by (simp_all add: finish_def external_frag_def Let_def js_sum_def)

subsection \<open>The searches\<close>

lemma fold_upt_invariant:
  assumes "P 0 s" and "\<And>k st. k < n \<Longrightarrow> P k st \<Longrightarrow> P (Suc k) (f k st)"
  shows "P n (fold f [0..<n] s)"
  using assms(2)
proof (induction n)
  case 0
  show ?case using assms(1) by simp
next
  case (Suc n)
  have "P n (fold f [0..<n] s)" using Suc by simp
  then show ?case using Suc.prems [of n] by simp
qed

lemma ff_search_Some:
  "ff_search blocks psize = Some j \<Longrightarrow> j < length blocks \<and> psize \<le> size_of (blocks ! j)"
  unfolding ff_search_def by (auto simp: find_Some_iff)

lemma nf_search_Some:
  "nf_search blocks psize j0 c = Some j \<Longrightarrow> j0 < length blocks \<Longrightarrow>
     j < length blocks \<and> psize \<le> size_of (blocks ! j)"
proof (induction blocks psize j0 c rule: nf_search.induct)
  case (1 blocks psize j0 c)
  show ?case
  proof (cases "c < length blocks \<and> \<not> psize \<le> size_of (blocks ! j0)")
    case True
    then have "nf_search blocks psize ((j0 + 1) mod length blocks) (c + 1) = Some j"
      using "1.prems"(1) by (subst (asm) nf_search.simps) simp
    moreover have "(j0 + 1) mod length blocks < length blocks"
      using "1.prems"(2) by (intro mod_less_divisor) auto
    ultimately show ?thesis using "1.IH" True by simp
  next
    case False
    then show ?thesis
      using "1.prems" by (subst (asm) nf_search.simps) (auto split: if_splits)
  qed
qed

lemma bf_scan_inv_step:
  "bf_scan_inv blocks psize k b \<Longrightarrow> bf_scan_inv blocks psize (Suc k) (bf_scan_step blocks psize k b)"
  unfolding bf_scan_inv_def bf_scan_step_def
  by (cases b) (force simp: less_Suc_eq split: option.splits)

lemma bf_search_inv: "bf_scan_inv blocks psize (length blocks) (fold (bf_scan_step blocks psize) [0..<length blocks] (None, None))"
  by (rule fold_upt_invariant) (simp_all add: bf_scan_inv_def bf_scan_inv_step [unfolded bf_scan_inv_def])

lemma wf_scan_inv_step:
  "wf_scan_inv blocks psize k w \<Longrightarrow> wf_scan_inv blocks psize (Suc k) (wf_scan_step blocks psize k w)"
  unfolding wf_scan_inv_def wf_scan_step_def
  by (cases w) (force simp: less_Suc_eq split: option.splits)

lemma wf_search_inv: "wf_scan_inv blocks psize (length blocks) (fold (wf_scan_step blocks psize) [0..<length blocks] (None, - 1))"
  by (rule fold_upt_invariant) (simp_all add: wf_scan_inv_def wf_scan_inv_step [unfolded wf_scan_inv_def])

lemma bf_search_Some:
  "bf_search blocks psize = Some j \<Longrightarrow> j < length blocks \<and> psize \<le> size_of (blocks ! j)"
  using bf_search_inv [of blocks psize] unfolding bf_search_def bf_scan_inv_def by auto

lemma wf_search_Some:
  "wf_search blocks psize = Some j \<Longrightarrow> j < length blocks \<and> psize \<le> size_of (blocks ! j)"
  using wf_search_inv [of blocks psize] unfolding wf_search_def wf_scan_inv_def by auto

subsection \<open>The invariant of a run\<close>

lemma alloc_inv_init: "alloc_inv orig procs 0 (init_state orig procs)"
  by (simp add: alloc_inv_def init_state_def)

lemma alloc_inv_skip: "alloc_inv orig procs k st \<Longrightarrow> alloc_inv orig procs (Suc k) st"
  unfolding alloc_inv_def by (meson less_Suc_eq)

lemma alloc_inv_allocate:
  assumes inv: "alloc_inv orig procs k st"
    and k: "k < length procs"
    and pos: "0 < size_of (procs ! k)"
    and j: "j < length (st_blocks st)"
    and fit: "size_of (procs ! k) \<le> size_of (st_blocks st ! j)"
  shows "alloc_inv orig procs (Suc k) (allocate_block k j (size_of (procs ! k)) st)"
proof -
  define st' where "st' = allocate_block k j (size_of (procs ! k)) st"
  have len: "length (st_blocks st) = length orig" "length (st_frag st) = length orig"
    "length (st_allocation st) = length procs"
    using inv by (simp_all add: alloc_inv_def)
  have old: "\<And>i j'. i < length procs \<Longrightarrow> st_allocation st ! i = Some j' \<Longrightarrow>
         i < k \<and> j' < length orig \<and> size_of (procs ! i) \<le> size_of (orig ! j') \<and>
         st_frag st ! j' = js_sub (Num (size_of (orig ! j'))) (Num (size_of (procs ! i))) \<and>
         size_of (st_blocks st ! j') = 0 \<and>
         (\<forall>i'<length procs. st_allocation st ! i' = Some j' \<longrightarrow> i' = i)"
    using inv unfolding alloc_inv_def by blast
  have free: "\<And>j'. j' < length orig \<Longrightarrow> (\<forall>i<length procs. st_allocation st ! i \<noteq> Some j') \<Longrightarrow>
         st_blocks st ! j' = orig ! j' \<and> st_frag st ! j' = Num 0"
    using inv unfolding alloc_inv_def by blast
  have fresh: "\<forall>i<length procs. st_allocation st ! i \<noteq> Some j"
  proof (intro allI impI notI)
    fix i assume "i < length procs" "st_allocation st ! i = Some j"
    then have "size_of (st_blocks st ! j) = 0" using old by blast
    then show False using pos fit by simp
  qed
  have same: "st_blocks st ! j = orig ! j" "st_frag st ! j = Num 0"
    using free [of j] fresh j len by simp_all
  have knone: "st_allocation st ! k \<noteq> Some j'" for j'
    using old [of k j'] k by auto
  have a': "st_allocation st' = (st_allocation st)[k := Some j]"
    and f': "st_frag st' =
      (st_frag st)[j := js_sub (Num (size_of (orig ! j))) (Num (size_of (procs ! k)))]"
    and b': "st_blocks st' = (st_blocks st)[j := (orig ! j)\<lparr>size_of := 0\<rparr>]"
    by (simp_all add: st'_def allocate_block_def same)
  have lens: "length (st_blocks st') = length orig \<and> length (st_frag st') = length orig \<and>
      length (st_allocation st') = length procs"
    by (simp add: a' f' b' len)
  have chosen: "i < Suc k \<and> j' < length orig \<and> size_of (procs ! i) \<le> size_of (orig ! j') \<and>
         st_frag st' ! j' = js_sub (Num (size_of (orig ! j'))) (Num (size_of (procs ! i))) \<and>
         size_of (st_blocks st' ! j') = 0 \<and>
         (\<forall>i'<length procs. st_allocation st' ! i' = Some j' \<longrightarrow> i' = i)"
    if i: "i < length procs" and eq: "st_allocation st' ! i = Some j'" for i j'
  proof (cases "i = k")
    case True
    then have jj: "j' = j" using eq k len by (simp add: a')
    have "\<forall>i'<length procs. st_allocation st' ! i' = Some j \<longrightarrow> i' = k"
      using fresh len k by (auto simp: a' nth_list_update split: if_splits)
    then show ?thesis
      using True jj j len fit same by (simp add: f' b')
  next
    case False
    then have o: "st_allocation st ! i = Some j'" using eq by (simp add: a')
    then have ne: "j' \<noteq> j" using fresh i by auto
    have "\<forall>i'<length procs. st_allocation st' ! i' = Some j' \<longrightarrow> i' = i"
      using old [OF i o] ne len k by (auto simp: a' nth_list_update split: if_splits)
    then show ?thesis
      using old [OF i o] ne by (simp add: f' b')
  qed
  have unchosen: "st_blocks st' ! j' = orig ! j' \<and> st_frag st' ! j' = Num 0"
    if j': "j' < length orig" and no: "\<forall>i<length procs. st_allocation st' ! i \<noteq> Some j'" for j'
  proof -
    have ne: "j' \<noteq> j" using no k len by (auto simp: a')
    have "\<forall>i<length procs. st_allocation st ! i \<noteq> Some j'"
    proof (intro allI impI)
      fix i assume i: "i < length procs"
      show "st_allocation st ! i \<noteq> Some j'"
      proof (cases "i = k")
        case True then show ?thesis using knone by simp
      next
        case False then show ?thesis using no [rule_format, OF i] by (simp add: a')
      qed
    qed
    then show ?thesis using free [OF j'] ne by (simp add: f' b')
  qed
  show ?thesis
    unfolding st'_def [symmetric] alloc_inv_def
    using lens chosen unchosen by blast
qed

lemma ff_step_inv:
  assumes "alloc_inv orig procs k st" "k < length procs" "0 < size_of (procs ! k)"
  shows "alloc_inv orig procs (Suc k) (ff_step procs k st)"
proof (cases "ff_search (st_blocks st) (size_of (procs ! k))")
  case None
  then show ?thesis using assms(1) by (simp add: ff_step_def alloc_inv_skip)
next
  case (Some j)
  from ff_search_Some [OF Some] show ?thesis
    using assms Some by (simp add: ff_step_def alloc_inv_allocate)
qed

lemma bf_step_inv:
  assumes "alloc_inv orig procs k st" "k < length procs" "0 < size_of (procs ! k)"
  shows "alloc_inv orig procs (Suc k) (bf_step procs k st)"
proof (cases "bf_search (st_blocks st) (size_of (procs ! k))")
  case None
  then show ?thesis using assms(1) by (simp add: bf_step_def alloc_inv_skip)
next
  case (Some j)
  from bf_search_Some [OF Some] show ?thesis
    using assms Some by (simp add: bf_step_def alloc_inv_allocate)
qed

lemma wf_step_inv:
  assumes "alloc_inv orig procs k st" "k < length procs" "0 < size_of (procs ! k)"
  shows "alloc_inv orig procs (Suc k) (wf_step procs k st)"
proof (cases "wf_search (st_blocks st) (size_of (procs ! k))")
  case None
  then show ?thesis using assms(1) by (simp add: wf_step_def alloc_inv_skip)
next
  case (Some j)
  from wf_search_Some [OF Some] show ?thesis
    using assms Some by (simp add: wf_step_def alloc_inv_allocate)
qed

lemma nf_search_empty: "nf_search [] psize j c = None"
  by (subst nf_search.simps) simp

lemma nf_step_inv:
  assumes inv: "alloc_inv orig procs k (fst s)" and last: "orig \<noteq> [] \<longrightarrow> snd s < length orig"
    and k: "k < length procs" and pos: "0 < size_of (procs ! k)"
  shows "alloc_inv orig procs (Suc k) (fst (nf_step procs k s)) \<and>
         (orig \<noteq> [] \<longrightarrow> snd (nf_step procs k s) < length orig)"
proof -
  obtain st l where s: "s = (st, l)" by (cases s)
  have len: "length (st_blocks st) = length orig" using inv s by (simp add: alloc_inv_def)
  show ?thesis
  proof (cases "nf_search (st_blocks st) (size_of (procs ! k)) l 0")
    case None
    then show ?thesis using inv last s by (simp add: nf_step_def alloc_inv_skip)
  next
    case (Some j)
    have ne: "orig \<noteq> []"
    proof
      assume "orig = []"
      then have "st_blocks st = []" using len by simp
      then show False using Some by (simp add: nf_search_empty)
    qed
    then have "l < length (st_blocks st)" using last s len by simp
    from nf_search_Some [OF Some this]
    show ?thesis using inv k pos Some s len ne
      by (simp add: nf_step_def alloc_inv_allocate)
  qed
qed

lemma firstFit_run_inv:
  assumes "\<forall>p\<in>set procs. 0 < size_of p"
  shows "alloc_inv orig procs (length procs) (firstFit_run orig procs)"
  unfolding firstFit_run_def
  by (rule fold_upt_invariant) (use assms in \<open>simp_all add: alloc_inv_init ff_step_inv\<close>)

lemma bestFit_run_inv:
  assumes "\<forall>p\<in>set procs. 0 < size_of p"
  shows "alloc_inv orig procs (length procs) (bestFit_run orig procs)"
  unfolding bestFit_run_def
  by (rule fold_upt_invariant) (use assms in \<open>simp_all add: alloc_inv_init bf_step_inv\<close>)

lemma worstFit_run_inv:
  assumes "\<forall>p\<in>set procs. 0 < size_of p"
  shows "alloc_inv orig procs (length procs) (worstFit_run orig procs)"
  unfolding worstFit_run_def
  by (rule fold_upt_invariant) (use assms in \<open>simp_all add: alloc_inv_init wf_step_inv\<close>)

lemma nextFit_run_inv:
  assumes "\<forall>p\<in>set procs. 0 < size_of p"
  shows "alloc_inv orig procs (length procs) (nextFit_run orig procs)"
proof -
  have "alloc_inv orig procs (length procs)
          (fst (fold (nf_step procs) [0..<length procs] (init_state orig procs, 0))) \<and>
        (orig \<noteq> [] \<longrightarrow>
           snd (fold (nf_step procs) [0..<length procs] (init_state orig procs, 0)) < length orig)"
    by (rule fold_upt_invariant [where P = "\<lambda>k s. alloc_inv orig procs k (fst s) \<and>
          (orig \<noteq> [] \<longrightarrow> snd s < length orig)"])
      (use assms in \<open>simp_all add: alloc_inv_init nf_step_inv\<close>)
  then show ?thesis by (simp add: nextFit_run_def)
qed

lemma Math_max_Max: "xs \<noteq> [] \<Longrightarrow> Math_max xs = Some (Max (set xs))"
  by (cases xs) (simp_all add: Max.set_eq_fold [symmetric])

lemma external_frag_eq:
  "external_frag blocks U =
     (if U = [] then Num 0
      else js_sum (map (\<lambda>b. Num (size_of b))
             (filter (\<lambda>b. 0 < size_of b \<and> size_of b < Max (set (map size_of U))) blocks)))"
  by (simp add: external_frag_def Math_max_Max js_sum_def fold_map comp_def)

subsection \<open>The choice made for each process\<close>

lemma bf_step_gen: "bf_step = gen_step bf_search"
  by (intro ext) (simp add: bf_step_def gen_step_def)

lemma wf_step_gen: "wf_step = gen_step wf_search"
  by (intro ext) (simp add: wf_step_def gen_step_def)

text \<open>What a step does to the blocks depends on the blocks and on the process alone.\<close>

lemma gen_step_blocks:
  "st_blocks (gen_step search procs k st) =
     (case search (st_blocks st) (size_of (procs ! k)) of
        None \<Rightarrow> st_blocks st
      | Some j \<Rightarrow> (st_blocks st)[j := (st_blocks st ! j)\<lparr>size_of := 0\<rparr>])"
  by (simp add: gen_step_def allocate_block_def split: option.splits)

lemma gen_step_blocks_cong:
  "st_blocks st = st_blocks st' \<Longrightarrow> procs ! k = procs' ! k \<Longrightarrow>
   st_blocks (gen_step search procs k st) = st_blocks (gen_step search procs' k st')"
  by (simp only: gen_step_blocks)

lemma gen_fold_blocks_cong:
  assumes "\<forall>m<k. procs ! m = procs' ! m"
  shows "st_blocks (fold (gen_step search procs) [0..<k] (init_state orig procs)) =
         st_blocks (fold (gen_step search procs') [0..<k] (init_state orig procs'))"
  using assms
proof (induction k)
  case 0
  show ?case by (simp add: init_state_def)
next
  case (Suc k)
  then have "st_blocks (fold (gen_step search procs) [0..<k] (init_state orig procs)) =
         st_blocks (fold (gen_step search procs') [0..<k] (init_state orig procs'))"
    and "procs ! k = procs' ! k"
    by simp_all
  from gen_step_blocks_cong [OF this] show ?case by simp
qed

lemma gen_step_length [simp]:
  "length (st_allocation (gen_step search procs k st)) = length (st_allocation st)"
  by (simp add: gen_step_def allocate_block_def split: option.splits)

lemma gen_step_other:
  "m \<noteq> k \<Longrightarrow> st_allocation (gen_step search procs k st) ! m = st_allocation st ! m"
  by (simp add: gen_step_def allocate_block_def split: option.splits)

lemma gen_fold_length [simp]:
  "length (st_allocation (fold (gen_step search procs) [0..<k] st)) = length (st_allocation st)"
  by (induction k) simp_all

lemma gen_fold_untouched:
  "k \<le> m \<Longrightarrow> st_allocation (fold (gen_step search procs) [0..<k] st) ! m = st_allocation st ! m"
  by (induction k) (simp_all add: gen_step_other)

lemma gen_fold_later:
  "i < k \<Longrightarrow> st_allocation (fold (gen_step search procs) [0..<k] st) ! i =
     st_allocation (fold (gen_step search procs) [0..<Suc i] st) ! i"
proof (induction k)
  case 0
  then show ?case by simp
next
  case (Suc k)
  show ?case
  proof (cases "i = k")
    case True
    then show ?thesis by simp
  next
    case False
    then have "i < k" using Suc.prems by simp
    then show ?thesis using Suc.IH False by (simp add: gen_step_other)
  qed
qed

lemma gen_step_at:
  assumes "k < length (st_allocation st)" "st_allocation st ! k = None"
  shows "st_allocation (gen_step search procs k st) ! k = search (st_blocks st) (size_of (procs ! k))"
  using assms by (simp add: gen_step_def allocate_block_def split: option.splits)

lemma gen_run_choice:
  assumes i: "i < length procs"
  shows "st_allocation (fold (gen_step search procs) [0..<length procs] (init_state orig procs)) ! i =
         search (st_blocks (fold (gen_step search (take i procs)) [0..<length (take i procs)]
                   (init_state orig (take i procs))))
                (size_of (procs ! i))"
proof -
  let ?pre = "fold (gen_step search procs) [0..<i] (init_state orig procs)"
  have len: "i < length (st_allocation ?pre)" using i by (simp add: init_state_def)
  have none: "st_allocation ?pre ! i = None"
    using i by (simp add: gen_fold_untouched init_state_def)
  have "st_allocation (fold (gen_step search procs) [0..<length procs] (init_state orig procs)) ! i =
        st_allocation (gen_step search procs i ?pre) ! i"
    using gen_fold_later [OF i, of search procs "init_state orig procs"] by simp
  also have "\<dots> = search (st_blocks ?pre) (size_of (procs ! i))"
    by (rule gen_step_at [OF len none])
  also have "st_blocks ?pre =
      st_blocks (fold (gen_step search (take i procs)) [0..<i] (init_state orig (take i procs)))"
    by (rule gen_fold_blocks_cong) simp
  finally show ?thesis using i by (simp add: min_def)
qed

lemma bf_search_best: "is_best_choice cur p (bf_search cur p)"
  using bf_search_inv [of cur p]
  unfolding bf_search_def bf_scan_inv_def is_best_choice_def
  by (auto split: option.splits)

lemma wf_search_worst:
  assumes "0 \<le> p"
  shows "is_worst_choice cur p (wf_search cur p)"
proof (cases "wf_search cur p")
  case None
  then have *: "\<forall>m<length cur. \<not> (p \<le> size_of (cur ! m) \<and> - 1 < size_of (cur ! m))"
    using wf_search_inv [of cur p] by (simp add: wf_search_def wf_scan_inv_def)
  have "size_of (cur ! m) < p" if m: "m < length cur" for m
  proof (rule ccontr)
    assume "\<not> size_of (cur ! m) < p"
    then have fit: "p \<le> size_of (cur ! m)" by simp
    then have "- 1 < size_of (cur ! m)" using assms by linarith
    then show False using * m fit by blast
  qed
  then show ?thesis using None by (simp add: is_worst_choice_def)
next
  case (Some j)
  then show ?thesis
    using wf_search_inv [of cur p] by (simp add: wf_search_def wf_scan_inv_def is_worst_choice_def)
qed

text \<open>
  Claim C5, as stated for every process, fails for worst fit when a process size is
  negative: the scan starts from \<open>worstBlockSize = -1\<close> and takes a block only if its size
  is above that. The block of size \<open>-3\<close> is large enough for the process of size \<open>-5\<close>
  and best fit takes it, but worst fit leaves the process unallocated.
\<close>

theorem worst_fit_skips_negative_sizes:
  "size_of (procs_neg5 ! 0) \<le> size_of (blocks_neg3 ! 0) \<and>
   allocation (worstFit blocks_neg3 procs_neg5) = [None] \<and>
   \<not> is_worst_choice blocks_neg3 (size_of (procs_neg5 ! 0))
       (allocation (worstFit blocks_neg3 procs_neg5) ! 0) \<and>
   allocation (bestFit blocks_neg3 procs_neg5) = [Some 0]"
proof -
  have w: "allocation (worstFit blocks_neg3 procs_neg5) = [None]" by code_simp
  have b: "allocation (bestFit blocks_neg3 procs_neg5) = [Some 0]" by code_simp
  have n: "\<not> is_worst_choice blocks_neg3 (size_of (procs_neg5 ! 0)) None"
    by (simp add: is_worst_choice_def blocks_neg3_def procs_neg5_def)
  have s: "size_of (procs_neg5 ! 0) \<le> size_of (blocks_neg3 ! 0)"
    by (simp add: blocks_neg3_def procs_neg5_def)
  show ?thesis using n s by (simp add: w b)
qed

text \<open>
  Claim C5, amended: for the process at position \<open>i\<close> of the input, best fit records the
  best choice among the blocks as the run on the first \<open>i\<close> processes has left them; and
  when the size of that process is not negative, worst fit records the worst choice among
  them. On the blocks 100, 50, 200 and one process of size 60, best fit takes block 0
  (size 100), worst fit takes block 2 (size 200), and the two allocations differ.
\<close>

theorem best_and_worst_fit_choice:
  assumes "i < length processes"
  shows "is_best_choice (st_blocks (bestFit_run memoryBlocks (take i processes)))
           (size_of (processes ! i)) (allocation (bestFit memoryBlocks processes) ! i) \<and>
         (0 \<le> size_of (processes ! i) \<longrightarrow>
            is_worst_choice (st_blocks (worstFit_run memoryBlocks (take i processes)))
              (size_of (processes ! i)) (allocation (worstFit memoryBlocks processes) ! i)) \<and>
         allocation (bestFit blocks_100_50_200 procs_60) = [Some 0] \<and>
         size_of (blocks_100_50_200 ! 0) = 100 \<and>
         allocation (worstFit blocks_100_50_200 procs_60) = [Some 2] \<and>
         size_of (blocks_100_50_200 ! 2) = 200 \<and>
         allocation (bestFit blocks_100_50_200 procs_60) \<noteq>
           allocation (worstFit blocks_100_50_200 procs_60)"
proof -
  have b: "allocation (bestFit memoryBlocks processes) ! i =
        bf_search (st_blocks (bestFit_run memoryBlocks (take i processes))) (size_of (processes ! i))"
    using gen_run_choice [OF assms, of bf_search memoryBlocks]
    by (simp add: bestFit_def finish_def Let_def bestFit_run_def bf_step_gen min_def)
  have w: "allocation (worstFit memoryBlocks processes) ! i =
        wf_search (st_blocks (worstFit_run memoryBlocks (take i processes))) (size_of (processes ! i))"
    using gen_run_choice [OF assms, of wf_search memoryBlocks]
    by (simp add: worstFit_def finish_def Let_def worstFit_run_def wf_step_gen min_def)
  have c1: "allocation (bestFit blocks_100_50_200 procs_60) = [Some 0]" by code_simp
  have c2: "allocation (worstFit blocks_100_50_200 procs_60) = [Some 2]" by code_simp
  have c3: "size_of (blocks_100_50_200 ! 0) = 100" "size_of (blocks_100_50_200 ! 2) = 200"
    by (simp_all add: blocks_100_50_200_def)
  have bb: "is_best_choice (st_blocks (bestFit_run memoryBlocks (take i processes)))
           (size_of (processes ! i)) (allocation (bestFit memoryBlocks processes) ! i)"
    unfolding b by (rule bf_search_best)
  have ww: "0 \<le> size_of (processes ! i) \<longrightarrow>
            is_worst_choice (st_blocks (worstFit_run memoryBlocks (take i processes)))
              (size_of (processes ! i)) (allocation (worstFit memoryBlocks processes) ! i)"
    unfolding w by (intro impI wf_search_worst)
  have ne: "allocation (bestFit blocks_100_50_200 procs_60) \<noteq>
           allocation (worstFit blocks_100_50_200 procs_60)"
    unfolding c1 c2 by simp
  show ?thesis
    by (intro conjI bb ww c1 c2 c3 ne)
qed

theorem best_and_worst_fit_choice_witness:
  "0 < length procs_60 \<and>
   is_best_choice blocks_100_50_200 60 (Some 0) \<and>
   is_worst_choice blocks_100_50_200 60 (Some 2)"
proof -
  have l: "0 < length procs_60" by (simp add: procs_60_def)
  have e: "st_blocks (bestFit_run blocks_100_50_200 []) = blocks_100_50_200"
     "st_blocks (worstFit_run blocks_100_50_200 []) = blocks_100_50_200"
    by (simp_all add: bestFit_run_def worstFit_run_def init_state_def)
  have c1: "allocation (bestFit blocks_100_50_200 procs_60) ! 0 = Some 0" by code_simp
  have c2: "allocation (worstFit blocks_100_50_200 procs_60) ! 0 = Some 2" by code_simp
  have s: "size_of (procs_60 ! 0) = 60" by (simp add: procs_60_def)
  note t = best_and_worst_fit_choice [OF l, of blocks_100_50_200]
  have b: "is_best_choice blocks_100_50_200 60 (Some 0)"
    using t [THEN conjunct1] by (simp add: e c1 s)
  have "0 \<le> size_of (procs_60 ! 0) \<longrightarrow> is_worst_choice blocks_100_50_200 60 (Some 2)"
    using t [THEN conjunct2, THEN conjunct1] by (simp add: e c2 s)
  then have w: "is_worst_choice blocks_100_50_200 60 (Some 2)" by (simp add: s)
  show ?thesis using l b w by simp
qed

subsection \<open>Fragmentation\<close>

lemma run_inv_all:
  assumes "\<forall>p\<in>set procs. 0 < size_of p"
    and "st \<in> {firstFit_run orig procs, nextFit_run orig procs,
                bestFit_run orig procs, worstFit_run orig procs}"
  shows "alloc_inv orig procs (length procs) st"
  using assms firstFit_run_inv nextFit_run_inv bestFit_run_inv worstFit_run_inv by auto

lemma finish_fields:
  "allocation (finish name procs st) = st_allocation st"
  "internalFragmentation (finish name procs st) = st_frag st"
  "externalFragmentation (finish name procs st) =
     external_frag (st_blocks st) (unallocated procs (st_allocation st))"
  "totalFragmentation (finish name procs st) =
     js_add (js_sum (st_frag st))
       (external_frag (st_blocks st) (unallocated procs (st_allocation st)))"
  "unallocatedProcesses (finish name procs st) = map id_of (unallocated procs (st_allocation st))"
  by (simp_all add: finish_def Let_def js_sum_def)

text \<open>
  Claim C9. With positive process sizes (the block sizes may be anything), whenever one
  of the four strategies gives block \<open>j\<close> to process \<open>i\<close>, the block's original capacity
  is at least the process's size, and no internal fragmentation entry is negative.
\<close>

theorem chosen_block_large_enough:
  assumes "\<forall>p\<in>set processes. 0 < size_of p"
    and "r \<in> {firstFit memoryBlocks processes, nextFit memoryBlocks processes,
               bestFit memoryBlocks processes, worstFit memoryBlocks processes}"
  shows "(\<forall>i<length processes. \<forall>j. allocation r ! i = Some j \<longrightarrow>
            j < length memoryBlocks \<and>
            size_of (processes ! i) \<le> size_of (memoryBlocks ! j) \<and>
            js_ge (internalFragmentation r ! j) (Num 0)) \<and>
         length (internalFragmentation r) = length memoryBlocks \<and>
         (\<forall>j<length memoryBlocks. js_ge (internalFragmentation r ! j) (Num 0))"
proof -
  obtain name st where r: "r = finish name processes st"
    and st: "st \<in> {firstFit_run memoryBlocks processes, nextFit_run memoryBlocks processes,
                bestFit_run memoryBlocks processes, worstFit_run memoryBlocks processes}"
    using assms(2) unfolding firstFit_def nextFit_def bestFit_def worstFit_def by auto
  have inv: "alloc_inv memoryBlocks processes (length processes) st"
    by (rule run_inv_all [OF assms(1) st])
  have chosen: "j < length memoryBlocks \<and> size_of (processes ! i) \<le> size_of (memoryBlocks ! j) \<and>
      js_ge (st_frag st ! j) (Num 0)" if "i < length processes" "st_allocation st ! i = Some j" for i j
  proof -
    have c: "j < length memoryBlocks" "size_of (processes ! i) \<le> size_of (memoryBlocks ! j)"
      "st_frag st ! j = js_sub (Num (size_of (memoryBlocks ! j))) (Num (size_of (processes ! i)))"
      using inv that unfolding alloc_inv_def by fastforce+
    have "js_ge (to_double (size_of (memoryBlocks ! j) - size_of (processes ! i))) (Num 0)"
      using c(2) by (intro js_ge_to_double_nonneg) simp
    then show ?thesis using c by simp
  qed
  have len: "length (st_frag st) = length memoryBlocks"
    using inv by (simp add: alloc_inv_def)
  have nonneg: "js_ge (st_frag st ! j) (Num 0)" if j: "j < length memoryBlocks" for j
  proof (cases "\<exists>i<length processes. st_allocation st ! i = Some j")
    case True
    then show ?thesis using chosen by blast
  next
    case False
    then show ?thesis using inv j unfolding alloc_inv_def by simp
  qed
  show ?thesis
    unfolding r finish_fields using chosen len nonneg by blast
qed

theorem chosen_block_large_enough_witness:
  "list_all (\<lambda>p. 0 < size_of p) procs_30_8 \<and>
   allocation (nextFit blocks_10_20_5 procs_30_8) ! 1 = Some 0 \<and>
   size_of (procs_30_8 ! 1) \<le> size_of (blocks_10_20_5 ! 0) \<and>
   js_ge (internalFragmentation (nextFit blocks_10_20_5 procs_30_8) ! 0) (Num 0)"
proof -
  have pos: "\<forall>p\<in>set procs_30_8. 0 < size_of p" by (simp add: procs_30_8_def)
  have a: "allocation (nextFit blocks_10_20_5 procs_30_8) ! 1 = Some 0" by code_simp
  have l: "1 < length procs_30_8" by (simp add: procs_30_8_def)
  from chosen_block_large_enough [OF pos, of "nextFit blocks_10_20_5 procs_30_8" blocks_10_20_5]
  have "\<forall>i<length procs_30_8. \<forall>j. allocation (nextFit blocks_10_20_5 procs_30_8) ! i = Some j \<longrightarrow>
            j < length blocks_10_20_5 \<and>
            size_of (procs_30_8 ! i) \<le> size_of (blocks_10_20_5 ! j) \<and>
            js_ge (internalFragmentation (nextFit blocks_10_20_5 procs_30_8) ! j) (Num 0)"
    by simp
  from this [rule_format, OF l a] pos a show ?thesis
    by (simp add: list_all_iff)
qed

lemma abs_size_le_sum:
  "j < length bs \<Longrightarrow> \<bar>size_of (bs ! j)\<bar> \<le> sum_list (map (\<lambda>b. \<bar>size_of b\<bar>) bs)"
proof (induction bs arbitrary: j)
  case Nil
  then show ?case by simp
next
  case (Cons b bs)
  have "0 \<le> sum_list (map (\<lambda>b. \<bar>size_of b\<bar>) bs)" by (intro sum_list_nonneg) auto
  note nn = this
  show ?case
  proof (cases j)
    case 0
    then show ?thesis using nn by simp
  next
    case (Suc k)
    then have "\<bar>size_of (bs ! k)\<bar> \<le> sum_list (map (\<lambda>b. \<bar>size_of b\<bar>) bs)"
      using Cons by simp
    then show ?thesis using Suc by simp
  qed
qed

lemma sum_list_index: "sum_list (map f xs) = sum_list (map (\<lambda>j. f (xs ! j)) [0..<length xs])"
proof -
  have "map f xs = map (\<lambda>j. f (xs ! j)) [0..<length xs]"
    by (intro nth_equalityI) simp_all
  then show ?thesis by simp
qed

text \<open>
  Claim C4, as stated for every input, fails in two ways. When a process has size 0, a
  block already handed out has working size 0, which is still \<open>\<ge> 0\<close>, so the block is
  chosen a second time and its entry is overwritten: block 0 (size 100) is chosen for
  process 0 (size 90), yet its entry is 0 at the end, not 10. And the entry is a double:
  for a block of size \<open>2 ^ 53 + 2\<close> and a process of size 1 it is \<open>2 ^ 53\<close>, not
  \<open>2 ^ 53 + 1\<close>.
\<close>

theorem internal_fragmentation_overwritten:
  "allocation (firstFit blocks_100 procs_90_0) ! 0 = Some 0 \<and>
   size_of (blocks_100 ! 0) - size_of (procs_90_0 ! 0) = 10 \<and>
   internalFragmentation (firstFit blocks_100 procs_90_0) ! 0 = Num 0 \<and>
   internalFragmentation (firstFit blocks_100 procs_90_0) ! 0 \<noteq>
     Num (size_of (blocks_100 ! 0) - size_of (procs_90_0 ! 0)) \<and>
   allocation (firstFit blocks_big procs_1) ! 0 = Some 0 \<and>
   size_of (blocks_big ! 0) - size_of (procs_1 ! 0) = 2 ^ 53 + 1 \<and>
   internalFragmentation (firstFit blocks_big procs_1) ! 0 = Num (2 ^ 53) \<and>
   totalFragmentation (firstFit blocks_big procs_1) = Num (2 ^ 53)"
proof -
  have a: "allocation (firstFit blocks_100 procs_90_0) ! 0 = Some 0" by code_simp
  have f: "internalFragmentation (firstFit blocks_100 procs_90_0) ! 0 = Num 0" by code_simp
  have d: "size_of (blocks_100 ! 0) - size_of (procs_90_0 ! 0) = 10"
    by (simp add: blocks_100_def procs_90_0_def)
  have a2: "allocation (firstFit blocks_big procs_1) ! 0 = Some 0" by code_simp
  have d2: "size_of (blocks_big ! 0) - size_of (procs_1 ! 0) = 2 ^ 53 + 1"
    by (simp add: blocks_big_def procs_1_def)
  have f2: "internalFragmentation (firstFit blocks_big procs_1) ! 0 = Num (2 ^ 53)" by code_simp
  have t2: "totalFragmentation (firstFit blocks_big procs_1) = Num (2 ^ 53)" by code_simp
  show ?thesis by (simp only: a f d a2 d2 f2 t2) simp
qed

text \<open>
  Claim C4, amended: for every input whose process sizes are positive and whose block
  sizes add up, in absolute value, to at most \<open>2 ^ 53\<close>, and each of the four strategies.
  The entry of a block chosen for a process is the block's size minus the process's size;
  the entry of a block never chosen is 0; a chosen block is left with working size 0 and
  every other block with its own size; the external fragmentation is the sum of the
  working sizes that are positive and below the size of the largest unallocated process
  (0 when every process was placed); and the total is the sum of the internal entries
  plus the external fragmentation.
\<close>

theorem fragmentation_accounting:
  assumes "\<forall>p\<in>set processes. 0 < size_of p"
    and "sizes_in_range memoryBlocks"
    and "(r, st) \<in> {(firstFit memoryBlocks processes, firstFit_run memoryBlocks processes),
                     (nextFit memoryBlocks processes, nextFit_run memoryBlocks processes),
                     (bestFit memoryBlocks processes, bestFit_run memoryBlocks processes),
                     (worstFit memoryBlocks processes, worstFit_run memoryBlocks processes)}"
  shows "(\<forall>i<length processes. \<forall>j. allocation r ! i = Some j \<longrightarrow>
            internalFragmentation r ! j =
              Num (size_of (memoryBlocks ! j) - size_of (processes ! i))) \<and>
         (\<forall>j<length memoryBlocks. (\<forall>i<length processes. allocation r ! i \<noteq> Some j) \<longrightarrow>
            internalFragmentation r ! j = Num 0) \<and>
         (\<forall>j<length memoryBlocks. size_of (st_blocks st ! j) =
            (if \<exists>i<length processes. allocation r ! i = Some j then 0
             else size_of (memoryBlocks ! j))) \<and>
         length (st_blocks st) = length memoryBlocks \<and>
         externalFragmentation r =
           Num (if unallocated processes (allocation r) = [] then 0
                else sum_list (map size_of (filter
                   (\<lambda>b. 0 < size_of b \<and>
                        size_of b < Max (set (map size_of (unallocated processes (allocation r)))))
                   (st_blocks st)))) \<and>
         (\<exists>fs e. internalFragmentation r = map Num fs \<and> externalFragmentation r = Num e \<and>
            totalFragmentation r = Num (sum_list fs + e))"
proof -
  let ?n = "length memoryBlocks"
  let ?total = "sum_list (map (\<lambda>b. \<bar>size_of b\<bar>) memoryBlocks)"
  have range: "?total \<le> 2 ^ 53" using assms(2) by (simp add: sizes_in_range_def)
  obtain name where r: "r = finish name processes st"
    and st: "st \<in> {firstFit_run memoryBlocks processes, nextFit_run memoryBlocks processes,
                bestFit_run memoryBlocks processes, worstFit_run memoryBlocks processes}"
    using assms(3) unfolding firstFit_def nextFit_def bestFit_def worstFit_def by auto
  have inv: "alloc_inv memoryBlocks processes (length processes) st"
    by (rule run_inv_all [OF assms(1) st])
  have len: "length (st_blocks st) = ?n" "length (st_frag st) = ?n"
    using inv by (simp_all add: alloc_inv_def)
  have chosen: "st_frag st ! j = Num (size_of (memoryBlocks ! j) - size_of (processes ! i)) \<and>
      size_of (st_blocks st ! j) = 0 \<and> j < ?n \<and>
      0 \<le> size_of (memoryBlocks ! j) - size_of (processes ! i) \<and>
      size_of (memoryBlocks ! j) - size_of (processes ! i) \<le> \<bar>size_of (memoryBlocks ! j)\<bar>"
    if i: "i < length processes" and a: "st_allocation st ! i = Some j" for i j
  proof -
    have c: "j < ?n" "size_of (processes ! i) \<le> size_of (memoryBlocks ! j)"
      "st_frag st ! j = js_sub (Num (size_of (memoryBlocks ! j))) (Num (size_of (processes ! i)))"
      "size_of (st_blocks st ! j) = 0"
      using inv that unfolding alloc_inv_def by fastforce+
    have p: "0 < size_of (processes ! i)" using assms(1) i by simp
    have "\<bar>size_of (memoryBlocks ! j)\<bar> \<le> 2 ^ 53"
      using abs_size_le_sum [OF c(1)] range by linarith
    then have "exact_int (size_of (memoryBlocks ! j) - size_of (processes ! i))"
      using c(2) p by (simp add: exact_int_def)
    then show ?thesis using c p by (simp add: to_double_exact_int)
  qed
  have unchosen: "st_blocks st ! j = memoryBlocks ! j \<and> st_frag st ! j = Num 0"
    if "j < ?n" "\<forall>i<length processes. st_allocation st ! i \<noteq> Some j" for j
    using inv that unfolding alloc_inv_def by blast
  have work: "size_of (st_blocks st ! j) =
            (if \<exists>i<length processes. st_allocation st ! i = Some j then 0
             else size_of (memoryBlocks ! j))" if j: "j < ?n" for j
  proof (cases "\<exists>i<length processes. st_allocation st ! i = Some j")
    case True
    then show ?thesis using chosen by auto
  next
    case False
    then have "\<forall>i<length processes. st_allocation st ! i \<noteq> Some j" by blast
    from unchosen [OF j this] False show ?thesis by auto
  qed
  define U where "U = unallocated processes (st_allocation st)"
  define P where "P = (\<lambda>b :: mem_item. 0 < size_of b \<and> size_of b < Max (set (map size_of U)))"
  define c where "c = (\<lambda>j. if U \<noteq> [] \<and> P (st_blocks st ! j) then size_of (st_blocks st ! j) else 0)"
  define fs where "fs = map (\<lambda>v. the (int_of v)) (st_frag st)"
  have entry: "\<exists>x. st_frag st ! j = Num x \<and> 0 \<le> x \<and> 0 \<le> c j \<and>
      x + c j \<le> \<bar>size_of (memoryBlocks ! j)\<bar>" if j: "j < ?n" for j
  proof (cases "\<exists>i<length processes. st_allocation st ! i = Some j")
    case True
    then obtain i where i: "i < length processes" "st_allocation st ! i = Some j" by blast
    from chosen [OF i] show ?thesis by (auto simp: c_def P_def)
  next
    case False
    then have "\<forall>i<length processes. st_allocation st ! i \<noteq> Some j" by blast
    from unchosen [OF j this] show ?thesis by (auto simp: c_def P_def)
  qed
  have fs: "st_frag st = map Num fs"
  proof (rule nth_equalityI)
    show "length (st_frag st) = length (map Num fs)" by (simp add: fs_def)
    fix j assume "j < length (st_frag st)"
    then show "st_frag st ! j = map Num fs ! j"
      using entry [of j] len by (auto simp: fs_def)
  qed
  have lfs: "length fs = ?n" using len by (simp add: fs_def)
  have fsj: "0 \<le> fs ! j \<and> 0 \<le> c j \<and> fs ! j + c j \<le> \<bar>size_of (memoryBlocks ! j)\<bar>"
    if j: "j < ?n" for j
    using entry [OF j] fs j lfs by (metis jsnum.inject nth_map)
  have fs_nonneg: "\<forall>x\<in>set fs. 0 \<le> x"
    using fsj lfs by (auto simp: in_set_conv_nth)
  define e where "e = sum_list (map c [0..<?n])"
  have e_nonneg: "0 \<le> e" unfolding e_def using fsj by (intro sum_list_nonneg) auto
  have both: "sum_list fs + e \<le> ?total"
  proof -
    have "sum_list fs + e = sum_list (map (\<lambda>j. fs ! j + c j) [0..<?n])"
      using sum_list_index [of "\<lambda>x. x" fs] by (simp add: e_def lfs sum_list_addf)
    also have "\<dots> \<le> sum_list (map (\<lambda>j. \<bar>size_of (memoryBlocks ! j)\<bar>) [0..<?n])"
      using fsj by (intro sum_list_mono) simp
    also have "\<dots> = ?total" by (rule sum_list_index [symmetric])
    finally show ?thesis .
  qed
  have e_eq: "e = (if U = [] then 0 else sum_list (map size_of (filter P (st_blocks st))))"
  proof -
    have "sum_list (map size_of (filter P (st_blocks st))) =
          sum_list (map (\<lambda>j. if P (st_blocks st ! j) then size_of (st_blocks st ! j) else 0)
            [0..<?n])"
      using sum_list_index [of "\<lambda>b. if P b then size_of b else 0" "st_blocks st"]
      by (simp add: sum_list_map_filter' len)
    then show ?thesis by (simp add: e_def c_def)
  qed
  have ext: "external_frag (st_blocks st) U = Num e"
  proof (cases "U = []")
    case True
    then show ?thesis by (simp add: external_frag_eq e_eq)
  next
    case False
    have "0 \<le> sum_list fs" using fs_nonneg by (intro sum_list_nonneg) simp
    then have "sum_list (map size_of (filter P (st_blocks st))) \<le> 2 ^ 53"
      using both range False by (simp add: e_eq)
    moreover have "\<forall>x\<in>set (map size_of (filter P (st_blocks st))). 0 \<le> x"
      by (auto simp: P_def)
    ultimately have "js_sum (map Num (map size_of (filter P (st_blocks st)))) =
        Num (sum_list (map size_of (filter P (st_blocks st))))"
      by (intro js_sum_exact) simp_all
    then show ?thesis using False by (simp add: external_frag_eq e_eq P_def comp_def)
  qed
  have sum_fs: "js_sum (st_frag st) = Num (sum_list fs)"
    unfolding fs using fs_nonneg both e_nonneg range by (intro js_sum_exact) simp_all
  have "exact_int (sum_list fs + e)"
  proof -
    have "0 \<le> sum_list fs" using fs_nonneg by (intro sum_list_nonneg) simp
    then show ?thesis using both e_nonneg range by (simp add: exact_int_def)
  qed
  then have tot: "totalFragmentation r = Num (sum_list fs + e)"
    unfolding r finish_fields U_def [symmetric] ext sum_fs by (rule js_add_exact)
  have c1: "\<forall>i<length processes. \<forall>j. allocation r ! i = Some j \<longrightarrow>
            internalFragmentation r ! j =
              Num (size_of (memoryBlocks ! j) - size_of (processes ! i))"
    unfolding r finish_fields using chosen by blast
  have c2: "\<forall>j<?n. (\<forall>i<length processes. allocation r ! i \<noteq> Some j) \<longrightarrow>
            internalFragmentation r ! j = Num 0"
    unfolding r finish_fields using unchosen by blast
  have c3: "\<forall>j<?n. size_of (st_blocks st ! j) =
            (if \<exists>i<length processes. allocation r ! i = Some j then 0
             else size_of (memoryBlocks ! j))"
    unfolding r finish_fields using work by blast
  have c5: "externalFragmentation r =
           Num (if unallocated processes (allocation r) = [] then 0
                else sum_list (map size_of (filter
                   (\<lambda>b. 0 < size_of b \<and>
                        size_of b < Max (set (map size_of (unallocated processes (allocation r)))))
                   (st_blocks st))))"
    unfolding r finish_fields U_def [symmetric] ext e_eq P_def by simp
  have c6: "\<exists>fs e. internalFragmentation r = map Num fs \<and> externalFragmentation r = Num e \<and>
            totalFragmentation r = Num (sum_list fs + e)"
  proof (intro exI conjI)
    show "internalFragmentation r = map Num fs" unfolding r finish_fields by (rule fs)
    show "externalFragmentation r = Num e" unfolding r finish_fields U_def [symmetric] by (rule ext)
    show "totalFragmentation r = Num (sum_list fs + e)" by (rule tot)
  qed
  show ?thesis
    by (intro conjI c1 c2 c3 len(1) c5 c6)
qed

theorem fragmentation_accounting_witness:
  "list_all (\<lambda>p. 0 < size_of p) procs_30_8 \<and>
   sizes_in_range blocks_10_20_5 \<and>
   allocation (firstFit blocks_10_20_5 procs_30_8) = [None, Some 0] \<and>
   internalFragmentation (firstFit blocks_10_20_5 procs_30_8) ! 0 =
     Num (size_of (blocks_10_20_5 ! 0) - size_of (procs_30_8 ! 1)) \<and>
   internalFragmentation (firstFit blocks_10_20_5 procs_30_8) ! 1 = Num 0 \<and>
   map size_of (st_blocks (firstFit_run blocks_10_20_5 procs_30_8)) = [0, 20, 5] \<and>
   externalFragmentation (firstFit blocks_10_20_5 procs_30_8) = Num 25 \<and>
   totalFragmentation (firstFit blocks_10_20_5 procs_30_8) = Num 27"
proof -
  have pos: "\<forall>p\<in>set procs_30_8. 0 < size_of p" by (simp add: procs_30_8_def)
  have rg: "sizes_in_range blocks_10_20_5" by code_simp
  have a: "allocation (firstFit blocks_10_20_5 procs_30_8) = [None, Some 0]" by code_simp
  have b: "map size_of (st_blocks (firstFit_run blocks_10_20_5 procs_30_8)) = [0, 20, 5]"
    by code_simp
  have e: "externalFragmentation (firstFit blocks_10_20_5 procs_30_8) = Num 25" by code_simp
  have s: "internalFragmentation (firstFit blocks_10_20_5 procs_30_8) = map Num [2, 0, 0]"
    by code_simp
  have l: "length procs_30_8 = 2" "length blocks_10_20_5 = 3"
    by (simp_all add: procs_30_8_def blocks_10_20_5_def)
  have m: "(firstFit blocks_10_20_5 procs_30_8, firstFit_run blocks_10_20_5 procs_30_8) \<in>
      {(firstFit blocks_10_20_5 procs_30_8, firstFit_run blocks_10_20_5 procs_30_8),
       (nextFit blocks_10_20_5 procs_30_8, nextFit_run blocks_10_20_5 procs_30_8),
       (bestFit blocks_10_20_5 procs_30_8, bestFit_run blocks_10_20_5 procs_30_8),
       (worstFit blocks_10_20_5 procs_30_8, worstFit_run blocks_10_20_5 procs_30_8)}"
    by simp
  note t = fragmentation_accounting [OF pos rg m]
  have free1: "\<forall>i<length procs_30_8. allocation (firstFit blocks_10_20_5 procs_30_8) ! i \<noteq> Some 1"
    by (auto simp: a l less_Suc_eq numeral_2_eq_2)
  have c1: "internalFragmentation (firstFit blocks_10_20_5 procs_30_8) ! 0 =
     Num (size_of (blocks_10_20_5 ! 0) - size_of (procs_30_8 ! 1))"
    using t [THEN conjunct1, rule_format, of 1 0] by (simp add: a l)
  have c2: "internalFragmentation (firstFit blocks_10_20_5 procs_30_8) ! 1 = Num 0"
    using t [THEN conjunct2, THEN conjunct1, THEN spec, of 1] free1 by (simp add: l)
  from t [THEN conjunct2, THEN conjunct2, THEN conjunct2, THEN conjunct2, THEN conjunct2]
  obtain fs x where fx: "internalFragmentation (firstFit blocks_10_20_5 procs_30_8) = map Num fs"
    "externalFragmentation (firstFit blocks_10_20_5 procs_30_8) = Num x"
    "totalFragmentation (firstFit blocks_10_20_5 procs_30_8) = Num (sum_list fs + x)"
    by blast
  have "map Num fs = map Num [2, 0, 0]" using fx(1) s by (simp only:)
  then have "fs = [2, 0, 0]" by (rule map_injective) (simp add: inj_on_def)
  moreover have "x = 25" using fx(2) e by simp
  ultimately have tot: "totalFragmentation (firstFit blocks_10_20_5 procs_30_8) = Num 27"
    using fx(3) by simp
  show ?thesis using pos rg a b e c1 c2 tot by (simp add: list_all_iff)
qed

text \<open>
  Claim C10, as stated, fails for the total: it is the left-to-right sum of the entries
  in double arithmetic, not their sum. First fit places three processes of size 2 on
  blocks of sizes \<open>2 ^ 53 + 2\<close>, 3 and 3; the entries are \<open>2 ^ 53\<close>, 1 and 1, which add up to
  \<open>2 ^ 53 + 2\<close>, and the total reported is \<open>2 ^ 53\<close>.
\<close>

theorem total_is_a_rounded_sum:
  "unallocatedProcesses (firstFit blocks_big_3_3 procs_2_2_2) = [] \<and>
   externalFragmentation (firstFit blocks_big_3_3 procs_2_2_2) = Num 0 \<and>
   internalFragmentation (firstFit blocks_big_3_3 procs_2_2_2) = map Num [2 ^ 53, 1, 1] \<and>
   sum_list [2 ^ 53, 1, 1 :: int] = 2 ^ 53 + 2 \<and>
   totalFragmentation (firstFit blocks_big_3_3 procs_2_2_2) = Num (2 ^ 53) \<and>
   totalFragmentation (firstFit blocks_big_3_3 procs_2_2_2) \<noteq> Num (sum_list [2 ^ 53, 1, 1])"
proof -
  have u: "unallocatedProcesses (firstFit blocks_big_3_3 procs_2_2_2) = []" by code_simp
  have e: "externalFragmentation (firstFit blocks_big_3_3 procs_2_2_2) = Num 0" by code_simp
  have f: "internalFragmentation (firstFit blocks_big_3_3 procs_2_2_2) = map Num [2 ^ 53, 1, 1]"
    by code_simp
  have t: "totalFragmentation (firstFit blocks_big_3_3 procs_2_2_2) = Num (2 ^ 53)" by code_simp
  have s: "sum_list [2 ^ 53, 1, 1 :: int] = 2 ^ 53 + 2" by simp
  show ?thesis by (simp only: u e f t s) simp
qed

text \<open>
  Claim C10, amended. Whenever one of the four strategies leaves no process unallocated,
  the external fragmentation it reports is 0, whatever free blocks remain, and the total
  fragmentation is the left-to-right sum of the internal fragmentation entries alone
  (plus that 0); it is their exact sum whenever the entries are non-negative integers
  that add up to at most \<open>2 ^ 53\<close>.
\<close>

theorem all_allocated_external_zero:
  assumes "r \<in> {firstFit memoryBlocks processes, nextFit memoryBlocks processes,
                 bestFit memoryBlocks processes, worstFit memoryBlocks processes}"
    and "unallocatedProcesses r = []"
  shows "externalFragmentation r = Num 0 \<and>
         totalFragmentation r = js_add (js_sum (internalFragmentation r)) (Num 0) \<and>
         (\<forall>fs. internalFragmentation r = map Num fs \<and> (\<forall>f\<in>set fs. 0 \<le> f) \<and>
               sum_list fs \<le> 2 ^ 53 \<longrightarrow>
            totalFragmentation r = Num (sum_list fs))"
proof -
  have e: "externalFragmentation r = Num 0"
    and t: "totalFragmentation r = js_add (js_sum (internalFragmentation r)) (Num 0)"
    using assms finish_all_allocated
    unfolding firstFit_def nextFit_def bestFit_def worstFit_def
    by auto
  have "totalFragmentation r = Num (sum_list fs)"
    if "internalFragmentation r = map Num fs" "\<forall>f\<in>set fs. 0 \<le> f" "sum_list fs \<le> 2 ^ 53" for fs
  proof -
    have "0 \<le> sum_list fs" using that(2) by (intro sum_list_nonneg) simp
    then have "exact_int (sum_list fs + 0)" using that(3) by (simp add: exact_int_def)
    then have "js_add (Num (sum_list fs)) (Num 0) = Num (sum_list fs + 0)" by (rule js_add_exact)
    then show ?thesis using js_sum_exact [OF that(2,3)] by (simp add: t that(1))
  qed
  then show ?thesis using e t by blast
qed

text \<open>
  The first-fit scenario: both processes are placed, the block of size 200 stays free
  with its full size, and still no external fragmentation is reported; the total is the
  sum of the entries 10, 0 and 0.
\<close>

theorem all_allocated_external_zero_witness:
  "unallocatedProcesses (firstFit blocks_100_50_200 procs_90_50) = [] \<and>
   map size_of (st_blocks (firstFit_run blocks_100_50_200 procs_90_50)) = [0, 0, 200] \<and>
   externalFragmentation (firstFit blocks_100_50_200 procs_90_50) = Num 0 \<and>
   internalFragmentation (firstFit blocks_100_50_200 procs_90_50) = map Num [10, 0, 0] \<and>
   totalFragmentation (firstFit blocks_100_50_200 procs_90_50) = Num 10"
proof -
  have u: "unallocatedProcesses (firstFit blocks_100_50_200 procs_90_50) = []"
    by code_simp
  have b: "map size_of (st_blocks (firstFit_run blocks_100_50_200 procs_90_50)) = [0, 0, 200]"
    by code_simp
  have f: "internalFragmentation (firstFit blocks_100_50_200 procs_90_50) = map Num [10, 0, 0]"
    by code_simp
  note t = all_allocated_external_zero [of "firstFit blocks_100_50_200 procs_90_50"
      blocks_100_50_200 procs_90_50, OF _ u]
  have e: "externalFragmentation (firstFit blocks_100_50_200 procs_90_50) = Num 0"
    using t by simp
  have "totalFragmentation (firstFit blocks_100_50_200 procs_90_50) = Num (sum_list [10, 0, 0])"
    using t [THEN conjunct2, THEN conjunct2, THEN spec, of "[10, 0, 0]"] f by simp
  then show ?thesis using u b e f by simp
qed

section \<open>Properties of the Banker's algorithm engine\<close>

subsection \<open>Integer vectors as JavaScript arrays\<close>

lemma length_nums [simp]: "length (nums v) = length v"
  by (simp add: nums_def)

lemma length_numss [simp]: "length (numss m) = length m"
  by (simp add: numss_def)

lemma nth_nums [simp]: "j < length v \<Longrightarrow> nums v ! j = Num (v ! j)"
  by (simp add: nums_def)

lemma nth_numss [simp]: "i < length m \<Longrightarrow> numss m ! i = nums (m ! i)"
  by (simp add: numss_def)

lemma num_at_nums: "num_at (nums v) j = (if j < length v then Num (v ! j) else NaN)"
  by (simp add: num_at_def)

lemma row_at_numss: "row_at (numss m) i = (if i < length m then Some (nums (m ! i)) else None)"
  by (simp add: row_at_def)

lemma json_copy_numss [simp]: "json_copy (numss m) = numss m"
  by (simp add: json_copy_def numss_def nums_def json_num_def)

lemma nums_eq_iff [simp]: "nums v = nums w \<longleftrightarrow> v = w"
  by (simp add: nums_def inj_map_eq_map inj_on_def)

lemma length_vec_add [simp]: "length (vec_add xs ys) = min (length xs) (length ys)"
  by (simp add: vec_add_def)

lemma length_vec_sub [simp]: "length (vec_sub xs ys) = min (length xs) (length ys)"
  by (simp add: vec_sub_def)

lemma nth_vec_add [simp]:
  "j < length xs \<Longrightarrow> j < length ys \<Longrightarrow> vec_add xs ys ! j = xs ! j + ys ! j"
  by (simp add: vec_add_def)

lemma nth_vec_sub [simp]:
  "j < length xs \<Longrightarrow> j < length ys \<Longrightarrow> vec_sub xs ys ! j = xs ! j - ys ! j"
  by (simp add: vec_sub_def)

text \<open>The three index loops that update a vector in place, on integer vectors.\<close>

lemma js_set_nums: "j < length w \<Longrightarrow> js_set (nums w) j (Num x) = nums (w[j := x])"
  by (simp add: js_set_def nums_def map_update)

lemma fold_update_nums:
  assumes "k \<le> length w" "k \<le> length r"
    and f: "\<And>j. j < k \<Longrightarrow> f (Num (w ! j)) (Num (r ! j)) = Num (g (w ! j) (r ! j))"
  shows "fold (\<lambda>j a. js_set a j (f (num_at a j) (num_at (nums r) j))) [0..<k] (nums w) =
         nums (map (\<lambda>j. if j < k then g (w ! j) (r ! j) else w ! j) [0..<length w])"
  using assms
proof (induction k)
  case 0
  show ?case by (simp add: map_nth)
next
  case (Suc k)
  let ?u = "map (\<lambda>j. if j < k then g (w ! j) (r ! j) else w ! j) [0..<length w]"
  have "fold (\<lambda>j a. js_set a j (f (num_at a j) (num_at (nums r) j))) [0..<Suc k] (nums w) =
        js_set (nums ?u) k (f (num_at (nums ?u) k) (num_at (nums r) k))"
    using Suc by simp
  also have "\<dots> = nums (?u[k := g (w ! k) (r ! k)])"
    using Suc.prems(1,2) Suc.prems(3) [of k] by (simp add: num_at_nums js_set_nums)
  also have "?u[k := g (w ! k) (r ! k)] =
      map (\<lambda>j. if j < Suc k then g (w ! j) (r ! j) else w ! j) [0..<length w]"
    using Suc.prems by (intro nth_equalityI) (auto simp: nth_list_update less_Suc_eq)
  finally show ?case .
qed

lemma give_back_nums:
  assumes "length w = m" "length r = m" "\<forall>j<m. exact_int (w ! j + r ! j)"
  shows "give_back m (Some (nums r)) (nums w) = Inr (nums (vec_add w r))"
proof -
  have "fold (\<lambda>j av. js_set av j (js_add (num_at av j) (num_at (nums r) j))) [0..<m] (nums w) =
        nums (map (\<lambda>j. if j < m then w ! j + r ! j else w ! j) [0..<length w])"
    using assms by (intro fold_update_nums) (simp_all add: to_double_exact_int)
  also have "map (\<lambda>j. if j < m then w ! j + r ! j else w ! j) [0..<length w] = vec_add w r"
    using assms by (intro nth_equalityI) simp_all
  finally show ?thesis using assms by (auto simp: give_back_def)
qed

lemma take_away_nums:
  assumes "length w = m" "length r = m" "\<forall>j<m. exact_int (w ! j - r ! j)"
  shows "take_away m (nums r) (nums w) = nums (vec_sub w r)"
proof -
  have "fold (\<lambda>j a. js_set a j (js_sub (num_at a j) (num_at (nums r) j))) [0..<m] (nums w) =
        nums (map (\<lambda>j. if j < m then w ! j - r ! j else w ! j) [0..<length w])"
    using assms by (intro fold_update_nums) (simp_all add: to_double_exact_int)
  also have "map (\<lambda>j. if j < m then w ! j - r ! j else w ! j) [0..<length w] = vec_sub w r"
    using assms by (intro nth_equalityI) simp_all
  finally show ?thesis by (simp add: take_away_def)
qed

lemma add_on_nums:
  assumes "length w = m" "length r = m" "\<forall>j<m. exact_int (w ! j + r ! j)"
  shows "add_on m (nums r) (nums w) = nums (vec_add w r)"
proof -
  have "fold (\<lambda>j a. js_set a j (js_add (num_at a j) (num_at (nums r) j))) [0..<m] (nums w) =
        nums (map (\<lambda>j. if j < m then w ! j + r ! j else w ! j) [0..<length w])"
    using assms by (intro fold_update_nums) (simp_all add: to_double_exact_int)
  also have "map (\<lambda>j. if j < m then w ! j + r ! j else w ! j) [0..<length w] = vec_add w r"
    using assms by (intro nth_equalityI) simp_all
  finally show ?thesis by (simp add: add_on_def)
qed

lemma canAllocate_nums:
  assumes "length nd = m" "length w = m"
  shows "canAllocate m (nums nd) (nums w) = vec_le nd w"
  using assms
  by (auto simp: canAllocate_def vec_le_def list_all_iff list_all2_conv_all_nth num_at_nums not_less)

lemma need_row_nums:
  assumes "length a = length p" "\<forall>j<length p. exact_int (p ! j - a ! j)"
  shows "need_row (nums p) (nums a) = nums (vec_sub p a)"
  using assms by (intro nth_equalityI) (simp_all add: need_row_def num_at_nums to_double_exact_int)

lemma map_rows_Inr:
  assumes "length ys = length xs" and "\<And>k. k < length xs \<Longrightarrow> f (i + k) (xs ! k) = Inr (ys ! k)"
  shows "map_rows f i xs = Inr ys"
  using assms
proof (induction xs arbitrary: i ys)
  case Nil
  then show ?case by simp
next
  case (Cons x xs)
  then obtain y ys' where ys: "ys = y # ys'" by (cases ys) auto
  have h: "f i x = Inr y" using Cons.prems(2) [of 0] ys by simp
  have "map_rows f (Suc i) xs = Inr ys'"
  proof (rule Cons.IH)
    show "length ys' = length xs" using Cons.prems(1) ys by simp
    fix k assume "k < length xs"
    then show "f (Suc i + k) (xs ! k) = Inr (ys' ! k)"
      using Cons.prems(2) [of "Suc k"] ys by simp
  qed
  then show ?case using h ys by simp
qed

lemma dims_okD:
  assumes "dims_ok av mx al"
  shows "length al = length mx"
    and "i < length mx \<Longrightarrow> length (mx ! i) = length av"
    and "i < length mx \<Longrightarrow> length (al ! i) = length av"
  using assms by (auto simp: dims_ok_def list_all_length)

lemma length_need_matrix [simp]: "length (need_matrix mx al) = min (length mx) (length al)"
  by (simp add: need_matrix_def)

lemma nth_need_matrix:
  "i < length mx \<Longrightarrow> i < length al \<Longrightarrow> need_matrix mx al ! i = vec_sub (mx ! i) (al ! i)"
  by (simp add: need_matrix_def)

lemma calc_need_nums:
  assumes "dims_ok av mx al"
    and ex: "\<forall>i<length mx. \<forall>j<length av. exact_int (mx ! i ! j - al ! i ! j)"
  shows "calc_need (numss mx) (numss al) = Inr (numss (need_matrix mx al))"
  unfolding calc_need_def
proof (rule map_rows_Inr)
  show "length (numss (need_matrix mx al)) = length (numss mx)"
    using dims_okD(1) [OF assms(1)] by simp
  fix k assume k: "k < length (numss mx)"
  then have k': "k < length mx" "k < length al" using dims_okD(1) [OF assms(1)] by simp_all
  have len: "length (al ! k) = length (mx ! k)"
    using dims_okD(2,3) [OF assms(1)] k' by simp
  show "need_of (numss al) (0 + k) (numss mx ! k) = Inr (numss (need_matrix mx al) ! k)"
  proof (cases "mx ! k = []")
    case True
    then show ?thesis using k' by (simp add: need_of_def nth_need_matrix nums_def vec_sub_def)
  next
    case False
    then have "nums (mx ! k) \<noteq> []" by (simp add: nums_def)
    moreover have "\<forall>j<length (mx ! k). exact_int (mx ! k ! j - al ! k ! j)"
      using ex k' dims_okD(2) [OF assms(1)] by simp
    ultimately show ?thesis
      using k' len by (simp add: need_of_def row_at_numss need_row_nums nth_need_matrix)
  qed
qed

lemma unfinished_of_filter: "unfinished_of fl = filter (\<lambda>i. \<not> fl ! i) [0..<length fl]"
proof -
  have "map the (filter (\<lambda>p. p \<noteq> None) (map (\<lambda>i. if \<not> fl ! i then Some i else None) xs)) =
        filter (\<lambda>i. \<not> fl ! i) xs" for xs
    by (induction xs) simp_all
  then show ?thesis by (simp add: unfinished_of_def)
qed

lemma mark_Nil [simp]: "mark [] flags = flags"
  by (simp add: mark_def map_nth)

lemma length_mark [simp]: "length (mark fin flags) = length flags"
  by (simp add: mark_def)

lemma nth_mark: "i < length flags \<Longrightarrow> mark fin flags ! i = (flags ! i \<or> i \<in> set fin)"
  by (simp add: mark_def)

lemma mark_Cons: "i < length flags \<Longrightarrow> mark fin (flags[i := True]) = mark (i # fin) flags"
  by (intro nth_equalityI) (auto simp: nth_mark nth_list_update)

lemma spec_pass_split:
  assumes "spec_pass need al ids work = (work', fin, left)"
  shows "length fin + length left = length ids \<and> set fin \<subseteq> set ids \<and>
         (distinct ids \<longrightarrow> left = filter (\<lambda>i. i \<notin> set fin) ids)"
  using assms
proof (induction ids arbitrary: work work' fin left)
  case Nil
  then show ?case by simp
next
  case (Cons i ids)
  show ?case
  proof (cases "vec_le (need ! i) work")
    case True
    then obtain fin' where sp: "spec_pass need al ids (vec_add work (al ! i)) = (work', fin', left)"
      and fin: "fin = i # fin'"
      using Cons.prems by (auto split: prod.splits)
    from Cons.IH [OF sp] fin show ?thesis
      by (auto intro!: filter_cong)
  next
    case False
    then obtain left' where sp: "spec_pass need al ids work = (work', fin, left')"
      and left: "left = i # left'"
      using Cons.prems by (auto split: prod.splits)
    from Cons.IH [OF sp] left show ?thesis by auto
  qed
qed

subsection \<open>Staying within the exact range\<close>

lemma load_nonneg: "0 \<le> load al ids j"
  unfolding load_def by (intro sum_list_nonneg) auto

lemma asked_nonneg: "0 \<le> asked reqs j"
  unfolding asked_def by (intro sum_list_nonneg) auto

lemma load_Cons [simp]: "load al (i # ids) j = \<bar>al ! i ! j\<bar> + load al ids j"
  by (simp add: load_def)

lemma load_Nil [simp]: "load al [] j = 0"
  by (simp add: load_def)

lemma asked_Cons [simp]: "asked (r # reqs) j = \<bar>r ! j\<bar> + asked reqs j"
  by (simp add: asked_def)

lemma asked_Nil [simp]: "asked [] j = 0"
  by (simp add: asked_def)

lemma load_filter_le: "load al (filter P ids) j \<le> load al ids j"
  by (induction ids) (simp_all add: add_increasing)

lemma load_all: "load al [0..<length al] j = sum_list (map (\<lambda>row. \<bar>row ! j\<bar>) al)"
  unfolding load_def by (rule sum_list_index [symmetric])

lemma sum_list_update_int:
  fixes xs :: "int list"
  shows "k < length xs \<Longrightarrow> sum_list (xs[k := x]) = sum_list xs + x - xs ! k"
proof (induction xs arbitrary: k)
  case Nil
  then show ?case by simp
next
  case (Cons y ys)
  then show ?case by (cases k) simp_all
qed

lemma load_update:
  assumes "pid < length al"
  shows "load (al[pid := v]) [0..<length al] j =
         load al [0..<length al] j + \<bar>v ! j\<bar> - \<bar>al ! pid ! j\<bar>"
proof -
  have "load (al[pid := v]) [0..<length (al[pid := v])] j =
        sum_list ((map (\<lambda>row. \<bar>row ! j\<bar>) al)[pid := \<bar>v ! j\<bar>])"
    by (simp only: load_all map_update)
  also have "\<dots> = sum_list (map (\<lambda>row. \<bar>row ! j\<bar>) al) + \<bar>v ! j\<bar> - map (\<lambda>row. \<bar>row ! j\<bar>) al ! pid"
    using assms by (intro sum_list_update_int) simp
  finally show ?thesis using assms by (simp add: load_all)
qed

lemma totals_in_rangeD:
  assumes "totals_in_range av al reqs" "j < length av"
  shows "\<bar>av ! j\<bar> + load al [0..<length al] j + 2 * asked reqs j \<le> 2 ^ 53"
  using assms by (simp add: totals_in_range_def list_all_length)

lemma within_rangeD:
  assumes "within_range av mx al reqs" "j < length av"
  shows "\<bar>av ! j\<bar> + load al [0..<length al] j + 2 * asked reqs j \<le> 2 ^ 53"
    and "i < length mx \<Longrightarrow> \<bar>mx ! i ! j - al ! i ! j\<bar> + asked reqs j \<le> 2 ^ 53"
  using assms
  by (simp_all add: within_range_def totals_in_range_def needs_in_range_def list_all_length)

lemma within_rangeI:
  assumes "\<And>j. j < length av \<Longrightarrow> \<bar>av ! j\<bar> + load al [0..<length al] j + 2 * asked reqs j \<le> 2 ^ 53"
    and "\<And>i j. i < length mx \<Longrightarrow> j < length av \<Longrightarrow>
           \<bar>mx ! i ! j - al ! i ! j\<bar> + asked reqs j \<le> 2 ^ 53"
  shows "within_range av mx al reqs"
  using assms
  by (simp add: within_range_def totals_in_range_def needs_in_range_def list_all_length)

lemma within_range_totals: "within_range av mx al reqs \<Longrightarrow> totals_in_range av al reqs"
  by (simp add: within_range_def)

lemma load_member:
  assumes "i < length al"
  shows "\<bar>al ! i ! j\<bar> \<le> load al [0..<length al] j"
proof -
  have "\<bar>xs ! i\<bar> \<le> sum_list (map abs xs)" if "i < length xs" for xs :: "int list"
    using that
  proof (induction xs arbitrary: i)
    case Nil
    then show ?case by simp
  next
    case (Cons x xs)
    have nn: "0 \<le> sum_list (map abs xs)" by (intro sum_list_nonneg) auto
    show ?case
    proof (cases i)
      case 0
      then show ?thesis using nn by simp
    next
      case (Suc k)
      then have "\<bar>xs ! k\<bar> \<le> sum_list (map abs xs)" using Cons by simp
      then show ?thesis using Suc by simp
    qed
  qed
  from this [of "map (\<lambda>row. row ! j) al"] assms
  show ?thesis by (simp add: load_all comp_def)
qed

lemma within_range_tail:
  assumes "within_range av mx al (r # reqs)"
  shows "within_range av mx al reqs"
proof (rule within_rangeI)
  fix j assume j: "j < length av"
  show "\<bar>av ! j\<bar> + load al [0..<length al] j + 2 * asked reqs j \<le> 2 ^ 53"
    using within_rangeD(1) [OF assms j] by simp
  fix i assume i: "i < length mx"
  show "\<bar>mx ! i ! j - al ! i ! j\<bar> + asked reqs j \<le> 2 ^ 53"
    using within_rangeD(2) [OF assms j i] abs_ge_zero [of "r ! j"] by simp
qed

lemma within_range_Nil:
  assumes "within_range av mx al reqs"
  shows "within_range av mx al []"
  using assms by (induction reqs) (auto dest: within_range_tail)

lemma within_range_need:
  assumes "within_range av mx al reqs" "i < length mx" "j < length av"
  shows "exact_int (mx ! i ! j - al ! i ! j)"
proof -
  have "0 \<le> asked reqs j" by (rule asked_nonneg)
  then show ?thesis
    using within_rangeD(2) [OF assms(1,3,2)] unfolding exact_int_def by linarith
qed

lemma range_arith:
  fixes a :: int
  shows "a + l + 2 * (r + s) \<le> B \<Longrightarrow> d \<le> a + r \<Longrightarrow> 0 \<le> l \<Longrightarrow> 0 \<le> s \<Longrightarrow> 0 \<le> r \<Longrightarrow> d \<le> B"
    and "a + l + 2 * (r + s) \<le> B \<Longrightarrow> d \<le> p + r \<Longrightarrow> p \<le> l \<Longrightarrow> 0 \<le> a \<Longrightarrow> 0 \<le> s \<Longrightarrow> 0 \<le> r \<Longrightarrow>
         d \<le> B"
  by auto

text \<open>The state after a granted request is within the range of the requests that remain.\<close>

lemma within_range_commit:
  assumes dims: "dims_ok av mx al" and pid: "pid < length mx" and req: "length req = length av"
    and rg: "within_range av mx al (req # reqs)"
  shows "within_range (vec_sub av req) mx (al[pid := vec_add (al ! pid) req]) reqs"
    and "\<forall>j<length av. exact_int (av ! j - req ! j)"
    and "\<forall>j<length av. exact_int (al ! pid ! j + req ! j)"
proof -
  note len = dims_okD [OF dims]
  have pid': "pid < length al" using pid len(1) by simp
  have row: "length (al ! pid) = length av" using len(3) [OF pid] .
  let ?al = "al[pid := vec_add (al ! pid) req]"
  show "within_range (vec_sub av req) mx ?al reqs"
  proof (rule within_rangeI)
    fix j assume "j < length (vec_sub av req)"
    then have j: "j < length av" using req by simp
    have l: "load ?al [0..<length al] j =
        load al [0..<length al] j + \<bar>al ! pid ! j + req ! j\<bar> - \<bar>al ! pid ! j\<bar>"
      using load_update [OF pid', of "vec_add (al ! pid) req" j] j row req by simp
    have "\<bar>vec_sub av req ! j\<bar> + load ?al [0..<length ?al] j + 2 * asked reqs j \<le>
          \<bar>av ! j\<bar> + load al [0..<length al] j + 2 * asked (req # reqs) j"
      using j req l by simp
    then show "\<bar>vec_sub av req ! j\<bar> + load ?al [0..<length ?al] j + 2 * asked reqs j \<le> 2 ^ 53"
      using within_rangeD(1) [OF rg j] by linarith
    fix i assume i: "i < length mx"
    have "\<bar>mx ! i ! j - ?al ! i ! j\<bar> \<le> \<bar>mx ! i ! j - al ! i ! j\<bar> + \<bar>req ! j\<bar>"
      using i pid' j row req len(1) by (cases "i = pid") simp_all
    then show "\<bar>mx ! i ! j - ?al ! i ! j\<bar> + asked reqs j \<le> 2 ^ 53"
      using within_rangeD(2) [OF rg j i] by simp
  qed
  show "\<forall>j<length av. exact_int (av ! j - req ! j)"
  proof (intro allI impI)
    fix j assume j: "j < length av"
    show "exact_int (av ! j - req ! j)"
      unfolding exact_int_def
      by (rule range_arith(1) [OF within_rangeD(1) [OF rg j, unfolded asked_Cons]
            abs_triangle_ineq4 load_nonneg asked_nonneg abs_ge_zero])
  qed
  show "\<forall>j<length av. exact_int (al ! pid ! j + req ! j)"
  proof (intro allI impI)
    fix j assume j: "j < length av"
    show "exact_int (al ! pid ! j + req ! j)"
      unfolding exact_int_def
      by (rule range_arith(2) [OF within_rangeD(1) [OF rg j, unfolded asked_Cons]
            abs_triangle_ineq load_member [OF pid'] abs_ge_zero asked_nonneg abs_ge_zero])
  qed
qed

text \<open>A pass never raises the working vector plus what the unfinished processes hold.\<close>

lemma spec_pass_budget:
  assumes "spec_pass need al ids work = (work', fin, left)"
    and "length work = m" "\<forall>i\<in>set ids. length (al ! i) = m" "j < m"
  shows "length work' = m \<and> \<bar>work' ! j\<bar> + load al left j \<le> \<bar>work ! j\<bar> + load al ids j"
  using assms(1,2,3)
proof (induction ids arbitrary: work work' fin left)
  case Nil
  then show ?case by simp
next
  case (Cons i ids)
  have row: "length (al ! i) = m" using Cons.prems(3) by simp
  show ?case
  proof (cases "vec_le (need ! i) work")
    case True
    then obtain fin' where sp: "spec_pass need al ids (vec_add work (al ! i)) = (work', fin', left)"
      using Cons.prems(1) by (auto split: prod.splits)
    have "length (vec_add work (al ! i)) = m" using Cons.prems(2) row by simp
    from Cons.IH [OF sp this] Cons.prems(3)
    have "length work' = m \<and>
          \<bar>work' ! j\<bar> + load al left j \<le> \<bar>vec_add work (al ! i) ! j\<bar> + load al ids j"
      by simp
    then show ?thesis
      using assms(4) Cons.prems(2) row abs_triangle_ineq [of "work ! j" "al ! i ! j"] by simp
  next
    case False
    then obtain left' where sp: "spec_pass need al ids work = (work', fin, left')"
      and left: "left = i # left'"
      using Cons.prems(1) by (auto split: prod.splits)
    from Cons.IH [OF sp Cons.prems(2)] Cons.prems(3) left show ?thesis by simp
  qed
qed

lemma scan_refines:
  assumes dims: "dims_ok av mx al" and n: "n = length mx" and m: "m = length av"
    and ids: "distinct ids" "\<forall>i\<in>set ids. i < n"
    and st: "availableResources st = nums work" "length work = m" "length (finished st) = n"
    and sp: "spec_pass (need_matrix mx al) al (filter (\<lambda>i. \<not> finished st ! i) ids) work =
               (work', fin, left)"
    and bud: "\<forall>j<m. \<bar>work ! j\<bar> + load al (filter (\<lambda>i. \<not> finished st ! i) ids) j \<le> 2 ^ 53"
  shows "\<exists>st'. scan (numss (need_matrix mx al)) (numss al) m ids st = Inr st' \<and>
           availableResources st' = nums work' \<and> length work' = m \<and>
           finished st' = mark fin (finished st) \<and>
           safeSequence_w st' = safeSequence_w st @ fin \<and>
           count st' = count st + length fin \<and>
           found st' = (found st \<or> fin \<noteq> [])"
  using ids st sp bud
proof (induction ids arbitrary: st work fin left)
  case Nil
  then show ?case by simp
next
  case (Cons i ids)
  note len = dims_okD [OF dims]
  have i: "i < length mx" "i < length al" using Cons.prems(2) n len(1) by simp_all
  have rows: "length (need_matrix mx al ! i) = m" "length (al ! i) = m"
    using i len(2,3) [of i] m by (simp_all add: nth_need_matrix)
  have dist: "distinct ids" "\<forall>k\<in>set ids. k < n" "i \<notin> set ids"
    using Cons.prems(1,2) by simp_all
  show ?case
  proof (cases "finished st ! i")
    case True
    then have v: "visit (numss (need_matrix mx al)) (numss al) m i st = Inr st"
      by (simp add: visit_def)
    have "spec_pass (need_matrix mx al) al (filter (\<lambda>i. \<not> finished st ! i) ids) work =
            (work', fin, left)"
      using Cons.prems(6) True by simp
    moreover have "\<forall>j<m. \<bar>work ! j\<bar> + load al (filter (\<lambda>i. \<not> finished st ! i) ids) j \<le> 2 ^ 53"
      using Cons.prems(7) True by simp
    ultimately show ?thesis using Cons.IH [OF dist(1,2) Cons.prems(3,4,5)] v by simp
  next
    case unfinished: False
    have bud': "\<bar>work ! j\<bar> + \<bar>al ! i ! j\<bar> + load al (filter (\<lambda>i. \<not> finished st ! i) ids) j \<le> 2 ^ 53"
      if "j < m" for j
      using Cons.prems(7) unfinished that by (simp add: add.assoc)
    have can: "canAllocate m (numss (need_matrix mx al) ! i) (availableResources st) =
        vec_le (need_matrix mx al ! i) work"
      using i rows Cons.prems(3,4) by (simp add: canAllocate_nums)
    show ?thesis
    proof (cases "vec_le (need_matrix mx al ! i) work")
      case True
      then obtain fin' where
        sp': "spec_pass (need_matrix mx al) al (filter (\<lambda>i. \<not> finished st ! i) ids)
                 (vec_add work (al ! i)) = (work', fin', left)"
        and fin: "fin = i # fin'"
        using Cons.prems(6) unfinished by (auto split: prod.splits)
      define st1 where "st1 = st\<lparr>availableResources := nums (vec_add work (al ! i)),
                     finished := (finished st)[i := True],
                     safeSequence_w := safeSequence_w st @ [i],
                     count := count st + 1,
                     found := True\<rparr>"
      have ex: "\<forall>j<m. exact_int (work ! j + al ! i ! j)"
      proof (intro allI impI)
        fix j assume "j < m"
        from bud' [OF this] load_nonneg [of al "filter (\<lambda>i. \<not> finished st ! i) ids" j]
          abs_triangle_ineq [of "work ! j" "al ! i ! j"]
        show "exact_int (work ! j + al ! i ! j)" unfolding exact_int_def by linarith
      qed
      have v: "visit (numss (need_matrix mx al)) (numss al) m i st = Inr st1"
        using unfinished can True i rows Cons.prems(3,4) ex
        by (simp add: visit_def row_at_numss give_back_nums st1_def)
      have same: "filter (\<lambda>k. \<not> finished st1 ! k) ids = filter (\<lambda>k. \<not> finished st ! k) ids"
      proof (intro filter_cong refl)
        fix k assume "k \<in> set ids"
        then have "i \<noteq> k" using dist(3) by auto
        then show "(\<not> finished st1 ! k) = (\<not> finished st ! k)" by (simp add: st1_def)
      qed
      have "\<exists>st'. scan (numss (need_matrix mx al)) (numss al) m ids st1 = Inr st' \<and>
           availableResources st' = nums work' \<and> length work' = m \<and>
           finished st' = mark fin' (finished st1) \<and>
           safeSequence_w st' = safeSequence_w st1 @ fin' \<and>
           count st' = count st1 + length fin' \<and>
           found st' = (found st1 \<or> fin' \<noteq> [])"
      proof (rule Cons.IH [OF dist(1,2)])
        show "availableResources st1 = nums (vec_add work (al ! i))" by (simp add: st1_def)
        show "length (vec_add work (al ! i)) = m" using rows Cons.prems(4) by simp
        show "length (finished st1) = n" using Cons.prems(5) by (simp add: st1_def)
        show "spec_pass (need_matrix mx al) al (filter (\<lambda>i. \<not> finished st1 ! i) ids)
                 (vec_add work (al ! i)) = (work', fin', left)"
          using sp' same by simp
        show "\<forall>j<m. \<bar>vec_add work (al ! i) ! j\<bar> +
                 load al (filter (\<lambda>i. \<not> finished st1 ! i) ids) j \<le> 2 ^ 53"
        proof (intro allI impI)
          fix j assume j: "j < m"
          from bud' [OF j] abs_triangle_ineq [of "work ! j" "al ! i ! j"]
          show "\<bar>vec_add work (al ! i) ! j\<bar> +
                 load al (filter (\<lambda>i. \<not> finished st1 ! i) ids) j \<le> 2 ^ 53"
            using j rows Cons.prems(4) by (simp add: same)
        qed
      qed
      then obtain st' where st': "scan (numss (need_matrix mx al)) (numss al) m ids st1 = Inr st'"
           "availableResources st' = nums work'" "length work' = m"
           "finished st' = mark fin' (finished st1)"
           "safeSequence_w st' = safeSequence_w st1 @ fin'"
           "count st' = count st1 + length fin'"
           "found st' = (found st1 \<or> fin' \<noteq> [])"
        by blast
      have "mark fin' (finished st1) = mark fin (finished st)"
        using i n Cons.prems(5) fin by (simp add: st1_def mark_Cons)
      then show ?thesis
        using v st' fin by (simp add: st1_def)
    next
      case False
      then obtain left' where
        sp': "spec_pass (need_matrix mx al) al (filter (\<lambda>i. \<not> finished st ! i) ids) work =
                (work', fin, left')"
        using Cons.prems(6) unfinished by (auto split: prod.splits)
      have v: "visit (numss (need_matrix mx al)) (numss al) m i st = Inr st"
        using unfinished can False by (simp add: visit_def)
      have "\<forall>j<m. \<bar>work ! j\<bar> + load al (filter (\<lambda>i. \<not> finished st ! i) ids) j \<le> 2 ^ 53"
      proof (intro allI impI)
        fix j assume "j < m"
        from bud' [OF this] show "\<bar>work ! j\<bar> + load al (filter (\<lambda>i. \<not> finished st ! i) ids) j \<le> 2 ^ 53"
          by simp
      qed
      from Cons.IH [OF dist(1,2) Cons.prems(3,4,5) sp' this] v show ?thesis by simp
    qed
  qed
qed

lemma safety_loop_refines_aux:
  assumes dims: "dims_ok av mx al" and n: "n = length mx" and m: "m = length av"
  shows "need = need_matrix mx al \<Longrightarrow> al' = al \<Longrightarrow>
    availableResources st = nums work \<Longrightarrow> length work = m \<Longrightarrow> length (finished st) = n \<Longrightarrow>
    unfinished = filter (\<lambda>i. \<not> finished st ! i) [0..<n] \<Longrightarrow>
    safeSequence_w st = sq \<Longrightarrow> count st + length unfinished = n \<Longrightarrow>
    (\<forall>j<m. \<bar>work ! j\<bar> + load al' unfinished j \<le> 2 ^ 53) \<Longrightarrow>
    safety_loop (numss need) (numss al') m n st = Inr (spec_passes need al' unfinished work sq)"
proof (induction need al' unfinished work sq arbitrary: st rule: spec_passes.induct)
  case (1 need al' unfinished work sq)
  note need = "1.prems"(1) and al' = "1.prems"(2) and avail = "1.prems"(3)
    and lw = "1.prems"(4) and lf = "1.prems"(5) and unf = "1.prems"(6)
    and sq = "1.prems"(7) and cnt = "1.prems"(8) and bud = "1.prems"(9)
  show ?case
  proof (cases "unfinished = []")
    case True
    then have "\<not> count st < n" using cnt by simp
    then show ?thesis
      using True sq
      by (subst safety_loop.simps, subst spec_passes.simps) simp
  next
    case False
    then have lt: "count st < n" using cnt by (cases unfinished) simp_all
    obtain work' fin left where sp: "spec_pass need al' unfinished work = (work', fin, left)"
      by (cases "spec_pass need al' unfinished work") auto
    let ?st0 = "st\<lparr>found := False\<rparr>"
    have "\<exists>st'. scan (numss (need_matrix mx al)) (numss al) m [0..<n] ?st0 = Inr st' \<and>
           availableResources st' = nums work' \<and> length work' = m \<and>
           finished st' = mark fin (finished ?st0) \<and>
           safeSequence_w st' = safeSequence_w ?st0 @ fin \<and>
           count st' = count ?st0 + length fin \<and>
           found st' = (found ?st0 \<or> fin \<noteq> [])"
    proof (rule scan_refines [OF dims n m])
      show "distinct [0..<n]" "\<forall>i\<in>set [0..<n]. i < n" by simp_all
      show "availableResources ?st0 = nums work" "length work = m" "length (finished ?st0) = n"
        using avail lw lf by simp_all
      show "spec_pass (need_matrix mx al) al (filter (\<lambda>i. \<not> finished ?st0 ! i) [0..<n]) work =
              (work', fin, left)"
        using sp need al' unf by simp
      show "\<forall>j<m. \<bar>work ! j\<bar> + load al (filter (\<lambda>i. \<not> finished ?st0 ! i) [0..<n]) j \<le> 2 ^ 53"
        using bud al' unf by simp
    qed
    then obtain st' where st': "scan (numss need) (numss al') m [0..<n] ?st0 = Inr st'"
        "availableResources st' = nums work'" "length work' = m"
        "finished st' = mark fin (finished st)"
        "safeSequence_w st' = sq @ fin"
        "count st' = count st + length fin"
        "found st' = (fin \<noteq> [])"
      using need al' sq by auto
    note split = spec_pass_split [OF sp]
    show ?thesis
    proof (cases "fin = []")
      case True
      have "unfinished_of (finished st') = unfinished"
        using st'(4) True lf unf by (simp add: unfinished_of_filter)
      then show ?thesis
        using lt st'(1,7) True sp False
        by (subst safety_loop.simps, subst spec_passes.simps) simp
    next
      case fin: False
      have left: "left = filter (\<lambda>i. \<not> finished st' ! i) [0..<n]"
      proof -
        have "left = filter (\<lambda>i. i \<notin> set fin) unfinished"
          using split unf by simp
        also have "\<dots> = filter (\<lambda>i. \<not> finished st ! i \<and> i \<notin> set fin) [0..<n]"
          using unf by (simp add: conj_commute)
        also have "\<dots> = filter (\<lambda>i. \<not> finished st' ! i) [0..<n]"
          using lf by (intro filter_cong) (auto simp: st'(4) nth_mark)
        finally show ?thesis .
      qed
      have cnt': "count st' + length left = n"
        using split st'(6) cnt by simp
      have len: "length (finished st') = n" using st'(4) lf by simp
      have rows: "\<forall>i\<in>set unfinished. length (al' ! i) = m"
        using unf al' n m dims_okD(3) [OF dims] by simp
      have bud': "\<forall>j<m. \<bar>work' ! j\<bar> + load al' left j \<le> 2 ^ 53"
      proof (intro allI impI)
        fix j assume j: "j < m"
        from spec_pass_budget [OF sp lw rows j] bud j
        show "\<bar>work' ! j\<bar> + load al' left j \<le> 2 ^ 53" by fastforce
      qed
      have "safety_loop (numss need) (numss al') m n st' =
            Inr (spec_passes need al' left work' (sq @ fin))"
        using "1.IH" [OF False sp [symmetric] refl fin need al' st'(2,3) len left st'(5) cnt' bud'] .
      then show ?thesis
        using lt st'(1,7) fin sp False
        by (subst safety_loop.simps, subst spec_passes.simps) simp
    qed
  qed
qed

lemma isSafeState_spec:
  assumes "dims_ok av mx al" and rg: "within_range av mx al []"
  shows "isSafeState (nums av) (numss mx) (numss al) = Inr (spec_isSafeState av mx al)"
proof -
  have bud: "\<forall>j<length av. \<bar>av ! j\<bar> + load al [0..<length mx] j \<le> 2 ^ 53"
  proof (intro allI impI)
    fix j assume "j < length av"
    from within_rangeD(1) [OF rg this] dims_okD(1) [OF assms(1)]
    show "\<bar>av ! j\<bar> + load al [0..<length mx] j \<le> 2 ^ 53" by simp
  qed
  have ex: "\<forall>i<length mx. \<forall>j<length av. exact_int (mx ! i ! j - al ! i ! j)"
    using within_range_need [OF rg] by simp
  have "safety_loop (numss (need_matrix mx al)) (numss al) (length av) (length mx)
          (safety_init (nums av) (length mx)) =
        Inr (spec_passes (need_matrix mx al) al [0..<length mx] av [])"
    by (rule safety_loop_refines_aux [OF assms(1) refl refl refl refl])
      (use bud in \<open>simp_all add: safety_init_def\<close>)
  then show ?thesis
    by (simp add: isSafeState_def calc_need_nums [OF assms(1) ex] spec_isSafeState_def)
qed

lemma first_above_nums:
  assumes "length req = m" "length lim = m"
  shows "first_above m (nums req) (nums lim) = find (\<lambda>j. req ! j > lim ! j) [0..<m]"
  unfolding first_above_def
  using assms by (intro find_cong) (simp_all add: num_at_nums)

lemma numss_update: "(numss al)[pid := nums v] = numss (al[pid := v])"
  by (simp add: numss_def map_update)

lemma dims_ok_commit:
  assumes "dims_ok av mx al" "pid < length mx" "length req = length av"
  shows "dims_ok (vec_sub av req) mx (al[pid := vec_add (al ! pid) req])"
proof -
  note len = dims_okD [OF assms(1)]
  have "length ((al[pid := vec_add (al ! pid) req]) ! i) = length av" if "i < length mx" for i
    using len(3) [OF that] len(3) [OF assms(2)] len(1) that assms(3)
    by (cases "i = pid") simp_all
  then show ?thesis
    using assms len(1)
    by (simp add: dims_ok_def list_all_length)
qed

lemma resourceRequest_spec:
  assumes dims: "dims_ok av mx al" and pid: "pid < length mx" and req: "length req = length av"
    and rg0: "within_range av mx al []"
    and rgt: "(\<forall>k<length av. req ! k \<le> mx ! pid ! k - al ! pid ! k) \<and> (\<forall>k<length av. req ! k \<le> av ! k)
                \<longrightarrow> within_range (vec_sub av req) mx (al[pid := vec_add (al ! pid) req]) []"
  shows "resourceRequest (nums av) (numss mx) (numss al) pid (nums req) =
         Inr (spec_resourceRequest av mx al pid req)"
proof -
  note len = dims_okD [OF dims]
  have ex: "\<forall>i<length mx. \<forall>j<length av. exact_int (mx ! i ! j - al ! i ! j)"
    using within_range_need [OF rg0] by simp
  have pid': "pid < length al" using pid len(1) by simp
  have rows: "length (mx ! pid) = length av" "length (al ! pid) = length av"
    using len(2,3) [OF pid] by simp_all
  have need_p: "row_at (numss (need_matrix mx al)) pid = Some (nums (vec_sub (mx ! pid) (al ! pid)))"
    using pid pid' by (simp add: row_at_numss nth_need_matrix)
  have al_p: "row_at (numss al) pid = Some (nums (al ! pid))"
    using pid' by (simp add: row_at_numss)
  have claim: "first_above (length av) (nums req) (nums (vec_sub (mx ! pid) (al ! pid))) =
      find (\<lambda>j. req ! j > mx ! pid ! j - al ! pid ! j) [0..<length av]"
    using req rows
    by (subst first_above_nums [where m = "length av"]) (auto intro!: find_cong)
  have avail: "first_above (length av) (nums req) (nums av) =
      find (\<lambda>j. req ! j > av ! j) [0..<length av]"
    using req by (subst first_above_nums [where m = "length av"]) simp_all
  let ?al = "al[pid := vec_add (al ! pid) req]"
  show ?thesis
  proof (cases "length av = 0")
    case True
    then have e: "av = []" "req = []" using req by simp_all
    have al: "al[pid := vec_add (al ! pid) []] = al"
      using rows(2) e list_update_id [of al pid] by (simp add: vec_add_def)
    have s0: "isSafeState (nums []) (numss mx) (numss al) = Inr (spec_isSafeState [] mx al)"
      using isSafeState_spec [OF dims rg0] e by simp
    have c0: "calc_need (numss mx) (numss al) = Inr (numss (need_matrix mx al))"
      by (rule calc_need_nums [OF dims ex])
    show ?thesis
      unfolding e
      by (simp add: resourceRequest_def Let_def c0 s0 spec_resourceRequest_def vec_sub_def al
          granted_with_def denied_unsafe_def)
  next
    case False
    show ?thesis
    proof (cases "find (\<lambda>j. req ! j > mx ! pid ! j - al ! pid ! j) [0..<length av] = None \<and>
                  find (\<lambda>j. req ! j > av ! j) [0..<length av] = None")
      case True
      then have "(\<forall>k<length av. req ! k \<le> mx ! pid ! k - al ! pid ! k) \<and>
                 (\<forall>k<length av. req ! k \<le> av ! k)"
        by (simp add: find_None_iff not_less) (metis not_le)
      with rgt have rt: "within_range (vec_sub av req) mx ?al []" by blast
      have ex_take: "\<forall>j<length av. exact_int (av ! j - req ! j)"
      proof (intro allI impI)
        fix j assume j: "j < length av"
        have "0 \<le> load ?al [0..<length ?al] j" by (rule load_nonneg)
        then show "exact_int (av ! j - req ! j)"
          using within_rangeD(1) [OF rt, of j] j req unfolding exact_int_def by simp
      qed
      have ex_add: "\<forall>j<length av. exact_int (al ! pid ! j + req ! j)"
      proof (intro allI impI)
        fix j assume j: "j < length av"
        have "0 \<le> \<bar>vec_sub av req ! j\<bar>" by simp
        moreover have "\<bar>?al ! pid ! j\<bar> \<le> load ?al [0..<length ?al] j"
          by (rule load_member) (use pid' in simp)
        ultimately have "\<bar>?al ! pid ! j\<bar> \<le> 2 ^ 53"
          using within_rangeD(1) [OF rt, of j] j req by simp
        then show "exact_int (al ! pid ! j + req ! j)"
          using pid' j req rows unfolding exact_int_def by simp
      qed
      have tent: "isSafeState (take_away (length av) (nums req) (nums av)) (numss mx)
                    ((numss al)[pid := add_on (length av) (nums req) (nums (al ! pid))]) =
                  Inr (spec_isSafeState (vec_sub av req) mx ?al)"
        using req rows ex_take ex_add
        by (simp add: take_away_nums add_on_nums numss_update
            isSafeState_spec [OF dims_ok_commit [OF dims pid req] rt])
      from True False show ?thesis
        by (simp add: resourceRequest_def Let_def calc_need_nums [OF dims ex] need_p claim avail
            al_p tent spec_resourceRequest_def granted_with_def denied_unsafe_def
            denied_at_def split: option.splits)
    next
      case other: False
      from other \<open>length av \<noteq> 0\<close> show ?thesis
        by (auto simp add: resourceRequest_def Let_def calc_need_nums [OF dims ex] need_p claim
            avail al_p spec_resourceRequest_def granted_with_def denied_unsafe_def
            denied_at_def split: option.splits)
    qed
  qed
qed

lemma resourceRequest_spec_budget:
  assumes dims: "dims_ok av mx al" and pid: "pid < length mx" and req: "length req = length av"
    and rg: "within_range av mx al [req]"
  shows "resourceRequest (nums av) (numss mx) (numss al) pid (nums req) =
         Inr (spec_resourceRequest av mx al pid req)"
  by (rule resourceRequest_spec [OF dims pid req within_range_Nil [OF rg]])
     (simp add: within_range_commit(1) [OF dims pid req rg])

lemma commit_nums:
  assumes dims: "dims_ok av mx al" and pid: "pid < length mx" and req: "length req = length av"
    and rg: "within_range av mx al (req # reqs)"
  shows "commit pid (nums req) (nums av, numss al) =
         Inr (nums (vec_sub av req), numss (al[pid := vec_add (al ! pid) req]))"
proof -
  note len = dims_okD [OF dims]
  have pid': "pid < length al" using pid len(1) by simp
  have rows: "length (al ! pid) = length av" using len(3) [OF pid] .
  show ?thesis
  proof (cases "length req = 0")
    case True
    then have e: "req = []" "av = []" "al ! pid = []" using req rows by simp_all
    then show ?thesis
      using list_update_id [of al pid]
      by (simp add: commit_def vec_sub_def vec_add_def)
  next
    case False
    then show ?thesis
      using pid' req rows within_range_commit(2,3) [OF dims pid req rg]
      by (simp add: commit_def row_at_numss take_away_nums add_on_nums numss_update)
  qed
qed

lemma request_ok_commit:
  "length req = length av \<Longrightarrow> request_ok (vec_sub av req) mx r = request_ok av mx r"
  by (simp add: request_ok_def)

lemma replay_spec:
  assumes "dims_ok av mx al" and "\<forall>r\<in>set reqs. request_ok av mx r"
    and "within_range av mx al (map snd reqs)"
  shows "replay (numss mx) (map lift_request reqs) (nums av, numss al) =
         Inr (spec_replay mx (av, al) reqs)"
  using assms
proof (induction reqs arbitrary: av al)
  case Nil
  show ?case by simp
next
  case (Cons r reqs)
  obtain pid req where r: "r = (pid, req)" by (cases r)
  have ok: "pid < length mx" "length req = length av"
    using Cons.prems(2) r by (simp_all add: request_ok_def)
  let ?res = "spec_resourceRequest av mx al pid req"
  have rg: "within_range av mx al (req # map snd reqs)" using Cons.prems(3) r by simp
  have rg1: "within_range av mx al [req]"
  proof (rule within_rangeI)
    fix j assume j: "j < length av"
    show "\<bar>av ! j\<bar> + load al [0..<length al] j + 2 * asked [req] j \<le> 2 ^ 53"
      using within_rangeD(1) [OF rg j] asked_nonneg [of "map snd reqs" j] by simp
    fix i assume i: "i < length mx"
    show "\<bar>mx ! i ! j - al ! i ! j\<bar> + asked [req] j \<le> 2 ^ 53"
      using within_rangeD(2) [OF rg j i] asked_nonneg [of "map snd reqs" j] by simp
  qed
  have rr: "resourceRequest (nums av) (numss mx) (numss al) pid (nums req) = Inr ?res"
    by (rule resourceRequest_spec_budget [OF Cons.prems(1) ok rg1])
  show ?case
  proof (cases "granted ?res")
    case True
    have dims': "dims_ok (vec_sub av req) mx (al[pid := vec_add (al ! pid) req])"
      by (rule dims_ok_commit [OF Cons.prems(1) ok])
    have oks: "\<forall>r\<in>set reqs. request_ok (vec_sub av req) mx r"
      using Cons.prems(2) ok(2) by (simp add: request_ok_commit)
    from Cons.IH [OF dims' oks within_range_commit(1) [OF Cons.prems(1) ok rg]]
      rr True commit_nums [OF Cons.prems(1) ok rg]
    show ?thesis by (simp add: r lift_request_def)
  next
    case False
    have oks: "\<forall>r\<in>set reqs. request_ok av mx r" using Cons.prems(2) by simp
    from Cons.IH [OF Cons.prems(1) oks within_range_tail [OF rg]] rr False
    show ?thesis by (simp add: r lift_request_def)
  qed
qed

lemma runBankersAlgorithm_spec:
  assumes "dims_ok av mx al" and "\<forall>r\<in>set reqs. request_ok av mx r"
    and "within_range av mx al (map snd reqs)"
  shows "runBankersAlgorithm (nums av) (numss mx) (numss al) (map lift_request reqs) =
         Inr \<lparr>initialState = spec_isSafeState av mx al,
              requestResults =
                (if safe (spec_isSafeState av mx al) then spec_replay mx (av, al) reqs else [])\<rparr>"
proof (cases reqs)
  case Nil
  then show ?thesis
    by (simp add: runBankersAlgorithm_def isSafeState_spec [OF assms(1) within_range_Nil [OF assms(3)]])
next
  case (Cons r rest)
  then show ?thesis
    using replay_spec [OF assms]
    by (simp add: runBankersAlgorithm_def isSafeState_spec [OF assms(1) within_range_Nil [OF assms(3)]])
qed

subsection \<open>No exception on matching dimensions, whatever the numbers\<close>

lemma calc_need_Inr:
  assumes "length mx \<le> length al"
  shows "calc_need mx al =
         Inr (map (\<lambda>k. if mx ! k = [] then [] else need_row (mx ! k) (al ! k)) [0..<length mx])"
  unfolding calc_need_def
proof (rule map_rows_Inr)
  show "length (map (\<lambda>k. if mx ! k = [] then [] else need_row (mx ! k) (al ! k)) [0..<length mx]) =
        length mx"
    by simp
  fix k assume k: "k < length mx"
  then show "need_of al (0 + k) (mx ! k) =
      Inr (map (\<lambda>k. if mx ! k = [] then [] else need_row (mx ! k) (al ! k)) [0..<length mx] ! k)"
    using assms by (simp add: need_of_def row_at_def)
qed

lemma visit_Inr:
  assumes "i < length al"
  shows "\<exists>st'. visit need al m i st = Inr st'"
  using assms by (simp add: visit_def give_back_def row_at_def)

lemma scan_Inr:
  assumes "\<forall>i\<in>set ids. i < length al"
  shows "\<exists>st'. scan need al m ids st = Inr st'"
  using assms
proof (induction ids arbitrary: st)
  case Nil
  show ?case by simp
next
  case (Cons i ids)
  obtain st1 where v: "visit need al m i st = Inr st1"
    using visit_Inr [of i al need m st] Cons.prems by auto
  from Cons.IH [of st1] Cons.prems v show ?case by simp
qed

lemma safety_loop_Inr:
  "n \<le> length al \<Longrightarrow>
   \<exists>r. safety_loop need al m n st = Inr r \<and>
       (safe r \<longrightarrow> unfinishedProcesses r = []) \<and> (\<not> safe r \<longrightarrow> safeSequence r = [])"
proof (induction need al m n st rule: safety_loop.induct)
  case (1 need al m n st)
  show ?case
  proof (cases "count st < n")
    case False
    then show ?thesis by (subst safety_loop.simps) simp
  next
    case True
    obtain st' where sc: "scan need al m [0..<n] (st\<lparr>found := False\<rparr>) = Inr st'"
      using scan_Inr [of "[0..<n]" al need m "st\<lparr>found := False\<rparr>"] "1.prems" by auto
    show ?thesis
    proof (cases "found st'")
      case False
      then show ?thesis using True sc by (subst safety_loop.simps) simp
    next
      case f: True
      from "1.IH" [OF True sc] f "1.prems"
      show ?thesis using True sc by (subst safety_loop.simps) simp
    qed
  qed
qed

lemma isSafeState_Inr:
  assumes "length al = length mx"
  shows "\<exists>r. isSafeState av mx al = Inr r \<and>
       (safe r \<longrightarrow> unfinishedProcesses r = []) \<and> (\<not> safe r \<longrightarrow> safeSequence r = [])"
proof -
  have "length (json_copy mx) \<le> length (json_copy al)" using assms by (simp add: json_copy_def)
  from calc_need_Inr [OF this] safety_loop_Inr [of "length (json_copy mx)" "json_copy al"] this
  show ?thesis by (simp add: isSafeState_def Let_def)
qed

lemma resourceRequest_Inr:
  assumes "length al = length mx" "pid < length mx"
  shows "\<exists>r. resourceRequest av mx al pid req = Inr r \<and> (granted r \<longleftrightarrow> reason r = None)"
proof -
  have l: "length (json_copy mx) \<le> length (json_copy al)" "pid < length (json_copy al)"
    "pid < length (json_copy mx)"
    using assms by (simp_all add: json_copy_def)
  have s: "\<exists>r. isSafeState av' (json_copy mx) al' = Inr r" if "length al' = length mx" for av' al'
    using isSafeState_Inr [of al' "json_copy mx" av'] that by (auto simp: json_copy_def)
  have s1: "\<exists>r. isSafeState av (json_copy mx) (json_copy al) = Inr r"
    using s [of "json_copy al"] assms by (simp add: json_copy_def)
  have s2: "\<exists>r. isSafeState av' (json_copy mx) ((json_copy al)[pid := row]) = Inr r" for av' row
    using s [of "(json_copy al)[pid := row]"] assms by (simp add: json_copy_def)
  show ?thesis
    using l s1 s2 [of "take_away (length av) req av"
        "add_on (length av) req (json_copy al ! pid)"]
    by (auto simp: resourceRequest_def Let_def calc_need_Inr row_at_def
        split: option.splits sum.splits)
qed

lemma find_upt_first:
  assumes "j < m" "P j" "\<forall>k<j. \<not> P k"
  shows "find P [0..<m] = Some j"
  unfolding find_Some_iff
  using assms by (intro exI [of _ j]) simp

lemma find_upt_none:
  assumes "\<forall>k<m. \<not> P k"
  shows "find P [0..<m] = None"
  using assms by (simp add: find_None_iff)

lemma find_upt_le:
  assumes "j < m" "P j"
  shows "\<exists>k\<le>j. find P [0..<m] = Some k"
proof -
  define k where "k = (LEAST k. P k)"
  have k: "P k" "k \<le> j" "\<forall>i<k. \<not> P i"
    using assms(2) by (auto simp: k_def intro: LeastI Least_le dest: not_less_Least)
  have "find P [0..<m] = Some k"
    using k assms(1) by (intro find_upt_first) simp_all
  then show ?thesis using k(2) by blast
qed

lemma negative_need_denied:
  assumes dims: "dims_ok av mx al" and pid: "pid < length mx" and req: "length req = length av"
    and j: "j < length av" and neg: "mx ! pid ! j < al ! pid ! j" and nn: "0 \<le> req ! j"
  shows "\<exists>k\<le>j. resourceRequest (nums av) (numss mx) (numss al) pid (nums req) =
           Inr (denied_at ''Request exceeds maximum claim'' k)"
proof -
  note len = dims_okD [OF dims]
  have pid': "pid < length al" using pid len(1) by simp
  have rows: "length (mx ! pid) = length av" "length (al ! pid) = length av"
    using len(2,3) [OF pid] by simp_all
  let ?need_p = "need_row (nums (mx ! pid)) (nums (al ! pid))"
  have cn: "calc_need (numss mx) (numss al) =
      Inr (map (\<lambda>k. if numss mx ! k = [] then [] else need_row (numss mx ! k) (numss al ! k))
             [0..<length (numss mx)])"
    by (rule calc_need_Inr) (simp add: len(1))
  have ne: "numss mx ! pid \<noteq> []" using pid rows j by (auto simp: nums_def)
  have "js_gt (num_at (nums req) j) (num_at ?need_p j)"
    using j req rows neg nn
    by (simp add: num_at_nums need_row_def num_at_def js_gt_to_double_neg)
  from find_upt_le [of j "length av" "\<lambda>j. js_gt (num_at (nums req) j) (num_at ?need_p j)", OF j this]
  obtain k where k: "k \<le> j" "first_above (length av) (nums req) ?need_p = Some k"
    by (auto simp: first_above_def)
  have "av \<noteq> []" using j by auto
  then have "resourceRequest (nums av) (numss mx) (numss al) pid (nums req) =
        Inr (denied_at ''Request exceeds maximum claim'' k)"
    using j pid pid' ne k(2)
    by (simp add: resourceRequest_def Let_def cn row_at_def denied_at_def)
  then show ?thesis using k(1) by blast
qed

lemma spec_pass_distinct:
  assumes "spec_pass need al ids work = (work', fin, left)" "distinct ids"
  shows "distinct fin"
  using assms
proof (induction ids arbitrary: work work' fin left)
  case Nil
  then show ?case by simp
next
  case (Cons i ids)
  show ?case
  proof (cases "vec_le (need ! i) work")
    case True
    then obtain fin' where sp: "spec_pass need al ids (vec_add work (al ! i)) = (work', fin', left)"
      and fin: "fin = i # fin'"
      using Cons.prems by (auto split: prod.splits)
    have "set fin' \<subseteq> set ids" using spec_pass_split [OF sp] by simp
    then show ?thesis using Cons.IH [OF sp] Cons.prems(2) fin by auto
  next
    case False
    then obtain left' where sp: "spec_pass need al ids work = (work', fin, left')"
      using Cons.prems by (auto split: prod.splits)
    then show ?thesis using Cons.IH [OF sp] Cons.prems(2) by simp
  qed
qed

lemma spec_passes_result:
  assumes "sorted unfinished" "distinct unfinished" "distinct sq" "set sq \<inter> set unfinished = {}"
    and "r = spec_passes need al unfinished work sq"
  shows "(safe r \<longrightarrow> unfinishedProcesses r = [] \<and>
            set (safeSequence r) = set sq \<union> set unfinished \<and> distinct (safeSequence r)) \<and>
         (\<not> safe r \<longrightarrow> safeSequence r = [] \<and> unfinishedProcesses r \<noteq> [] \<and>
            sorted (unfinishedProcesses r) \<and> distinct (unfinishedProcesses r) \<and>
            set (unfinishedProcesses r) \<subseteq> set unfinished)"
  using assms
proof (induction need al unfinished work sq arbitrary: r rule: spec_passes.induct)
  case (1 need al unfinished work sq)
  show ?case
  proof (cases "unfinished = []")
    case True
    then have "r = \<lparr>safe = True, safeSequence = sq, unfinishedProcesses = []\<rparr>"
      using "1.prems"(5) by (subst (asm) spec_passes.simps) simp
    then show ?thesis using True "1.prems"(3) by simp
  next
    case False
    obtain work' fin left where sp: "spec_pass need al unfinished work = (work', fin, left)"
      by (cases "spec_pass need al unfinished work") auto
    note split = spec_pass_split [OF sp]
    show ?thesis
    proof (cases "fin = []")
      case True
      then have "r = \<lparr>safe = False, safeSequence = [], unfinishedProcesses = unfinished\<rparr>"
        using "1.prems"(5) False sp by (subst (asm) spec_passes.simps) simp
      then show ?thesis using False "1.prems"(1,2) by simp
    next
      case fin: False
      have r: "r = spec_passes need al left work' (sq @ fin)"
        using "1.prems"(5) False sp fin by (subst (asm) spec_passes.simps) simp
      have left: "left = filter (\<lambda>i. i \<notin> set fin) unfinished"
        using split "1.prems"(2) by simp
      have s: "sorted left" "distinct left"
        using "1.prems"(1,2) by (simp_all add: left sorted_wrt_filter)
      have d: "distinct (sq @ fin)"
        using "1.prems"(3,4) spec_pass_distinct [OF sp "1.prems"(2)] split by auto
      have i: "set (sq @ fin) \<inter> set left = {}"
        using "1.prems"(4) by (auto simp: left)
      have u: "set (sq @ fin) \<union> set left = set sq \<union> set unfinished"
        using split by (auto simp: left)
      from "1.IH" [OF False sp [symmetric] refl fin s d i r] u
      show ?thesis by (auto simp: left)
    qed
  qed
qed

lemma spec_isSafeState_result:
  assumes "r = spec_isSafeState av mx al"
  shows "(safe r \<longrightarrow> unfinishedProcesses r = [] \<and>
            set (safeSequence r) = {0..<length mx} \<and> distinct (safeSequence r)) \<and>
         (\<not> safe r \<longrightarrow> safeSequence r = [] \<and> unfinishedProcesses r \<noteq> [] \<and>
            sorted (unfinishedProcesses r) \<and> distinct (unfinishedProcesses r) \<and>
            set (unfinishedProcesses r) \<subseteq> {0..<length mx})"
  using spec_passes_result [of "[0..<length mx]" "[]" r "need_matrix mx al" al av] assms
  by (simp add: spec_isSafeState_def)

text \<open>
  Claim C1, as stated for all non-negative integer entries, fails beyond \<open>2 ^ 53\<close>, where
  the difference \<open>max - allocation\<close> is rounded: with \<open>2 ^ 53\<close> available, a maximum of
  \<open>2 ^ 53 + 2\<close> and an allocation of 1, the need is \<open>2 ^ 53 + 1\<close> and the specified algorithm
  finds the state unsafe, while the code computes the need \<open>2 ^ 53\<close> and finds it safe.
\<close>

theorem isSafeState_rounds_need:
  "dims_ok [2 ^ 53] [[2 ^ 53 + 2]] [[1]] \<and>
   need_matrix [[2 ^ 53 + 2]] [[1]] = [[2 ^ 53 + 1]] \<and>
   spec_isSafeState [2 ^ 53] [[2 ^ 53 + 2]] [[1]] =
     \<lparr>safe = False, safeSequence = [], unfinishedProcesses = [0]\<rparr> \<and>
   isSafeState (nums [2 ^ 53]) (numss [[2 ^ 53 + 2]]) (numss [[1]]) =
     Inr \<lparr>safe = True, safeSequence = [0], unfinishedProcesses = []\<rparr>"
proof -
  have d: "dims_ok [2 ^ 53] [[2 ^ 53 + 2]] [[1]]" by code_simp
  have n: "need_matrix [[2 ^ 53 + 2]] [[1]] = [[2 ^ 53 + 1]]" by code_simp
  have s: "spec_isSafeState [2 ^ 53] [[2 ^ 53 + 2]] [[1]] =
     \<lparr>safe = False, safeSequence = [], unfinishedProcesses = [0]\<rparr>"
    by code_simp
  have c: "isSafeState (nums [2 ^ 53]) (numss [[2 ^ 53 + 2]]) (numss [[1]]) =
     Inr \<lparr>safe = True, safeSequence = [0], unfinishedProcesses = []\<rparr>"
    by code_simp
  show ?thesis by (intro conjI d n s c)
qed

text \<open>
  Claim C1, amended: for matrices of matching dimensions whose entries are within range
  (for every resource type the available amount and all allocations add up, in absolute
  value, to at most \<open>2 ^ 53\<close>, and every need \<open>max - allocation\<close> is at most \<open>2 ^ 53\<close> in
  absolute value),
  \<open>isSafeState\<close> returns, without an exception, exactly the result of the specified safety
  algorithm: the need matrix is \<open>max - allocation\<close>, the passes scan the unfinished ids in
  ascending order and finish an eligible process on the spot. A safe verdict comes with
  an empty list of unfinished processes and a sequence that holds every process id once;
  an unsafe verdict comes with an empty sequence and the unfinished ids in ascending
  order. The entries need not be non-negative.
\<close>

theorem isSafeState_refines_spec:
  assumes "dims_ok av mx al" and "within_range av mx al []"
  shows "isSafeState (nums av) (numss mx) (numss al) = Inr (spec_isSafeState av mx al) \<and>
         (\<forall>i<length mx. \<forall>j<length av. need_matrix mx al ! i ! j = mx ! i ! j - al ! i ! j) \<and>
         (safe (spec_isSafeState av mx al) \<longrightarrow>
            unfinishedProcesses (spec_isSafeState av mx al) = [] \<and>
            set (safeSequence (spec_isSafeState av mx al)) = {0..<length mx} \<and>
            distinct (safeSequence (spec_isSafeState av mx al))) \<and>
         (\<not> safe (spec_isSafeState av mx al) \<longrightarrow>
            safeSequence (spec_isSafeState av mx al) = [] \<and>
            unfinishedProcesses (spec_isSafeState av mx al) \<noteq> [] \<and>
            sorted (unfinishedProcesses (spec_isSafeState av mx al)) \<and>
            distinct (unfinishedProcesses (spec_isSafeState av mx al)) \<and>
            set (unfinishedProcesses (spec_isSafeState av mx al)) \<subseteq> {0..<length mx})"
proof -
  note len = dims_okD [OF assms(1)]
  have need: "\<forall>i<length mx. \<forall>j<length av. need_matrix mx al ! i ! j = mx ! i ! j - al ! i ! j"
    using len by (simp add: nth_need_matrix)
  show ?thesis
    using isSafeState_spec [OF assms] need spec_isSafeState_result [OF refl, of av mx al]
    by blast
qed

theorem isSafeState_refines_spec_witness:
  "dims_ok available_332 max_5x3 allocation_5x3 \<and>
   within_range available_332 max_5x3 allocation_5x3 [] \<and>
   isSafeState (nums available_332) (numss max_5x3) (numss allocation_5x3) =
     Inr \<lparr>safe = True, safeSequence = [1, 3, 4, 0, 2], unfinishedProcesses = []\<rparr> \<and>
   dims_ok [0, 0, 0] [[1, 1, 1]] [[0, 0, 0]] \<and>
   within_range [0, 0, 0] [[1, 1, 1]] [[0, 0, 0]] [] \<and>
   isSafeState (nums [0, 0, 0]) (numss [[1, 1, 1]]) (numss [[0, 0, 0]]) =
     Inr \<lparr>safe = False, safeSequence = [], unfinishedProcesses = [0]\<rparr>"
proof -
  have d1: "dims_ok available_332 max_5x3 allocation_5x3" by code_simp
  have d2: "dims_ok [0, 0, 0] [[1, 1, 1]] [[0, 0, 0]]" by code_simp
  have r1: "within_range available_332 max_5x3 allocation_5x3 []" by code_simp
  have r2: "within_range [0, 0, 0] [[1, 1, 1]] [[0, 0, 0]] []" by code_simp
  have s1: "spec_isSafeState available_332 max_5x3 allocation_5x3 =
      \<lparr>safe = True, safeSequence = [1, 3, 4, 0, 2], unfinishedProcesses = []\<rparr>"
    by code_simp
  have s2: "spec_isSafeState [0, 0, 0] [[1, 1, 1]] [[0, 0, 0]] =
      \<lparr>safe = False, safeSequence = [], unfinishedProcesses = [0]\<rparr>"
    by code_simp
  from isSafeState_refines_spec [OF d1 r1, THEN conjunct1]
    isSafeState_refines_spec [OF d2 r2, THEN conjunct1] d1 d2 r1 r2
  show ?thesis by (simp only: s1 s2 simp_thms)
qed

lemma spec_resourceRequest_claim:
  assumes "j < length av" "mx ! pid ! j - al ! pid ! j < req ! j"
    "\<forall>k<j. req ! k \<le> mx ! pid ! k - al ! pid ! k"
  shows "spec_resourceRequest av mx al pid req = denied_at ''Request exceeds maximum claim'' j"
proof -
  have "find (\<lambda>j. req ! j > mx ! pid ! j - al ! pid ! j) [0..<length av] = Some j"
    using assms by (intro find_upt_first) (simp_all add: not_less)
  then show ?thesis by (simp add: spec_resourceRequest_def)
qed

lemma spec_resourceRequest_avail:
  assumes "\<forall>k<length av. req ! k \<le> mx ! pid ! k - al ! pid ! k"
    "j < length av" "av ! j < req ! j" "\<forall>k<j. req ! k \<le> av ! k"
  shows "spec_resourceRequest av mx al pid req = denied_at ''Resources not available'' j"
proof -
  have "find (\<lambda>j. req ! j > mx ! pid ! j - al ! pid ! j) [0..<length av] = None"
    using assms(1) by (intro find_upt_none) (simp add: not_less)
  moreover have "find (\<lambda>j. req ! j > av ! j) [0..<length av] = Some j"
    using assms(2,3,4) by (intro find_upt_first) (simp_all add: not_less)
  ultimately show ?thesis by (simp add: spec_resourceRequest_def)
qed

lemma spec_resourceRequest_safety:
  assumes "\<forall>k<length av. req ! k \<le> mx ! pid ! k - al ! pid ! k"
    "\<forall>k<length av. req ! k \<le> av ! k"
  shows "spec_resourceRequest av mx al pid req =
     (let r = spec_isSafeState (vec_sub av req) mx (al[pid := vec_add (al ! pid) req])
      in if safe r then granted_with (safeSequence r) else denied_unsafe (unfinishedProcesses r))"
proof -
  have "find (\<lambda>j. req ! j > mx ! pid ! j - al ! pid ! j) [0..<length av] = None"
    using assms(1) by (intro find_upt_none) (simp add: not_less)
  moreover have "find (\<lambda>j. req ! j > av ! j) [0..<length av] = None"
    using assms(2) by (intro find_upt_none) (simp add: not_less)
  ultimately show ?thesis by (simp add: spec_resourceRequest_def)
qed

text \<open>
  Claim C2, as stated for every input, fails beyond \<open>2 ^ 53\<close>, where the need is rounded.
  With a maximum of \<open>2 ^ 53 + 4\<close> and an allocation of 1 the need is \<open>2 ^ 53 + 3\<close>, which the
  request \<open>2 ^ 53 + 4\<close> exceeds; the code computes the need \<open>2 ^ 53 + 4\<close>, lets the request
  pass both checks and grants it.
\<close>

theorem request_above_need_granted:
  "dims_ok [2 ^ 53 + 4] [[2 ^ 53 + 4]] [[1]] \<and>
   [[2 ^ 53 + 4]] ! 0 ! 0 - [[1]] ! 0 ! 0 < [2 ^ 53 + 4 :: int] ! 0 \<and>
   spec_resourceRequest [2 ^ 53 + 4] [[2 ^ 53 + 4]] [[1]] 0 [2 ^ 53 + 4] =
     denied_at ''Request exceeds maximum claim'' 0 \<and>
   resourceRequest (nums [2 ^ 53 + 4]) (numss [[2 ^ 53 + 4]]) (numss [[1]]) 0 (nums [2 ^ 53 + 4]) =
     Inr (granted_with [0])"
proof -
  have d: "dims_ok [2 ^ 53 + 4] [[2 ^ 53 + 4]] [[1]]" by code_simp
  have n: "[[2 ^ 53 + 4]] ! 0 ! 0 - [[1]] ! 0 ! 0 < [2 ^ 53 + 4 :: int] ! 0" by simp
  have s: "spec_resourceRequest [2 ^ 53 + 4] [[2 ^ 53 + 4]] [[1]] 0 [2 ^ 53 + 4] =
     denied_at ''Request exceeds maximum claim'' 0"
    by code_simp
  have c: "resourceRequest (nums [2 ^ 53 + 4]) (numss [[2 ^ 53 + 4]]) (numss [[1]]) 0
             (nums [2 ^ 53 + 4]) = Inr (granted_with [0])"
    by code_simp
  show ?thesis by (intro conjI d n s c)
qed

text \<open>
  Claim C2, amended: for an existing process and a request with one amount per resource
  type, on matrices of matching dimensions whose entries are within range: if some amount
  exceeds the need, the result is the denial \<open>Request exceeds maximum claim\<close> with the
  smallest such index, whatever the available vector and the safety of the outcome are;
  otherwise, if some amount exceeds what is available, it is the denial
  \<open>Resources not available\<close> with the smallest such index; otherwise, when the state with
  the request applied is within range too, it is decided by \<open>isSafeState\<close> on that state,
  which returns, and the result is the grant with its safe sequence or the denial
  \<open>Resulting state would be unsafe\<close> with its unfinished processes.
\<close>

theorem resourceRequest_check_order:
  assumes "dims_ok av mx al" "pid < length mx" "length req = length av"
    and "within_range av mx al []"
  shows
    "(\<forall>j<length av. mx ! pid ! j - al ! pid ! j < req ! j \<and>
         (\<forall>k<j. req ! k \<le> mx ! pid ! k - al ! pid ! k) \<longrightarrow>
       resourceRequest (nums av) (numss mx) (numss al) pid (nums req) =
         Inr (denied_at ''Request exceeds maximum claim'' j)) \<and>
     ((\<forall>k<length av. req ! k \<le> mx ! pid ! k - al ! pid ! k) \<longrightarrow>
       (\<forall>j<length av. av ! j < req ! j \<and> (\<forall>k<j. req ! k \<le> av ! k) \<longrightarrow>
          resourceRequest (nums av) (numss mx) (numss al) pid (nums req) =
            Inr (denied_at ''Resources not available'' j))) \<and>
     ((\<forall>k<length av. req ! k \<le> mx ! pid ! k - al ! pid ! k) \<and>
      (\<forall>k<length av. req ! k \<le> av ! k) \<and>
      within_range (vec_sub av req) mx (al[pid := vec_add (al ! pid) req]) [] \<longrightarrow>
       (\<exists>r. isSafeState (nums (vec_sub av req)) (numss mx)
               (numss (al[pid := vec_add (al ! pid) req])) = Inr r \<and>
            resourceRequest (nums av) (numss mx) (numss al) pid (nums req) =
              Inr (if safe r then granted_with (safeSequence r)
                   else denied_unsafe (unfinishedProcesses r))))"
proof -
  let ?passes = "(\<forall>k<length av. req ! k \<le> mx ! pid ! k - al ! pid ! k) \<and>
                 (\<forall>k<length av. req ! k \<le> av ! k)"
  let ?after = "within_range (vec_sub av req) mx (al[pid := vec_add (al ! pid) req]) []"
  have rr: "resourceRequest (nums av) (numss mx) (numss al) pid (nums req) =
            Inr (spec_resourceRequest av mx al pid req)" if "?passes \<longrightarrow> ?after"
    using that by (rule resourceRequest_spec [OF assms])
  have c1: "resourceRequest (nums av) (numss mx) (numss al) pid (nums req) =
         Inr (denied_at ''Request exceeds maximum claim'' j)"
    if "j < length av" "mx ! pid ! j - al ! pid ! j < req ! j"
      "\<forall>k<j. req ! k \<le> mx ! pid ! k - al ! pid ! k" for j
  proof -
    have "\<not> ?passes" using that(1,2) by force
    then have "?passes \<longrightarrow> ?after" by blast
    from rr [OF this] show ?thesis by (simp only: spec_resourceRequest_claim [OF that])
  qed
  have c2: "resourceRequest (nums av) (numss mx) (numss al) pid (nums req) =
            Inr (denied_at ''Resources not available'' j)"
    if "\<forall>k<length av. req ! k \<le> mx ! pid ! k - al ! pid ! k"
      "j < length av" "av ! j < req ! j" "\<forall>k<j. req ! k \<le> av ! k" for j
  proof -
    have "\<not> ?passes" using that(2,3) by force
    then have "?passes \<longrightarrow> ?after" by blast
    from rr [OF this] show ?thesis by (simp only: spec_resourceRequest_avail [OF that])
  qed
  have c3: "\<exists>r. isSafeState (nums (vec_sub av req)) (numss mx)
               (numss (al[pid := vec_add (al ! pid) req])) = Inr r \<and>
            resourceRequest (nums av) (numss mx) (numss al) pid (nums req) =
              Inr (if safe r then granted_with (safeSequence r)
                   else denied_unsafe (unfinishedProcesses r))"
    if "\<forall>k<length av. req ! k \<le> mx ! pid ! k - al ! pid ! k" "\<forall>k<length av. req ! k \<le> av ! k"
      "?after"
    using rr [OF impI [OF that(3)]] spec_resourceRequest_safety [OF that(1,2)]
      isSafeState_spec [OF dims_ok_commit [OF assms(1,2,3)] that(3)]
    by (simp add: Let_def)
  show ?thesis
    using c1 c2 c3 by blast
qed

text \<open>
  The request \<open>[1, 0, 4]\<close> of process 1 exceeds both its need \<open>[1, 2, 2]\<close> and the
  available \<open>[3, 3, 2]\<close> at index 2: the denial names the claim. Its request \<open>[1, 0, 2]\<close>
  passes both checks and is decided by the safety check, which grants it.
\<close>

theorem resourceRequest_check_order_witness:
  "dims_ok available_332 max_5x3 allocation_5x3 \<and> 1 < length max_5x3 \<and>
   length [1, 0, 4 :: int] = length available_332 \<and>
   within_range available_332 max_5x3 allocation_5x3 [] \<and>
   available_332 ! 2 < [1, 0, 4] ! 2 \<and>
   resourceRequest (nums available_332) (numss max_5x3) (numss allocation_5x3) 1 (nums [1, 0, 4]) =
     Inr (denied_at ''Request exceeds maximum claim'' 2) \<and>
   length [1, 0, 2 :: int] = length available_332 \<and>
   within_range (vec_sub available_332 [1, 0, 2]) max_5x3
     (allocation_5x3[1 := vec_add (allocation_5x3 ! 1) [1, 0, 2]]) [] \<and>
   resourceRequest (nums available_332) (numss max_5x3) (numss allocation_5x3) 1 (nums [1, 0, 2]) =
     Inr (granted_with [1, 3, 4, 0, 2])"
proof -
  have d: "dims_ok available_332 max_5x3 allocation_5x3" by code_simp
  have p: "1 < length max_5x3" by (simp add: max_5x3_def)
  have l: "length [1, 0, 4 :: int] = length available_332" by (simp add: available_332_def)
  have l2: "length [1, 0, 2 :: int] = length available_332" by (simp add: available_332_def)
  have a: "available_332 ! 2 < [1, 0, 4] ! 2" by (simp add: available_332_def)
  have r: "within_range available_332 max_5x3 allocation_5x3 []" by code_simp
  have rt: "within_range (vec_sub available_332 [1, 0, 2]) max_5x3
     (allocation_5x3[1 := vec_add (allocation_5x3 ! 1) [1, 0, 2]]) []"
    by code_simp
  have j: "2 < length available_332" by (simp add: available_332_def)
  have over: "max_5x3 ! 1 ! 2 - allocation_5x3 ! 1 ! 2 < [1, 0, 4] ! 2"
    by (simp add: max_5x3_def allocation_5x3_def)
  have below: "\<forall>k<2. [1, 0, 4] ! k \<le> max_5x3 ! 1 ! k - allocation_5x3 ! 1 ! k"
    by (simp add: max_5x3_def allocation_5x3_def less_Suc_eq numeral_2_eq_2)
  from resourceRequest_check_order [OF d p l r, THEN conjunct1, THEN spec, of 2] j over below
  have first: "resourceRequest (nums available_332) (numss max_5x3) (numss allocation_5x3) 1
          (nums [1, 0, 4]) = Inr (denied_at ''Request exceeds maximum claim'' 2)"
    by blast
  have pass1: "\<forall>k<length available_332. [1, 0, 2] ! k \<le> max_5x3 ! 1 ! k - allocation_5x3 ! 1 ! k"
    by (simp add: available_332_def max_5x3_def allocation_5x3_def less_Suc_eq numeral_3_eq_3)
  have pass2: "\<forall>k<length available_332. [1, 0, 2] ! k \<le> available_332 ! k"
    by (simp add: available_332_def less_Suc_eq numeral_3_eq_3)
  have verdict: "isSafeState (nums (vec_sub available_332 [1, 0, 2])) (numss max_5x3)
      (numss (allocation_5x3[1 := vec_add (allocation_5x3 ! 1) [1, 0, 2]])) =
      Inr \<lparr>safe = True, safeSequence = [1, 3, 4, 0, 2], unfinishedProcesses = []\<rparr>"
    by code_simp
  from resourceRequest_check_order [OF d p l2 r, THEN conjunct2, THEN conjunct2] pass1 pass2 rt
  obtain res where "isSafeState (nums (vec_sub available_332 [1, 0, 2])) (numss max_5x3)
      (numss (allocation_5x3[1 := vec_add (allocation_5x3 ! 1) [1, 0, 2]])) = Inr res"
    and "resourceRequest (nums available_332) (numss max_5x3) (numss allocation_5x3) 1
          (nums [1, 0, 2]) =
         Inr (if safe res then granted_with (safeSequence res)
              else denied_unsafe (unfinishedProcesses res))"
    by blast
  then have second: "resourceRequest (nums available_332) (numss max_5x3) (numss allocation_5x3) 1
          (nums [1, 0, 2]) = Inr (granted_with [1, 3, 4, 0, 2])"
    unfolding verdict by auto
  show ?thesis using d p l a r first l2 rt second by blast
qed

text \<open>
  Claim C8. On matrices of matching dimensions, whatever their entries (an allocation
  above the maximum makes the need negative), \<open>isSafeState\<close> and \<open>resourceRequest\<close>
  return a result and never the exception; and a request that asks for a non-negative
  amount of a resource whose need is negative is denied by the ordinary claim check.
\<close>

theorem negative_need_total:
  assumes "dims_ok av mx al" "pid < length mx" "length req = length av"
  shows
    "(\<exists>r. isSafeState (nums av) (numss mx) (numss al) = Inr r \<and>
          (safe r \<longrightarrow> unfinishedProcesses r = []) \<and> (\<not> safe r \<longrightarrow> safeSequence r = [])) \<and>
     (\<exists>r. resourceRequest (nums av) (numss mx) (numss al) pid (nums req) = Inr r \<and>
          (granted r \<longleftrightarrow> reason r = None)) \<and>
     (\<forall>j<length av. mx ! pid ! j < al ! pid ! j \<and> 0 \<le> req ! j \<longrightarrow>
        (\<exists>k\<le>j. resourceRequest (nums av) (numss mx) (numss al) pid (nums req) =
           Inr (denied_at ''Request exceeds maximum claim'' k)))"
proof -
  note len = dims_okD [OF assms(1)]
  have l: "length (numss al) = length (numss mx)" "pid < length (numss mx)"
    using len(1) assms(2) by simp_all
  have s: "\<exists>r. isSafeState (nums av) (numss mx) (numss al) = Inr r \<and>
          (safe r \<longrightarrow> unfinishedProcesses r = []) \<and> (\<not> safe r \<longrightarrow> safeSequence r = [])"
    by (rule isSafeState_Inr [OF l(1)])
  have r: "\<exists>r. resourceRequest (nums av) (numss mx) (numss al) pid (nums req) = Inr r \<and>
          (granted r \<longleftrightarrow> reason r = None)"
    by (rule resourceRequest_Inr [OF l])
  have n: "\<exists>k\<le>j. resourceRequest (nums av) (numss mx) (numss al) pid (nums req) =
           Inr (denied_at ''Request exceeds maximum claim'' k)"
    if "j < length av" "mx ! pid ! j < al ! pid ! j" "0 \<le> req ! j" for j
    by (rule negative_need_denied [OF assms that])
  show ?thesis using s r n by blast
qed

theorem negative_need_total_witness:
  "dims_ok [1, 1] max_over allocation_over \<and> max_over ! 0 ! 0 < allocation_over ! 0 ! 0 \<and>
   isSafeState (nums [1, 1]) (numss max_over) (numss allocation_over) =
     Inr \<lparr>safe = True, safeSequence = [0, 1], unfinishedProcesses = []\<rparr> \<and>
   resourceRequest (nums [1, 1]) (numss max_over) (numss allocation_over) 0 (nums [0, 0]) =
     Inr (denied_at ''Request exceeds maximum claim'' 0)"
proof -
  have d: "dims_ok [1, 1] max_over allocation_over" by code_simp
  have p: "0 < length max_over" by (simp add: max_over_def)
  have l: "length [0, 0 :: int] = length [1, 1 :: int]" by simp
  have neg: "max_over ! 0 ! 0 < allocation_over ! 0 ! 0"
    by (simp add: max_over_def allocation_over_def)
  note t = negative_need_total [OF d p l]
  have "\<exists>k\<le>0. resourceRequest (nums [1, 1]) (numss max_over) (numss allocation_over) 0
          (nums [0, 0]) = Inr (denied_at ''Request exceeds maximum claim'' k)"
    using t [THEN conjunct2, THEN conjunct2, THEN spec, of 0] neg by simp
  then have r: "resourceRequest (nums [1, 1]) (numss max_over) (numss allocation_over) 0
          (nums [0, 0]) = Inr (denied_at ''Request exceeds maximum claim'' 0)"
    by simp
  have s: "isSafeState (nums [1, 1]) (numss max_over) (numss allocation_over) =
     Inr \<lparr>safe = True, safeSequence = [0, 1], unfinishedProcesses = []\<rparr>"
    by code_simp
  show ?thesis using d neg s r by blast
qed

text \<open>
  Claim C3, as stated for every input, fails beyond \<open>2 ^ 53\<close>: the request of the scenario
  above, replayed on its own, is granted by the code and denied by the specified
  evaluation, so that the two results differ.
\<close>

theorem replay_grants_above_need:
  "dims_ok [2 ^ 53 + 4] [[2 ^ 53 + 4]] [[1]] \<and>
   list_all (request_ok [2 ^ 53 + 4] [[2 ^ 53 + 4]]) [(0, [2 ^ 53 + 4])] \<and>
   spec_replay [[2 ^ 53 + 4]] ([2 ^ 53 + 4], [[1]]) [(0, [2 ^ 53 + 4])] =
     [\<lparr>entry_processId = 0, entry_request = nums [2 ^ 53 + 4],
       outcome = denied_at ''Request exceeds maximum claim'' 0\<rparr>] \<and>
   runBankersAlgorithm (nums [2 ^ 53 + 4]) (numss [[2 ^ 53 + 4]]) (numss [[1]])
       (map lift_request [(0, [2 ^ 53 + 4])]) =
     Inr \<lparr>initialState = \<lparr>safe = True, safeSequence = [0], unfinishedProcesses = []\<rparr>,
          requestResults =
            [\<lparr>entry_processId = 0, entry_request = nums [2 ^ 53 + 4],
              outcome = granted_with [0]\<rparr>]\<rparr>"
proof -
  have d: "dims_ok [2 ^ 53 + 4] [[2 ^ 53 + 4]] [[1]]" by code_simp
  have o: "list_all (request_ok [2 ^ 53 + 4] [[2 ^ 53 + 4]]) [(0, [2 ^ 53 + 4])]" by code_simp
  have s: "spec_replay [[2 ^ 53 + 4]] ([2 ^ 53 + 4], [[1]]) [(0, [2 ^ 53 + 4])] =
     [\<lparr>entry_processId = 0, entry_request = nums [2 ^ 53 + 4],
       outcome = denied_at ''Request exceeds maximum claim'' 0\<rparr>]"
    by code_simp
  have c: "runBankersAlgorithm (nums [2 ^ 53 + 4]) (numss [[2 ^ 53 + 4]]) (numss [[1]])
       (map lift_request [(0, [2 ^ 53 + 4])]) =
     Inr \<lparr>initialState = \<lparr>safe = True, safeSequence = [0], unfinishedProcesses = []\<rparr>,
          requestResults =
            [\<lparr>entry_processId = 0, entry_request = nums [2 ^ 53 + 4],
              outcome = granted_with [0]\<rparr>]\<rparr>"
    by code_simp
  show ?thesis by (intro conjI d o s c)
qed

text \<open>
  Claim C3, amended: on matrices of matching dimensions and requests of the right shape,
  all within range together, \<open>runBankersAlgorithm\<close> returns; \<open>initialState\<close> is the verdict of \<open>isSafeState\<close> on
  the input; \<open>requestResults\<close> is empty when that verdict is unsafe, and otherwise holds
  one entry per request in the given order, each decided as \<open>resourceRequest\<close> decides
  it on the running pair of available vector and allocation matrix: after a grant the
  request is subtracted from the one and added to the process's row of the other, after
  a denial the pair is what it was.
\<close>

theorem runBankersAlgorithm_replays:
  assumes "dims_ok av mx al" and "\<forall>r\<in>set reqs. request_ok av mx r"
    and "within_range av mx al (map snd reqs)"
  shows
    "runBankersAlgorithm (nums av) (numss mx) (numss al) (map lift_request reqs) =
       Inr \<lparr>initialState = spec_isSafeState av mx al,
            requestResults =
              (if safe (spec_isSafeState av mx al) then spec_replay mx (av, al) reqs else [])\<rparr> \<and>
     isSafeState (nums av) (numss mx) (numss al) = Inr (spec_isSafeState av mx al) \<and>
     (\<forall>av' al' r. dims_ok av' mx al' \<and> request_ok av' mx r \<and>
         within_range av' mx al' [snd r] \<longrightarrow>
        resourceRequest (nums av') (numss mx) (numss al') (fst r) (nums (snd r)) =
          Inr (spec_resourceRequest av' mx al' (fst r) (snd r)))"
proof -
  have "resourceRequest (nums av') (numss mx) (numss al') (fst r) (nums (snd r)) =
          Inr (spec_resourceRequest av' mx al' (fst r) (snd r))"
    if "dims_ok av' mx al'" "request_ok av' mx r" "within_range av' mx al' [snd r]" for av' al' r
    using that by (intro resourceRequest_spec_budget) (simp_all add: request_ok_def)
  then show ?thesis
    using runBankersAlgorithm_spec [OF assms]
      isSafeState_spec [OF assms(1) within_range_Nil [OF assms(3)]]
    by blast
qed

text \<open>
  Three requests on the safe scenario. The first is granted and leaves \<open>[2, 3, 0]\<close>
  available, so the second, which the initial \<open>[3, 3, 2]\<close> would cover, is denied for
  resource 0; the denial changes nothing, and the third is denied as unsafe.
\<close>

theorem runBankersAlgorithm_replays_witness:
  "dims_ok available_332 max_5x3 allocation_5x3 \<and>
   list_all (request_ok available_332 max_5x3) requests_3 \<and>
   within_range available_332 max_5x3 allocation_5x3 (map snd requests_3) \<and>
   runBankersAlgorithm (nums available_332) (numss max_5x3) (numss allocation_5x3)
       (map lift_request requests_3) =
     Inr \<lparr>initialState = \<lparr>safe = True, safeSequence = [1, 3, 4, 0, 2], unfinishedProcesses = []\<rparr>,
          requestResults =
            [\<lparr>entry_processId = 1, entry_request = nums [1, 0, 2],
              outcome = granted_with [1, 3, 4, 0, 2]\<rparr>,
             \<lparr>entry_processId = 4, entry_request = nums [3, 3, 0],
              outcome = denied_at ''Resources not available'' 0\<rparr>,
             \<lparr>entry_processId = 0, entry_request = nums [0, 2, 0],
              outcome = denied_unsafe [0, 1, 2, 3, 4]\<rparr>]\<rparr>"
proof -
  have d: "dims_ok available_332 max_5x3 allocation_5x3" by code_simp
  have ok: "list_all (request_ok available_332 max_5x3) requests_3" by code_simp
  then have ok': "\<forall>r\<in>set requests_3. request_ok available_332 max_5x3 r"
    by (simp add: list_all_iff)
  have rg: "within_range available_332 max_5x3 allocation_5x3 (map snd requests_3)" by code_simp
  have s: "spec_isSafeState available_332 max_5x3 allocation_5x3 =
      \<lparr>safe = True, safeSequence = [1, 3, 4, 0, 2], unfinishedProcesses = []\<rparr>"
    by code_simp
  have r: "spec_replay max_5x3 (available_332, allocation_5x3) requests_3 =
            [\<lparr>entry_processId = 1, entry_request = nums [1, 0, 2],
              outcome = granted_with [1, 3, 4, 0, 2]\<rparr>,
             \<lparr>entry_processId = 4, entry_request = nums [3, 3, 0],
              outcome = denied_at ''Resources not available'' 0\<rparr>,
             \<lparr>entry_processId = 0, entry_request = nums [0, 2, 0],
              outcome = denied_unsafe [0, 1, 2, 3, 4]\<rparr>]"
    by code_simp
  from runBankersAlgorithm_replays [OF d ok' rg, THEN conjunct1] d ok rg
  show ?thesis by (simp add: s r)
qed

lemma held_update:
  assumes "i < length al" "length fl = length al" "\<not> fl ! i"
  shows "held al (fl[i := True]) False j = held al fl False j - al ! i ! j"
    and "held al (fl[i := True]) True j = held al fl True j + al ! i ! j"
proof -
  let ?n = "length al"
  have eq: "sum_list (map f [0..<?n]) = (\<Sum>k\<in>{0..<?n}. f k)" for f :: "nat \<Rightarrow> int"
    by (simp add: interv_sum_list_conv_sum_set_nat)
  have i: "i \<in> {0..<?n}" using assms(1) by simp
  have "(\<Sum>k\<in>{0..<?n}. if fl[i := True] ! k = False then al ! k ! j else 0) =
        (\<Sum>k\<in>{0..<?n}. (if fl ! k = False then al ! k ! j else 0) - (if k = i then al ! i ! j else 0))"
    using assms by (intro sum.cong) (auto simp: nth_list_update)
  also have "\<dots> = (\<Sum>k\<in>{0..<?n}. if fl ! k = False then al ! k ! j else 0) - al ! i ! j"
    using i by (simp add: sum_subtractf)
  finally show "held al (fl[i := True]) False j = held al fl False j - al ! i ! j"
    by (simp add: held_def eq)
  have "(\<Sum>k\<in>{0..<?n}. if fl[i := True] ! k = True then al ! k ! j else 0) =
        (\<Sum>k\<in>{0..<?n}. (if fl ! k = True then al ! k ! j else 0) + (if k = i then al ! i ! j else 0))"
    using assms by (intro sum.cong) (auto simp: nth_list_update)
  also have "\<dots> = (\<Sum>k\<in>{0..<?n}. if fl ! k = True then al ! k ! j else 0) + al ! i ! j"
    using i by (simp add: sum.distrib)
  finally show "held al (fl[i := True]) True j = held al fl True j + al ! i ! j"
    by (simp add: held_def eq)
qed

lemma held_init: "held al (replicate (length al) False) True j = 0"
proof -
  have "map (\<lambda>i. if replicate (length al) False ! i = True then al ! i ! j else 0) [0..<length al] =
        map (\<lambda>i. 0) [0..<length al]"
    by (intro map_cong refl) simp
  then show ?thesis unfolding held_def by (simp only: sum_list_0 map_replicate_const sum_list_replicate)
qed

lemma held_abs: "\<bar>held al fl b j\<bar> \<le> load al [0..<length al] j"
proof -
  have "\<bar>held al fl b j\<bar> \<le>
        sum_list (map abs (map (\<lambda>i. if fl ! i = b then al ! i ! j else 0) [0..<length al]))"
    unfolding held_def by (rule sum_list_abs)
  also have "\<dots> = sum_list (map (\<lambda>i. \<bar>if fl ! i = b then al ! i ! j else 0\<bar>) [0..<length al])"
    by (simp add: comp_def)
  also have "\<dots> \<le> sum_list (map (\<lambda>i. \<bar>al ! i ! j\<bar>) [0..<length al])"
    by (intro sum_list_mono) simp
  finally show ?thesis by (simp add: load_def)
qed

lemma step_inv_init:
  assumes "dims_ok av mx al"
  shows "step_inv av mx al (safety_init (nums av) (length mx))"
  using dims_okD(1) [OF assms] held_init [of al]
  by (simp add: step_inv_def safety_init_def)

lemma step_inv_visit:
  assumes dims: "dims_ok av mx al" and rg: "totals_in_range av al []"
    and inv: "step_inv av mx al st" and i: "i < length mx"
    and v: "visit need (numss al) (length av) i st = Inr st'"
  shows "step_inv av mx al st'"
proof (cases "st' = st")
  case True
  then show ?thesis using inv by simp
next
  case False
  note len = dims_okD [OF dims]
  obtain w where w: "availableResources st = nums w" "length w = length av"
      "\<forall>j<length av. w ! j = av ! j + held al (finished st) True j"
    and lf: "length (finished st) = length mx"
    using inv by (auto simp: step_inv_def)
  have unf: "\<not> finished st ! i" using v False by (auto simp: visit_def split: if_splits)
  have row: "row_at (numss al) i = Some (nums (al ! i))" "length (al ! i) = length av"
    using i len by (simp_all add: row_at_numss)
  have sum: "vec_add w (al ! i) ! j = av ! j + held al ((finished st)[i := True]) True j"
    if j: "j < length av" for j
    using held_update(2) [of i al "finished st" j] i len(1) lf unf w row j by simp
  have ex: "\<forall>j<length av. exact_int (w ! j + al ! i ! j)"
  proof (intro allI impI)
    fix j assume j: "j < length av"
    have "w ! j + al ! i ! j = av ! j + held al ((finished st)[i := True]) True j"
      using sum [OF j] j w(2) row(2) by simp
    moreover have "\<bar>av ! j + held al ((finished st)[i := True]) True j\<bar> \<le>
        \<bar>av ! j\<bar> + load al [0..<length al] j"
      using held_abs [of al "(finished st)[i := True]" True j] by linarith
    ultimately show "exact_int (w ! j + al ! i ! j)"
      using totals_in_rangeD [OF rg j] unfolding exact_int_def by simp
  qed
  have st': "st' = st\<lparr>availableResources := nums (vec_add w (al ! i)),
                     finished := (finished st)[i := True],
                     safeSequence_w := safeSequence_w st @ [i],
                     count := count st + 1,
                     found := True\<rparr>"
    using v False unf w row ex
    by (auto simp: visit_def give_back_nums split: if_splits)
  from sum show ?thesis
    using w row lf by (auto simp: step_inv_def st')
qed

lemma step_inv_step:
  assumes "dims_ok av mx al" "totals_in_range av al []" "step_inv av mx al st"
    and "safety_step need (numss al) (length av) (length mx) st st'"
  shows "step_inv av mx al st'"
  using assms(4,1,2,3)
proof (cases rule: safety_step.cases)
  case (visit_step i)
  then show ?thesis using step_inv_visit [OF assms(1,2,3)] by blast
next
  case pass_step
  then show ?thesis using assms(3) by (simp add: step_inv_def)
qed

lemma reachable_inv:
  assumes "dims_ok av mx al" "totals_in_range av al []" "reachable av mx al st"
  shows "step_inv av mx al st"
proof -
  from assms(3) obtain need where
    "rtranclp (safety_step need (numss al) (length av) (length mx))
       (safety_init (nums av) (length mx)) st"
    unfolding reachable_def by blast
  then show ?thesis
  proof (induction rule: rtranclp_induct)
    case base
    show ?case by (rule step_inv_init [OF assms(1)])
  next
    case (step y z)
    then show ?case using step_inv_step [OF assms(1,2)] by blast
  qed
qed

lemma held_split:
  assumes "length fl = length al"
  shows "held al fl False j + held al fl True j = held al (replicate (length al) False) False j"
proof -
  have "held al fl False j + held al fl True j =
        sum_list (map (\<lambda>i. (if fl ! i = False then al ! i ! j else 0) +
                            (if fl ! i = True then al ! i ! j else 0)) [0..<length al])"
    by (simp add: held_def sum_list_addf)
  also have "\<dots> = sum_list (map (\<lambda>i. al ! i ! j) [0..<length al])"
    by (intro arg_cong [where f = sum_list] map_cong) auto
  also have "map (\<lambda>i. al ! i ! j) [0..<length al] =
      map (\<lambda>i. if replicate (length al) False ! i = False then al ! i ! j else 0) [0..<length al]"
    by (intro map_cong refl) simp
  finally show ?thesis unfolding held_def .
qed

lemma reachable_step:
  assumes "reachable av mx al st" "calc_need (numss mx) (numss al) = Inr need"
    and "safety_step need (numss al) (length av) (length mx) st st'"
  shows "reachable av mx al st'"
proof -
  have "rtranclp (safety_step need (numss al) (length av) (length mx))
          (safety_init (nums av) (length mx)) st"
    using assms(1,2) unfolding reachable_def by auto
  from this assms(3)
  have "rtranclp (safety_step need (numss al) (length av) (length mx))
          (safety_init (nums av) (length mx)) st'"
    by (rule rtranclp.rtrancl_into_rtrancl)
  then show ?thesis using assms(2) unfolding reachable_def by blast
qed

lemma scan_reachable:
  assumes "reachable av mx al st" "\<forall>i\<in>set ids. i < length mx"
    and "calc_need (numss mx) (numss al) = Inr need"
    and "scan need (numss al) (length av) ids st = Inr st'"
  shows "reachable av mx al st'"
  using assms(1,2,4)
proof (induction ids arbitrary: st)
  case Nil
  then show ?case by simp
next
  case (Cons i ids)
  then obtain st1 where v: "visit need (numss al) (length av) i st = Inr st1"
    and s: "scan need (numss al) (length av) ids st1 = Inr st'"
    by (auto split: sum.splits)
  have "safety_step need (numss al) (length av) (length mx) st st1"
    using v Cons.prems(2) by (intro visit_step) simp_all
  then have "reachable av mx al st1"
    by (rule reachable_step [OF Cons.prems(1) assms(3)])
  then show ?case using Cons.IH [OF _ _ s] Cons.prems(2) by simp
qed

lemma reachable_init:
  "calc_need (numss mx) (numss al) = Inr need \<Longrightarrow>
   reachable av mx al (safety_init (nums av) (length mx))"
  unfolding reachable_def by blast

lemma after_process_1_reachable: "reachable available_332 max_5x3 allocation_5x3 after_process_1"
proof -
  have c: "calc_need (numss max_5x3) (numss allocation_5x3) =
      Inr (numss (need_matrix max_5x3 allocation_5x3))"
    by code_simp
  have v1: "visit (numss (need_matrix max_5x3 allocation_5x3)) (numss allocation_5x3)
          (length available_332) 1 (safety_init (nums available_332) (length max_5x3)) =
        Inr after_process_1"
    by code_simp
  have "1 < length max_5x3" by (simp add: max_5x3_def)
  from reachable_step [OF reachable_init [OF c] c visit_step [OF this v1]] show ?thesis .
qed

lemma after_big_reachable: "reachable [2 ^ 53] [[1]] [[1]] after_big"
proof -
  have c: "calc_need (numss [[1]]) (numss [[1]]) = Inr [[Num 0]]" by code_simp
  have v: "visit [[Num 0]] (numss [[1]]) (length [2 ^ 53 :: int]) 0
             (safety_init (nums [2 ^ 53]) (length [[1 :: int]])) = Inr after_big"
    by code_simp
  have "0 < length [[1 :: int]]" by simp
  from reachable_step [OF reachable_init [OF c] c visit_step [OF this v]] show ?thesis .
qed

text \<open>
  Claim C7, as stated, fails when the sum is taken with the working available vector:
  the rows of the finished processes are already part of it, so adding them once more
  makes the sum grow with every process that finishes. For resource 0 of the safe
  scenario it is 10 at the start and 12 after process 1 has finished. Beyond \<open>2 ^ 53\<close>
  not even the working available plus the rows of the unfinished processes is kept: with
  \<open>2 ^ 53\<close> available and one process holding 1 it is \<open>2 ^ 53 + 1\<close> at the start and \<open>2 ^ 53\<close>
  after the process has finished, the sum \<open>2 ^ 53 + 1\<close> having been rounded.
\<close>

theorem returned_rows_counted_twice:
  "reachable available_332 max_5x3 allocation_5x3 after_process_1 \<and>
   with_returned allocation_5x3 (safety_init (nums available_332) (length max_5x3)) 0 = Some 10 \<and>
   with_returned allocation_5x3 after_process_1 0 = Some 12 \<and>
   with_returned allocation_5x3 after_process_1 0 \<noteq>
     with_returned allocation_5x3 (safety_init (nums available_332) (length max_5x3)) 0 \<and>
   reachable [2 ^ 53] [[1]] [[1]] after_big \<and>
   in_circulation [[1]] (safety_init (nums [2 ^ 53]) (length [[1 :: int]])) 0 = Some (2 ^ 53 + 1) \<and>
   in_circulation [[1]] after_big 0 = Some (2 ^ 53)"
proof -
  have a: "with_returned allocation_5x3 (safety_init (nums available_332) (length max_5x3)) 0 =
      Some 10"
    by code_simp
  have b: "with_returned allocation_5x3 after_process_1 0 = Some 12"
    by code_simp
  have c: "in_circulation [[1]] (safety_init (nums [2 ^ 53]) (length [[1 :: int]])) 0 =
      Some (2 ^ 53 + 1)"
    by code_simp
  have d: "in_circulation [[1]] after_big 0 = Some (2 ^ 53)" by code_simp
  have ne: "Some (12 :: int) \<noteq> Some 10" by simp
  show ?thesis
    unfolding a b by (intro conjI after_process_1_reachable after_big_reachable refl ne c d)
qed

text \<open>
  Claim C7, amended: on matrices of matching dimensions where, for every resource type,
  the available amount and the amounts allocated add up, in absolute value, to at most
  \<open>2 ^ 53\<close>: at every step of the safety algorithm and for every resource type,
  the working available plus the allocation rows of the unfinished processes is what it
  was at the start, the initial available plus all allocation rows; the working
  available itself is the initial available plus the rows of the finished processes.
  Taken with the caller's available vector, which no step changes, the sum of all three
  terms is constant too. The states the \<open>for\<close> loop runs through are states of such
  steps.
\<close>

theorem working_plus_unfinished_constant:
  assumes "dims_ok av mx al" and "totals_in_range av al []"
    and "reachable av mx al st" and "j < length av"
  shows "in_circulation al st j = in_circulation al (safety_init (nums av) (length mx)) j \<and>
         in_circulation al st j = Some (av ! j + held al (replicate (length al) False) False j) \<and>
         num_at (availableResources st) j = Num (av ! j + held al (finished st) True j) \<and>
         av ! j + held al (finished st) False j + held al (finished st) True j =
           av ! j + held al (replicate (length al) False) False j \<and>
         (\<forall>ids st' need. (\<forall>i\<in>set ids. i < length mx) \<and>
             calc_need (numss mx) (numss al) = Inr need \<and>
             scan need (numss al) (length av) ids st = Inr st' \<longrightarrow>
             reachable av mx al st')"
proof -
  note len = dims_okD [OF assms(1)]
  from reachable_inv [OF assms(1,2,3)]
  obtain w where w: "availableResources st = nums w" "length w = length av"
      "\<forall>j<length av. w ! j = av ! j + held al (finished st) True j"
    and lf: "length (finished st) = length mx"
    by (auto simp: step_inv_def)
  have wj: "num_at (availableResources st) j = Num (av ! j + held al (finished st) True j)"
    using w assms(4) by (simp add: num_at_nums)
  have split: "held al (finished st) False j + held al (finished st) True j =
      held al (replicate (length al) False) False j"
    using lf len(1) by (intro held_split) simp
  have c: "in_circulation al st j = Some (av ! j + held al (replicate (length al) False) False j)"
    using wj split by (simp add: in_circulation_def)
  have i: "in_circulation al (safety_init (nums av) (length mx)) j =
      Some (av ! j + held al (replicate (length al) False) False j)"
    using assms(4) len(1) by (simp add: in_circulation_def safety_init_def num_at_nums)
  have s: "\<forall>ids st' need. (\<forall>i\<in>set ids. i < length mx) \<and>
             calc_need (numss mx) (numss al) = Inr need \<and>
             scan need (numss al) (length av) ids st = Inr st' \<longrightarrow>
             reachable av mx al st'"
    using scan_reachable [OF assms(3)] by blast
  show ?thesis using c i wj s split by simp
qed

theorem working_plus_unfinished_constant_witness:
  "dims_ok available_332 max_5x3 allocation_5x3 \<and>
   totals_in_range available_332 allocation_5x3 [] \<and>
   reachable available_332 max_5x3 allocation_5x3 after_process_1 \<and>
   0 < length available_332 \<and>
   in_circulation allocation_5x3 after_process_1 0 = Some 10 \<and>
   in_circulation allocation_5x3 (safety_init (nums available_332) (length max_5x3)) 0 = Some 10"
proof -
  have d: "dims_ok available_332 max_5x3 allocation_5x3" by code_simp
  have r: "totals_in_range available_332 allocation_5x3 []" by code_simp
  have j: "0 < length available_332" by (simp add: available_332_def)
  have i: "in_circulation allocation_5x3 (safety_init (nums available_332) (length max_5x3)) 0 =
      Some 10"
    by code_simp
  from working_plus_unfinished_constant [OF d r after_process_1_reachable j, THEN conjunct1] i
  have "in_circulation allocation_5x3 after_process_1 0 = Some 10" by simp
  then show ?thesis using d r after_process_1_reachable j i by simp
qed

section \<open>The engine never writes to what the caller passed\<close>

subsection \<open>What stays untouched\<close>

lemma untouched_refl [simp]: "untouched h h"
  by (simp add: untouched_def)

lemma untouched_trans:
  assumes "untouched h0 h1" "untouched h1 h2"
  shows "untouched h0 h2"
proof -
  have l: "length h0 \<le> length h1" "length h1 \<le> length h2"
    and t1: "take (length h0) h1 = h0" and t2: "take (length h1) h2 = h1"
    using assms by (simp_all add: untouched_def)
  have "take (length h0) (take (length h1) h2) = take (length h0) h2"
    using l by (simp add: min_def)
  then have "take (length h0) h2 = h0" by (simp only: t2 t1)
  then show ?thesis using l by (simp add: untouched_def)
qed

lemma untouched_append [simp]: "untouched h (h @ cs)"
  by (simp add: untouched_def)

lemma untouched_update:
  "untouched h0 h \<Longrightarrow> length h0 \<le> a \<Longrightarrow> untouched h0 (h[a := c])"
  by (simp add: untouched_def take_update_cancel)

lemma untouched_nth: "untouched h0 h \<Longrightarrow> a < length h0 \<Longrightarrow> h ! a = h0 ! a"
  unfolding untouched_def by (metis nth_take)

lemma new_cell_eq: "new_cell c h = (length h, h @ [c])"
  by (simp add: new_cell_def)

lemma new_cells_eq: "new_cells cs h = ([length h..<length h + length cs], h @ cs)"
proof (induction cs arbitrary: h)
  case Nil
  show ?case by simp
next
  case (Cons c cs)
  show ?case by (simp add: new_cell_eq Cons.IH upt_rec)
qed

lemma spread_eq: "spread a h = (length h, h @ [Nums (nums_of h a)])"
  by (simp add: spread_def new_cell_eq)

lemma json_clone_matrix_eq:
  "json_clone_matrix a h =
     (length h + length (matrix_of h a),
      h @ map (\<lambda>row. Nums (map json_num row)) (matrix_of h a) @
        [Refs [length h..<length h + length (matrix_of h a)]])"
  by (simp add: json_clone_matrix_def new_cells_eq new_cell_eq)

lemma json_clone_items_eq:
  "json_clone_items a h =
     (length h + length (items_of h a),
      h @ map Item (items_of h a) @ [Refs [length h..<length h + length (items_of h a)]])"
  by (simp add: json_clone_items_def new_cells_eq new_cell_eq)

lemma refs_of_update:
  "(\<And>rs. c \<noteq> Refs rs) \<Longrightarrow> set (refs_of (h[x := c]) a) \<subseteq> set (refs_of h a)"
  by (cases "x = a"; cases "a < length h"; cases c) (auto simp: refs_of_def list_update_beyond)

lemma owned_update: "(\<And>rs. c \<noteq> Refs rs) \<Longrightarrow> owned h0 h a \<Longrightarrow> owned h0 (h[x := c]) a"
  using refs_of_update [of c h x a] by (auto simp: owned_def)

lemma owned_untouched:
  "untouched h h' \<Longrightarrow> a < length h \<Longrightarrow> owned h0 h a \<Longrightarrow> owned h0 h' a"
  by (simp add: owned_def refs_of_def untouched_nth)

lemma json_clone_matrix_owned:
  assumes "json_clone_matrix a h = (a', h')"
  shows "untouched h h'" "length h \<le> a'" "a' < length h'" "owned h h' a'"
  using assms by (auto simp: json_clone_matrix_eq owned_def refs_of_def nth_append)

lemma json_clone_items_owned:
  assumes "json_clone_items a h = (a', h')"
  shows "untouched h h'" "length h \<le> a'" "a' < length h'" "owned h h' a'"
  using assms by (auto simp: json_clone_items_eq owned_def refs_of_def nth_append)

lemma spread_fresh:
  assumes "spread a h = (a', h')"
  shows "untouched h h'" "length h \<le> a'" "a' < length h'"
  using assms by (auto simp: spread_eq)

lemma owned_mono: "untouched h0 h1 \<Longrightarrow> owned h1 h a \<Longrightarrow> owned h0 h a"
  by (auto simp: owned_def untouched_def)

subsection \<open>isSafeState\<close>

lemma visit_h_untouched:
  assumes "untouched h0 h" "length h0 \<le> aw"
  shows "untouched h0 (snd (visit_h need ca aw nr i (st, h)))"
  using assms by (simp add: visit_h_def untouched_update split: sum.splits)

lemma scan_h_untouched:
  assumes "untouched h0 h" "length h0 \<le> aw"
  shows "untouched h0 (snd (scan_h need ca aw nr ids (st, h)))"
  using assms(1)
proof (induction ids arbitrary: st h)
  case Nil
  then show ?case by simp
next
  case (Cons i ids)
  obtain r h1 where v: "visit_h need ca aw nr i (st, h) = (r, h1)"
    by (cases "visit_h need ca aw nr i (st, h)")
  have u: "untouched h0 h1"
    using visit_h_untouched [OF Cons.prems assms(2), of need ca nr i st] v by simp
  show ?case
  proof (cases r)
    case (Inl e)
    then show ?thesis using v u by simp
  next
    case (Inr st1)
    then show ?thesis using v Cons.IH [OF u] by simp
  qed
qed

lemma safety_loop_h_untouched:
  "untouched h0 (snd s) \<Longrightarrow> length h0 \<le> aw \<Longrightarrow>
   untouched h0 (snd (safety_loop_h need ca aw nr np s))"
proof (induction need ca aw nr np s rule: safety_loop_h.induct)
  case (1 need ca aw nr np s)
  show ?case
  proof (cases "count (fst s) < np")
    case False
    then show ?thesis using "1.prems" by (subst safety_loop_h.simps) simp
  next
    case True
    obtain r h1 where sc:
      "scan_h need ca aw nr [0..<np] ((fst s)\<lparr>found := False\<rparr>, snd s) = (r, h1)"
      by (cases "scan_h need ca aw nr [0..<np] ((fst s)\<lparr>found := False\<rparr>, snd s)")
    have u: "untouched h0 h1"
      using scan_h_untouched [OF "1.prems"(1) "1.prems"(2), of need ca nr "[0..<np]"
          "(fst s)\<lparr>found := False\<rparr>"] sc by simp
    show ?thesis
    proof (cases r)
      case (Inl e)
      then show ?thesis using True sc u by (subst safety_loop_h.simps) simp
    next
      case (Inr st')
      show ?thesis
      proof (cases "found st'")
        case False
        then show ?thesis using True sc u Inr by (subst safety_loop_h.simps) simp
      next
        case f: True
        have "untouched h0 (snd (safety_loop_h need ca aw nr np (st', h1)))"
          using "1.IH" [OF True sc [symmetric] Inr _ _ "1.prems"(2)] f u by simp
        then show ?thesis using True sc Inr f by (subst safety_loop_h.simps) simp
      qed
    qed
  qed
qed

lemma isSafeState_h_untouched: "untouched h (snd (isSafeState_h a b c h))"
proof -
  obtain aw h1 where s: "spread a h = (aw, h1)" by (cases "spread a h")
  obtain amx h2 where m: "json_clone_matrix b h1 = (amx, h2)" by (cases "json_clone_matrix b h1")
  obtain aal h3 where l: "json_clone_matrix c h2 = (aal, h3)" by (cases "json_clone_matrix c h2")
  note f1 = spread_fresh [OF s] and f2 = json_clone_matrix_owned [OF m]
    and f3 = json_clone_matrix_owned [OF l]
  have u3: "untouched h h3"
    using f1(1) f2(1) f3(1) by (blast intro: untouched_trans)
  have "untouched h (snd (safety_loop_h need aal aw nr np (st, h3)))" for need nr np st
    using safety_loop_h_untouched [of h "(st, h3)" aw need aal nr np] u3 f1(2) by simp
  then show ?thesis
    using s m l u3 by (simp add: isSafeState_h_def split: sum.splits)
qed

lemma outcome_of_snd [simp]: "snd (outcome_of rs) = snd rs"
  by (cases rs) (auto simp: outcome_of_def split: sum.splits)

lemma apply_request_h_untouched:
  assumes "untouched h0 h" "length h0 \<le> a_v" "owned h0 h a_m"
  shows "untouched h0 (snd (apply_request_h n req a_v a_m pid h))"
proof (cases "n \<noteq> 0 \<and> pid < length (refs_of h a_m)")
  case True
  then have "length h0 \<le> refs_of h a_m ! pid"
    using assms(3) by (simp add: owned_def)
  then show ?thesis
    using True assms(1,2) by (simp add: apply_request_h_def Let_def untouched_update)
next
  case False
  then show ?thesis
    using assms(1,2) by (auto simp: apply_request_h_def untouched_update)
qed

lemma apply_request_h_owned:
  assumes "owned h0 h a_m"
  shows "owned h0 (snd (apply_request_h n req a_v a_m pid h)) a_m"
  using assms by (auto simp: apply_request_h_def Let_def intro!: owned_update)

lemma resourceRequest_h_untouched:
  "untouched h (snd (resourceRequest_h a b c pid r h))"
proof -
  obtain aw h1 where s: "spread a h = (aw, h1)" by (cases "spread a h")
  obtain amx h2 where m: "json_clone_matrix b h1 = (amx, h2)" by (cases "json_clone_matrix b h1")
  obtain aal h3 where l: "json_clone_matrix c h2 = (aal, h3)" by (cases "json_clone_matrix c h2")
  note f1 = spread_fresh [OF s] and f2 = json_clone_matrix_owned [OF m]
    and f3 = json_clone_matrix_owned [OF l]
  have u2: "untouched h h2" using f1(1) f2(1) by (blast intro: untouched_trans)
  have u3: "untouched h h3" using u2 f3(1) by (blast intro: untouched_trans)
  have own: "owned h h3 aal" using owned_mono [OF u2 f3(4)] .
  have safe3: "untouched h (snd (isSafeState_h aw amx aal h3))"
    using u3 isSafeState_h_untouched by (blast intro: untouched_trans)
  have app: "untouched h h4"
    if "apply_request_h n req aw aal pid h3 = (x, h4)" for n req x h4
    using apply_request_h_untouched [OF u3 f1(2) own, of n req pid] that by simp
  have safe4: "untouched h (snd (isSafeState_h aw amx aal h4))"
    if "apply_request_h n req aw aal pid h3 = (x, h4)" for n req x h4
    using app [OF that] isSafeState_h_untouched [of h4 aw amx aal]
    by (auto intro: untouched_trans)
  show ?thesis
    using s m l u3 safe3
    by (auto simp: resourceRequest_h_def Let_def intro: app safe4
        split: sum.splits option.splits prod.splits)
qed

lemma replay_h_untouched:
  assumes "length h0 \<le> ca"
  shows "untouched h0 h \<Longrightarrow> owned h0 h cal \<Longrightarrow> cal < length h \<Longrightarrow>
         untouched h0 (snd (replay_h amx rs ca cal h))"
proof (induction rs arbitrary: h)
  case Nil
  then show ?case by simp
next
  case (Cons r rs)
  show ?case
  proof (cases "h ! r")
    case (Request pid a_req)
    obtain x h1 where rr: "resourceRequest_h ca amx cal pid a_req h = (x, h1)"
      by (cases "resourceRequest_h ca amx cal pid a_req h")
    have hh1: "untouched h h1" using resourceRequest_h_untouched [of h ca amx cal pid a_req] rr by simp
    have u1: "untouched h0 h1" using Cons.prems(1) hh1 by (rule untouched_trans)
    have o1: "owned h0 h1 cal" using owned_untouched [OF hh1 Cons.prems(3) Cons.prems(2)] .
    have l1: "cal < length h1" using hh1 Cons.prems(3) by (simp add: untouched_def)
    show ?thesis
    proof (cases x)
      case (Inl e)
      then show ?thesis using Request rr u1 by simp
    next
      case (Inr res)
      define step where "step = (if granted res
                      then apply_request_h (length (nums_of h1 a_req)) (nums_of h1 a_req)
                             ca cal pid h1
                      else (Inr (), h1))"
      obtain y h2 where st: "step = (y, h2)" by (cases step)
      have u2: "untouched h0 h2"
        using st u1 apply_request_h_untouched [OF u1 assms o1, of "length (nums_of h1 a_req)"
            "nums_of h1 a_req" pid]
        by (auto simp: step_def split: if_splits)
      have o2: "owned h0 h2 cal"
        using st o1 apply_request_h_owned [OF o1, of "length (nums_of h1 a_req)"
            "nums_of h1 a_req" ca pid]
        by (auto simp: step_def split: if_splits)
      have l2: "cal < length h2"
        using st l1 by (auto simp: step_def apply_request_h_def Let_def split: if_splits)
      show ?thesis
      proof (cases y)
        case (Inl e)
        then show ?thesis using Request rr Inr st u2 by (simp add: step_def)
      next
        case y: (Inr u)
        obtain z h3 where rest: "replay_h amx rs ca cal h2 = (z, h3)"
          by (cases "replay_h amx rs ca cal h2")
        from Cons.IH [OF u2 o2 l2] rest have "untouched h0 h3" by simp
        then show ?thesis
          using Request rr Inr st y rest by (simp add: step_def split: sum.splits)
      qed
    qed
  qed (use Cons.prems in simp_all)
qed

lemma runBankersAlgorithm_h_untouched:
  "untouched h (snd (runBankersAlgorithm_h a b c rq h))"
proof -
  obtain x h1 where i: "isSafeState_h a b c h = (x, h1)" by (cases "isSafeState_h a b c h")
  have u1: "untouched h h1" using isSafeState_h_untouched [of h a b c] i by simp
  obtain ca h2 where s: "spread a h1 = (ca, h2)" by (cases "spread a h1")
  obtain cal h3 where l: "json_clone_matrix c h2 = (cal, h3)" by (cases "json_clone_matrix c h2")
  note f1 = spread_fresh [OF s] and f3 = json_clone_matrix_owned [OF l]
  have u2: "untouched h h2" using u1 f1(1) by (rule untouched_trans)
  have u3: "untouched h h3" using u2 f3(1) by (rule untouched_trans)
  have ca: "length h \<le> ca" using f1(2) u1 by (simp add: untouched_def)
  have own: "owned h h3 cal" using owned_mono [OF u2 f3(4)] .
  have rep: "untouched h h4" if "replay_h b rs ca cal h3 = (z, h4)" for rs z h4
    using replay_h_untouched [OF ca u3 own f3(3), of b rs] that by simp
  show ?thesis
    using i s l u1
    by (auto simp: runBankersAlgorithm_h_def intro: rep split: sum.splits prod.splits)
qed

subsection \<open>The block allocators\<close>

lemma allocate_block_h_untouched:
  assumes "untouched h0 h" "owned h0 h b" "j < length (items_of h b)"
  shows "untouched h0 (snd (allocate_block_h b i j psize (st, h)))"
    and "owned h0 (snd (allocate_block_h b i j psize (st, h))) b"
proof -
  have "length h0 \<le> refs_of h b ! j"
    using assms(2,3) by (simp add: owned_def items_of_def)
  then show "untouched h0 (snd (allocate_block_h b i j psize (st, h)))"
    using assms(1) by (simp add: allocate_block_h_def Let_def untouched_update)
  show "owned h0 (snd (allocate_block_h b i j psize (st, h))) b"
    using assms(2) by (simp add: allocate_block_h_def Let_def owned_update)
qed

lemma step_h_untouched:
  assumes bound: "\<And>blocks psize j. search blocks psize = Some j \<Longrightarrow> j < length blocks"
    and "untouched h0 (snd s)" "owned h0 (snd s) b"
  shows "untouched h0 (snd (step_h search b p i s)) \<and> owned h0 (snd (step_h search b p i s)) b"
proof -
  obtain st h where s: "s = (st, h)" by (cases s)
  show ?thesis
  proof (cases "search (items_of h b) (size_of (items_of h p ! i))")
    case None
    then show ?thesis using assms(2,3) s by (simp add: step_h_def)
  next
    case (Some j)
    from bound [OF Some] have "j < length (items_of h b)" .
    from allocate_block_h_untouched [OF _ _ this, of h0] assms(2,3) s Some
    show ?thesis by (simp add: step_h_def)
  qed
qed

lemma fold_step_h_untouched:
  assumes bound: "\<And>blocks psize j. search blocks psize = Some j \<Longrightarrow> j < length blocks"
  shows "untouched h0 (snd s) \<Longrightarrow> owned h0 (snd s) b \<Longrightarrow>
         untouched h0 (snd (fold (step_h search b p) ids s)) \<and>
         owned h0 (snd (fold (step_h search b p) ids s)) b"
proof (induction ids arbitrary: s)
  case Nil
  then show ?case by simp
next
  case (Cons i ids)
  from step_h_untouched [where search = search and p = p and i = i, OF bound Cons.prems]
  show ?case using Cons.IH [of "step_h search b p i s"] by simp
qed

lemma finish_h_snd [simp]: "snd (finish_h name b p s) = snd s"
  by (cases s) (simp add: finish_h_def)

lemma simple_fit_h_untouched:
  assumes bound: "\<And>blocks psize j. search blocks psize = Some j \<Longrightarrow> j < length blocks"
  shows "untouched h (snd (simple_fit_h name search a_mb a_ps h))"
proof -
  obtain b h1 where cb: "json_clone_items a_mb h = (b, h1)" by (cases "json_clone_items a_mb h")
  obtain p h2 where cp: "json_clone_items a_ps h1 = (p, h2)" by (cases "json_clone_items a_ps h1")
  note f1 = json_clone_items_owned [OF cb] and f2 = json_clone_items_owned [OF cp]
  have u2: "untouched h h2" using f1(1) f2(1) by (rule untouched_trans)
  have own: "owned h h2 b" using owned_untouched [OF f2(1) f1(3) f1(4)] .
  have "untouched h (snd (fold (step_h search b p) ids (st, h2)))" for st ids
    using fold_step_h_untouched [where search = search and s = "(st, h2)" and ?h0.0 = h
        and b = b and p = p and ids = ids, OF bound] u2 own
    by simp
  then show ?thesis
    using cb cp by (simp add: simple_fit_h_def)
qed

lemma nf_search_bound:
  assumes "nf_search blocks psize j0 0 = Some j" "blocks = [] \<or> j0 < length blocks"
  shows "j < length blocks"
proof (cases "blocks = []")
  case True
  then show ?thesis using assms(1) by (simp add: nf_search_empty)
next
  case False
  then show ?thesis using nf_search_Some [OF assms(1)] assms(2) by simp
qed

lemma nf_step_h_untouched:
  assumes "untouched h0 (snd (fst sl))" "owned h0 (snd (fst sl)) b"
    and "refs_of (snd (fst sl)) b = [] \<or> snd sl < length (refs_of (snd (fst sl)) b)"
  shows "untouched h0 (snd (fst (nf_step_h b p i sl))) \<and>
         owned h0 (snd (fst (nf_step_h b p i sl))) b \<and>
         (refs_of (snd (fst (nf_step_h b p i sl))) b = [] \<or>
          snd (nf_step_h b p i sl) < length (refs_of (snd (fst (nf_step_h b p i sl))) b))"
proof -
  obtain st h l where sl: "sl = ((st, h), l)" by (cases sl) auto
  show ?thesis
  proof (cases "nf_search (items_of h b) (size_of (items_of h p ! i)) l 0")
    case None
    then show ?thesis using assms sl by (simp add: nf_step_h_def)
  next
    case (Some j)
    have j: "j < length (items_of h b)"
      using nf_search_bound [OF Some] assms(3) sl by (simp add: items_of_def)
    let ?h' = "snd (allocate_block_h b i j (size_of (items_of h p ! i)) (st, h))"
    have u: "untouched h0 ?h'" "owned h0 ?h' b"
      using allocate_block_h_untouched [OF _ _ j, of h0] assms(1,2) sl by simp_all
    have "refs_of ?h' b = [] \<or> refs_of ?h' b = refs_of h b"
      by (cases "refs_of h b ! j = b"; cases "b < length h")
        (auto simp: allocate_block_h_def Let_def refs_of_def list_update_beyond)
    moreover have "(j + 1) mod length (items_of h b) < length (refs_of h b)"
      using j by (simp add: items_of_def) (intro mod_less_divisor, auto)
    ultimately show ?thesis
      using u Some sl by (auto simp: nf_step_h_def)
  qed
qed

lemma fold_nf_step_h_untouched:
  "untouched h0 (snd (fst sl)) \<Longrightarrow> owned h0 (snd (fst sl)) b \<Longrightarrow>
   refs_of (snd (fst sl)) b = [] \<or> snd sl < length (refs_of (snd (fst sl)) b) \<Longrightarrow>
   untouched h0 (snd (fst (fold (nf_step_h b p) ids sl)))"
proof (induction ids arbitrary: sl)
  case Nil
  then show ?case by simp
next
  case (Cons i ids)
  from nf_step_h_untouched [OF Cons.prems, of p i]
  show ?case using Cons.IH [of "nf_step_h b p i sl"] by simp
qed

lemma nextFit_h_untouched: "untouched h (snd (nextFit_h a_mb a_ps h))"
proof -
  obtain b h1 where cb: "json_clone_items a_mb h = (b, h1)" by (cases "json_clone_items a_mb h")
  obtain p h2 where cp: "json_clone_items a_ps h1 = (p, h2)" by (cases "json_clone_items a_ps h1")
  note f1 = json_clone_items_owned [OF cb] and f2 = json_clone_items_owned [OF cp]
  have u2: "untouched h h2" using f1(1) f2(1) by (rule untouched_trans)
  have own: "owned h h2 b" using owned_untouched [OF f2(1) f1(3) f1(4)] .
  have "refs_of h2 b = [] \<or> 0 < length (refs_of h2 b)" by auto
  then have "untouched h (snd (fst (fold (nf_step_h b p) ids ((st, h2), 0))))" for st ids
    using fold_nf_step_h_untouched [where sl = "((st, h2), 0)" and ?h0.0 = h
        and b = b and p = p and ids = ids] u2 own
    by simp
  then show ?thesis
    using cb cp by (simp add: nextFit_h_def)
qed

section \<open>The two accounts agree\<close>

text \<open>
  The operations on the store return what the operations on lists return, when these
  are given the arrays that the store holds at the addresses passed.
\<close>

subsection \<open>Reading the store\<close>

lemma nums_of_untouched: "untouched h h' \<Longrightarrow> a < length h \<Longrightarrow> nums_of h' a = nums_of h a"
  by (simp add: nums_of_def untouched_nth)

lemma refs_of_untouched: "untouched h h' \<Longrightarrow> a < length h \<Longrightarrow> refs_of h' a = refs_of h a"
  by (simp add: refs_of_def untouched_nth)

lemma item_of_untouched: "untouched h h' \<Longrightarrow> a < length h \<Longrightarrow> item_of h' a = item_of h a"
  by (simp add: item_of_def untouched_nth)

lemma matrix_of_untouched:
  assumes "untouched h h'" "refs_in h a"
  shows "matrix_of h' a = matrix_of h a"
  using assms
  by (auto simp: matrix_of_def refs_in_def refs_of_untouched list_all_iff nums_of_untouched)

lemma items_of_untouched:
  assumes "untouched h h'" "refs_in h a"
  shows "items_of h' a = items_of h a"
  using assms
  by (auto simp: items_of_def refs_in_def refs_of_untouched list_all_iff item_of_untouched)

lemma refs_in_untouched:
  assumes "untouched h h'" "refs_in h a"
  shows "refs_in h' a"
  using assms
  by (auto simp: refs_in_def refs_of_untouched list_all_iff untouched_def)

lemma nums_of_update_same: "a < length h \<Longrightarrow> nums_of (h[a := Nums v]) a = v"
  by (simp add: nums_of_def)

lemma nums_of_update_other: "a \<noteq> x \<Longrightarrow> nums_of (h[x := c]) a = nums_of h a"
  by (simp add: nums_of_def)

lemma refs_of_update_other: "a \<noteq> x \<Longrightarrow> refs_of (h[x := c]) a = refs_of h a"
  by (simp add: refs_of_def)

lemma item_of_update_same: "a < length h \<Longrightarrow> item_of (h[a := Item v]) a = v"
  by (simp add: item_of_def)

lemma item_of_update_other: "a \<noteq> x \<Longrightarrow> item_of (h[x := c]) a = item_of h a"
  by (simp add: item_of_def)

lemma matrix_of_update_other:
  assumes "a \<noteq> x" "x \<notin> set (refs_of h a)"
  shows "matrix_of (h[x := c]) a = matrix_of h a"
proof -
  have "nums_of (h[x := c]) r = nums_of h r" if "r \<in> set (refs_of h a)" for r
    using that assms(2) by (intro nums_of_update_other) auto
  then show ?thesis using assms(1) by (simp add: matrix_of_def refs_of_update_other)
qed

lemma items_of_update_other:
  assumes "a \<noteq> x" "x \<notin> set (refs_of h a)"
  shows "items_of (h[x := c]) a = items_of h a"
proof -
  have "item_of (h[x := c]) r = item_of h r" if "r \<in> set (refs_of h a)" for r
    using that assms(2) by (intro item_of_update_other) auto
  then show ?thesis using assms(1) by (simp add: items_of_def refs_of_update_other)
qed

lemma matrix_of_update_row:
  assumes "pid < length (refs_of h a)" "distinct (refs_of h a)" "a \<notin> set (refs_of h a)"
    "refs_of h a ! pid < length h"
  shows "matrix_of (h[refs_of h a ! pid := Nums v]) a = (matrix_of h a)[pid := v]"
proof -
  let ?r = "refs_of h a ! pid"
  have ne: "a \<noteq> ?r" using assms(1,3) by (metis nth_mem)
  have refs: "refs_of (h[?r := Nums v]) a = refs_of h a"
    using ne by (simp add: refs_of_update_other)
  show ?thesis
  proof (rule nth_equalityI)
    show "length (matrix_of (h[?r := Nums v]) a) = length ((matrix_of h a)[pid := v])"
      by (simp add: matrix_of_def refs)
    fix k assume "k < length (matrix_of (h[?r := Nums v]) a)"
    then have k: "k < length (refs_of h a)" by (simp add: matrix_of_def refs)
    show "matrix_of (h[?r := Nums v]) a ! k = (matrix_of h a)[pid := v] ! k"
    proof (cases "k = pid")
      case True
      then show ?thesis using k assms(4) by (simp add: matrix_of_def refs nums_of_update_same)
    next
      case False
      then have "refs_of h a ! k \<noteq> ?r"
        using assms(1,2) k by (simp add: nth_eq_iff_index_eq)
      then show ?thesis using k False by (simp add: matrix_of_def refs nums_of_update_other)
    qed
  qed
qed

lemma items_of_update_item:
  assumes "j < length (refs_of h a)" "distinct (refs_of h a)" "a \<notin> set (refs_of h a)"
    "refs_of h a ! j < length h"
  shows "items_of (h[refs_of h a ! j := Item v]) a = (items_of h a)[j := v]"
proof -
  let ?r = "refs_of h a ! j"
  have ne: "a \<noteq> ?r" using assms(1,3) by (metis nth_mem)
  have refs: "refs_of (h[?r := Item v]) a = refs_of h a"
    using ne by (simp add: refs_of_update_other)
  show ?thesis
  proof (rule nth_equalityI)
    show "length (items_of (h[?r := Item v]) a) = length ((items_of h a)[j := v])"
      by (simp add: items_of_def refs)
    fix k assume "k < length (items_of (h[?r := Item v]) a)"
    then have k: "k < length (refs_of h a)" by (simp add: items_of_def refs)
    show "items_of (h[?r := Item v]) a ! k = (items_of h a)[j := v] ! k"
    proof (cases "k = j")
      case True
      then show ?thesis using k assms(4) by (simp add: items_of_def refs item_of_update_same)
    next
      case False
      then have "refs_of h a ! k \<noteq> ?r"
        using assms(1,2) k by (simp add: nth_eq_iff_index_eq)
      then show ?thesis using k False by (simp add: items_of_def refs item_of_update_other)
    qed
  qed
qed

text \<open>What the copies hold and where they are.\<close>

lemma spread_read:
  assumes "spread a h = (a', h')" "a < length h"
  shows "a' = length h" "length h' = Suc (length h)" "nums_of h' a' = nums_of h a"
  using assms by (auto simp: spread_eq nums_of_def)

lemma json_clone_matrix_read:
  assumes "json_clone_matrix a h = (a', h')"
  shows "refs_of h' a' = [length h..<length h + length (refs_of h a)]"
    and "a' = length h + length (refs_of h a)"
    and "length h' = Suc (length h + length (refs_of h a))"
    and "matrix_of h' a' = json_copy (matrix_of h a)"
proof -
  let ?n = "length (refs_of h a)"
  have n: "length (matrix_of h a) = ?n" by (simp add: matrix_of_def)
  have h': "h' = h @ map (\<lambda>row. Nums (map json_num row)) (matrix_of h a) @ [Refs [length h..<length h + ?n]]"
    and a': "a' = length h + ?n"
    using assms by (auto simp: json_clone_matrix_eq n)
  show r: "refs_of h' a' = [length h..<length h + ?n]"
    by (simp add: h' a' refs_of_def nth_append n)
  show "a' = length h + ?n" by (rule a')
  show "length h' = Suc (length h + ?n)" by (simp add: h' n)
  show "matrix_of h' a' = json_copy (matrix_of h a)"
  proof (rule nth_equalityI)
    show "length (matrix_of h' a') = length (json_copy (matrix_of h a))"
      by (simp add: matrix_of_def r json_copy_def)
    fix k assume "k < length (matrix_of h' a')"
    then have k: "k < ?n" by (simp add: matrix_of_def r)
    then have "h' ! (length h + k) = Nums (map json_num (matrix_of h a ! k))"
      by (simp add: h' nth_append n)
    then show "matrix_of h' a' ! k = json_copy (matrix_of h a) ! k"
      using k by (simp add: matrix_of_def r nums_of_def json_copy_def n)
  qed
qed

lemma json_clone_items_read:
  assumes "json_clone_items a h = (a', h')"
  shows "refs_of h' a' = [length h..<length h + length (refs_of h a)]"
    and "a' = length h + length (refs_of h a)"
    and "length h' = Suc (length h + length (refs_of h a))"
    and "items_of h' a' = items_of h a"
proof -
  let ?n = "length (refs_of h a)"
  have n: "length (items_of h a) = ?n" by (simp add: items_of_def)
  have h': "h' = h @ map Item (items_of h a) @ [Refs [length h..<length h + ?n]]"
    and a': "a' = length h + ?n"
    using assms by (auto simp: json_clone_items_eq n)
  show r: "refs_of h' a' = [length h..<length h + ?n]"
    by (simp add: h' a' refs_of_def nth_append n)
  show "a' = length h + ?n" by (rule a')
  show "length h' = Suc (length h + ?n)" by (simp add: h' n)
  show "items_of h' a' = items_of h a"
  proof (rule nth_equalityI)
    show "length (items_of h' a') = length (items_of h a)"
      by (simp add: items_of_def r)
    fix k assume "k < length (items_of h' a')"
    then have k: "k < ?n" by (simp add: items_of_def r)
    then have "h' ! (length h + k) = Item (items_of h a ! k)"
      by (simp add: h' nth_append n)
    then show "items_of h' a' ! k = items_of h a ! k"
      using k by (simp add: items_of_def r item_of_def)
  qed
qed

subsection \<open>The store account computes what the list account computes\<close>

lemma visit_h_synced:
  assumes "synced aw aal ca (st, h)"
  shows "fst (visit_h need aal aw nr i (st, h)) = visit need ca nr i st"
    and "visit need ca nr i st = Inr st' \<Longrightarrow>
         visit_h need aal aw nr i (st, h) = (Inr st', snd (visit_h need aal aw nr i (st, h))) \<and>
         synced aw aal ca (st', snd (visit_h need aal aw nr i (st, h)))"
proof -
  have same: "st\<lparr>availableResources := nums_of h aw\<rparr> = st"
    using assms by (simp add: synced_def)
  have m: "matrix_of h aal = ca" using assms by (simp add: synced_def)
  show "fst (visit_h need aal aw nr i (st, h)) = visit need ca nr i st"
    by (simp add: visit_h_def same m split: sum.splits)
  assume v: "visit need ca nr i st = Inr st'"
  have "matrix_of (h[aw := Nums (availableResources st')]) aal = ca"
    using assms by (simp add: synced_def matrix_of_update_other)
  then show "visit_h need aal aw nr i (st, h) = (Inr st', snd (visit_h need aal aw nr i (st, h))) \<and>
         synced aw aal ca (st', snd (visit_h need aal aw nr i (st, h)))"
    using assms v
    by (simp add: visit_h_def same m synced_def nums_of_update_same refs_of_update_other)
qed

lemma scan_h_synced:
  assumes "synced aw aal ca (st, h)"
  shows "fst (scan_h need aal aw nr ids (st, h)) = scan need ca nr ids st \<and>
         (\<forall>st'. scan need ca nr ids st = Inr st' \<longrightarrow>
            synced aw aal ca (st', snd (scan_h need aal aw nr ids (st, h))))"
  using assms
proof (induction ids arbitrary: st h)
  case Nil
  then show ?case by simp
next
  case (Cons i ids)
  show ?case
  proof (cases "visit need ca nr i st")
    case (Inl e)
    obtain x h1 where v: "visit_h need aal aw nr i (st, h) = (x, h1)"
      by (cases "visit_h need aal aw nr i (st, h)")
    then have "x = Inl e"
      using visit_h_synced(1) [OF Cons.prems, of need nr i] Inl by simp
    then show ?thesis using Inl v by simp
  next
    case (Inr st1)
    from visit_h_synced(2) [OF Cons.prems Inr]
    obtain h1 where v: "visit_h need aal aw nr i (st, h) = (Inr st1, h1)"
      and s: "synced aw aal ca (st1, h1)"
      by metis
    from Cons.IH [OF s] show ?thesis using v Inr by simp
  qed
qed

lemma safety_loop_h_synced:
  "synced aw aal ca s \<Longrightarrow>
   fst (safety_loop_h need aal aw nr np s) = safety_loop need ca nr np (fst s)"
proof (induction need aal aw nr np s rule: safety_loop_h.induct)
  case (1 need aal aw nr np s)
  show ?case
  proof (cases "count (fst s) < np")
    case False
    then show ?thesis
      by (subst safety_loop_h.simps, subst safety_loop.simps) simp
  next
    case True
    have s0: "synced aw aal ca ((fst s)\<lparr>found := False\<rparr>, snd s)"
      using "1.prems" by (simp add: synced_def)
    note sc = scan_h_synced [OF s0, of need nr "[0..<np]"]
    obtain r h1 where sh:
      "scan_h need aal aw nr [0..<np] ((fst s)\<lparr>found := False\<rparr>, snd s) = (r, h1)"
      by (cases "scan_h need aal aw nr [0..<np] ((fst s)\<lparr>found := False\<rparr>, snd s)")
    have r: "scan need ca nr [0..<np] ((fst s)\<lparr>found := False\<rparr>) = r"
      using sc sh by simp
    show ?thesis
    proof (cases r)
      case (Inl e)
      then show ?thesis
        using True sh r by (subst safety_loop_h.simps, subst safety_loop.simps) simp
    next
      case (Inr st')
      then have s1: "synced aw aal ca (st', h1)" using sc sh r by simp
      show ?thesis
      proof (cases "found st'")
        case False
        then show ?thesis
          using True sh r Inr by (subst safety_loop_h.simps, subst safety_loop.simps) simp
      next
        case f: True
        have "fst (safety_loop_h need aal aw nr np (st', h1)) = safety_loop need ca nr np st'"
          using "1.IH" [OF True sh [symmetric] Inr _ s1] f by simp
        then show ?thesis
          using True sh r Inr f by (subst safety_loop_h.simps, subst safety_loop.simps) simp
      qed
    qed
  qed
qed

lemma isSafeState_h_adequate:
  assumes "a < length h" "refs_in h b" "refs_in h c"
  shows "fst (isSafeState_h a b c h) = isSafeState (nums_of h a) (matrix_of h b) (matrix_of h c)"
proof -
  obtain aw h1 where s: "spread a h = (aw, h1)" by (cases "spread a h")
  obtain amx h2 where m: "json_clone_matrix b h1 = (amx, h2)" by (cases "json_clone_matrix b h1")
  obtain aal h3 where l: "json_clone_matrix c h2 = (aal, h3)" by (cases "json_clone_matrix c h2")
  note f1 = spread_fresh [OF s] and r1 = spread_read [OF s assms(1)]
    and f2 = json_clone_matrix_owned [OF m] and r2 = json_clone_matrix_read [OF m]
    and f3 = json_clone_matrix_owned [OF l] and r3 = json_clone_matrix_read [OF l]
  have u2: "untouched h h2" using f1(1) f2(1) by (rule untouched_trans)
  have u13: "untouched h1 h3" using f2(1) f3(1) by (rule untouched_trans)
  have u3: "untouched h h3" using u2 f3(1) by (rule untouched_trans)
  have av: "nums_of h3 a = nums_of h a" using nums_of_untouched [OF u3 assms(1)] .
  have aw: "nums_of h3 aw = nums_of h a"
    using nums_of_untouched [OF u13, of aw] r1 by simp
  have mx1: "matrix_of h1 b = matrix_of h b" using matrix_of_untouched [OF f1(1) assms(2)] .
  have amx_in: "refs_in h2 amx"
    using r2 by (simp add: refs_in_def list_all_iff)
  have mx: "matrix_of h3 amx = json_copy (matrix_of h b)"
    using matrix_of_untouched [OF f3(1) amx_in] r2(4) mx1 by simp
  have al: "matrix_of h3 aal = json_copy (matrix_of h c)"
    using r3(4) matrix_of_untouched [OF u2 assms(3)] by simp
  have lt: "aw < length h2" "length h2 \<le> aal" "aw < length h3"
    using r1(1,2) r2(3) r3(2,3) by simp_all
  have "aw \<notin> set (refs_of h3 aal)" using lt(1) by (simp add: r3(1))
  then have sy: "synced aw aal (json_copy (matrix_of h c)) (st, h3)"
    if "availableResources st = nums_of h a" for st
    using that lt aw al by (simp add: synced_def)
  have "fst (safety_loop_h need aal aw nr np (safety_init (nums_of h a) np, h3)) =
        safety_loop need (json_copy (matrix_of h c)) nr np (safety_init (nums_of h a) np)"
    for need nr np
    using safety_loop_h_synced [OF sy, of "safety_init (nums_of h a) np" need nr np]
    by (simp add: safety_init_def)
  then show ?thesis
    using s m l av aw mx al
    by (simp add: isSafeState_h_def isSafeState_def Let_def json_copy_def split: sum.splits)
qed

lemma outcome_of_fst:
  "fst (outcome_of rs) =
     (case fst rs of
        Inl e \<Rightarrow> Inl e
      | Inr safetyResult \<Rightarrow>
          if safe safetyResult then
            Inr \<lparr>granted = True, reason = None, resourceIndex = None,
                 safeSequence_r = Some (safeSequence safetyResult), unsafeProcesses = None\<rparr>
          else
            Inr \<lparr>granted = False, reason = Some ''Resulting state would be unsafe'',
                 resourceIndex = None, safeSequence_r = None,
                 unsafeProcesses = Some (unfinishedProcesses safetyResult)\<rparr>)"
  by (cases rs) (auto simp: outcome_of_def granted_with_def denied_unsafe_def split: sum.splits)

text \<open>
  The three copies a call starts with, in a store \<open>h3\<close>: the working vector at \<open>aw\<close>, the
  copies of the two matrices at \<open>amx\<close> and \<open>aal\<close>, all three and their rows apart from
  each other.
\<close>

lemma copies_apart:
  assumes s: "spread a h = (aw, h1)" and m: "json_clone_matrix b h1 = (amx, h2)"
    and l: "json_clone_matrix c h2 = (aal, h3)"
    and a: "a < length h" and b: "refs_in h b" and c: "refs_in h c"
  shows "untouched h h3"
    and "nums_of h3 aw = nums_of h a"
    and "matrix_of h3 amx = json_copy (matrix_of h b)"
    and "matrix_of h3 aal = json_copy (matrix_of h c)"
    and "aw < length h3" "refs_in h3 amx" "refs_in h3 aal"
    and "aw \<noteq> amx" "aw \<noteq> aal" "aw \<notin> set (refs_of h3 amx)" "aw \<notin> set (refs_of h3 aal)"
    and "distinct (refs_of h3 aal)" "aal \<notin> set (refs_of h3 aal)"
    and "amx \<notin> set (refs_of h3 aal)" "aal \<noteq> amx"
    and "set (refs_of h3 aal) \<inter> set (refs_of h3 amx) = {}"
    and "length h \<le> aw"
proof -
  note f1 = spread_fresh [OF s] and r1 = spread_read [OF s a]
    and f2 = json_clone_matrix_owned [OF m] and r2 = json_clone_matrix_read [OF m]
    and f3 = json_clone_matrix_owned [OF l] and r3 = json_clone_matrix_read [OF l]
  have u2: "untouched h h2" using f1(1) f2(1) by (rule untouched_trans)
  have u13: "untouched h1 h3" using f2(1) f3(1) by (rule untouched_trans)
  show u3: "untouched h h3" using u2 f3(1) by (rule untouched_trans)
  show "nums_of h3 aw = nums_of h a"
    using nums_of_untouched [OF u13, of aw] r1 by simp
  have amx_in: "refs_in h2 amx"
    using r2 by (simp add: refs_in_def list_all_iff)
  have rmx: "refs_of h3 amx = [length h1..<length h1 + length (refs_of h1 b)]"
    using refs_of_untouched [OF f3(1) f2(3)] r2(1) by simp
  show "matrix_of h3 amx = json_copy (matrix_of h b)"
    using matrix_of_untouched [OF f3(1) amx_in] r2(4) matrix_of_untouched [OF f1(1) b] by simp
  show "matrix_of h3 aal = json_copy (matrix_of h c)"
    using r3(4) matrix_of_untouched [OF u2 c] by simp
  show "aw < length h3" using r1(1,2) r2(3) r3(3) by simp
  show "refs_in h3 amx" using refs_in_untouched [OF f3(1) amx_in] .
  show "refs_in h3 aal" using r3 by (simp add: refs_in_def list_all_iff)
  show "aw \<noteq> amx" "aw \<noteq> aal" using r1(1,2) r2(2,3) r3(2) by simp_all
  show "aw \<notin> set (refs_of h3 amx)" using r1(1,2) by (auto simp: rmx)
  have "aw < length h2" using r1(1,2) r2(3) by simp
  then show "aw \<notin> set (refs_of h3 aal)" unfolding r3(1) by simp
  show "distinct (refs_of h3 aal)" by (simp add: r3(1))
  show "aal \<notin> set (refs_of h3 aal)" unfolding r3(1) using r3(2) by simp
  have "amx < length h2" using r2(2,3) by simp
  then show "amx \<notin> set (refs_of h3 aal)" unfolding r3(1) by simp
  show "aal \<noteq> amx" using r2(2,3) r3(2) by simp
  show "set (refs_of h3 aal) \<inter> set (refs_of h3 amx) = {}"
    using r2(3) by (auto simp: r3(1) rmx)
  show "length h \<le> aw" using r1(1) by simp
qed

text \<open>The tentative allocation, and the commit of a granted request, on copies that are apart.\<close>

lemma apply_request_h_read:
  fixes req :: "jsnum list"
  assumes n: "n \<noteq> 0" and pid: "pid < length (refs_of h aal)"
    and aw: "aw < length h" and al: "refs_in h aal"
    and ne: "aw \<noteq> aal" "aw \<notin> set (refs_of h aal)"
    and d: "distinct (refs_of h aal)" "aal \<notin> set (refs_of h aal)"
  defines "h' \<equiv> snd (apply_request_h n req aw aal pid h)"
  shows "fst (apply_request_h n req aw aal pid h) = Inr ()"
    and "nums_of h' aw = take_away n req (nums_of h aw)"
    and "matrix_of h' aal = (matrix_of h aal)[pid := add_on n req (matrix_of h aal ! pid)]"
    and "length h' = length h" "refs_of h' aal = refs_of h aal"
    and "\<And>x. x \<noteq> aw \<Longrightarrow> x \<notin> set (refs_of h aal) \<Longrightarrow> h' ! x = h ! x"
proof -
  let ?row = "refs_of h aal ! pid"
  let ?h1 = "h[aw := Nums (take_away n req (nums_of h aw))]"
  have row: "?row \<in> set (refs_of h aal)" using pid by simp
  have row_ne: "?row \<noteq> aw" "?row \<noteq> aal" using row ne(2) d(2) by auto
  have row_lt: "?row < length h" using al row by (auto simp: refs_in_def list_all_iff)
  have h': "h' = ?h1[?row := Nums (add_on n req (nums_of ?h1 ?row))]"
    using n pid by (simp add: h'_def apply_request_h_def Let_def)
  show "fst (apply_request_h n req aw aal pid h) = Inr ()"
    using n pid by (simp add: apply_request_h_def Let_def)
  show "nums_of h' aw = take_away n req (nums_of h aw)"
    using row_ne aw by (simp add: h' nums_of_update_other nums_of_update_same)
  have r1: "refs_of ?h1 aal = refs_of h aal" using ne(1) by (simp add: refs_of_update_other)
  have m1: "matrix_of ?h1 aal = matrix_of h aal"
    using ne by (simp add: matrix_of_update_other)
  have n1: "nums_of ?h1 ?row = matrix_of h aal ! pid"
    using row_ne pid by (simp add: nums_of_update_other matrix_of_def)
  have "matrix_of (?h1[refs_of ?h1 aal ! pid := Nums (add_on n req (nums_of ?h1 ?row))]) aal =
        (matrix_of ?h1 aal)[pid := add_on n req (nums_of ?h1 ?row)]"
    using pid d row_lt by (intro matrix_of_update_row) (simp_all add: r1)
  then show "matrix_of h' aal = (matrix_of h aal)[pid := add_on n req (matrix_of h aal ! pid)]"
    by (simp add: h' r1 m1 n1)
  show "length h' = length h" by (simp add: h')
  show "refs_of h' aal = refs_of h aal"
    using row_ne ne(1) by (simp add: h' refs_of_update_other)
  show "h' ! x = h ! x" if "x \<noteq> aw" "x \<notin> set (refs_of h aal)" for x
  proof -
    have "x \<noteq> ?row" using that(2) row by auto
    then show ?thesis using that(1) by (simp add: h')
  qed
qed

lemma apply_request_h_error:
  assumes "n \<noteq> 0" "\<not> pid < length (refs_of h aal)"
  shows "fst (apply_request_h n req aw aal pid h) = Inl TypeError"
  using assms by (simp add: apply_request_h_def)

lemma matrix_of_same_cells:
  assumes "h' ! a = h ! a" "\<And>x. x \<in> set (refs_of h a) \<Longrightarrow> h' ! x = h ! x"
  shows "matrix_of h' a = matrix_of h a" "refs_of h' a = refs_of h a"
proof -
  show r: "refs_of h' a = refs_of h a" using assms(1) by (simp add: refs_of_def)
  have "nums_of h' x = nums_of h x" if "x \<in> set (refs_of h a)" for x
    using assms(2) [OF that] by (simp add: nums_of_def)
  then show "matrix_of h' a = matrix_of h a" by (simp add: matrix_of_def r)
qed

lemma resourceRequest_h_adequate:
  assumes a: "a < length h" and b: "refs_in h b" and c: "refs_in h c" and r: "r < length h"
  shows "fst (resourceRequest_h a b c pid r h) =
         resourceRequest (nums_of h a) (matrix_of h b) (matrix_of h c) pid (nums_of h r)"
proof -
  obtain aw h1 where s: "spread a h = (aw, h1)" by (cases "spread a h")
  obtain amx h2 where m: "json_clone_matrix b h1 = (amx, h2)" by (cases "json_clone_matrix b h1")
  obtain aal h3 where l: "json_clone_matrix c h2 = (aal, h3)" by (cases "json_clone_matrix c h2")
  note ap = copies_apart [OF s m l a b c]
  let ?av = "nums_of h a" and ?mx = "json_copy (matrix_of h b)"
  let ?al = "json_copy (matrix_of h c)" and ?rq = "nums_of h r"
  let ?n = "length ?av"
  have av: "nums_of h3 a = ?av" using nums_of_untouched [OF ap(1) a] .
  have rq: "nums_of h3 r = ?rq" using nums_of_untouched [OF ap(1) r] .
  have safe3: "fst (isSafeState_h aw amx aal h3) = isSafeState ?av ?mx ?al"
    using isSafeState_h_adequate [OF ap(5,6,7)] by (simp add: ap(2,3,4))
  have len: "length (refs_of h3 aal) = length ?al"
    using ap(4) [symmetric] by (simp add: matrix_of_def)
  obtain x h4 where app: "apply_request_h ?n ?rq aw aal pid h3 = (x, h4)"
    by (cases "apply_request_h ?n ?rq aw aal pid h3")
  have x_err: "x = Inl TypeError" if "?n \<noteq> 0" "\<not> pid < length ?al"
    using apply_request_h_error [where n = ?n and pid = pid and h = h3 and aal = aal and req = ?rq and aw = aw] that app by (simp add: len)
  have tent: "x = Inr () \<and> fst (isSafeState_h aw amx aal h4) =
              isSafeState (take_away ?n ?rq ?av) ?mx (?al[pid := add_on ?n ?rq (?al ! pid)])"
    if n: "?n \<noteq> 0" and p: "pid < length ?al"
  proof -
    have p': "pid < length (refs_of h3 aal)" using p by (simp add: len)
    note r4 = apply_request_h_read [OF n p' ap(5) ap(7) ap(9) ap(11) ap(12) ap(13), where req = ?rq]
    have x: "x = Inr ()" using r4(1) app by simp
    have h4: "snd (apply_request_h ?n ?rq aw aal pid h3) = h4" using app by simp
    note r4' = r4 [unfolded h4]
    have aw4: "aw < length h4" using r4'(4) ap(5) by simp
    have al4: "refs_in h4 aal" using ap(7) r4'(4,5) by (simp add: refs_in_def)
    have same: "h4 ! amx = h3 ! amx" using r4'(6) ap(8,14) by auto
    have rows: "h4 ! y = h3 ! y" if "y \<in> set (refs_of h3 amx)" for y
    proof (rule r4'(6))
      show "y \<noteq> aw" using that ap(10) by auto
      show "y \<notin> set (refs_of h3 aal)" using that ap(16) by auto
    qed
    note mx4 = matrix_of_same_cells [OF same rows]
    have amx4: "refs_in h4 amx" using ap(6) r4'(4) mx4(2) by (simp add: refs_in_def)
    show ?thesis
      using isSafeState_h_adequate [OF aw4 amx4 al4] x
      by (simp add: r4'(2,3) mx4(1) ap(2,3,4))
  qed
  show ?thesis
    using s m l app safe3 tent x_err
    by (auto simp: resourceRequest_h_def resourceRequest_def Let_def av rq ap(2,3,4)
          outcome_of_fst row_at_def denied_at_def
          split: sum.splits option.splits prod.splits if_splits)
qed

subsection \<open>The loop over the requests\<close>

lemma working_refs_in: "working h0 cur cal h \<Longrightarrow> refs_in h cal"
  by (simp add: working_def refs_in_def list_all_iff)

lemma working_owned: "working h0 cur cal h \<Longrightarrow> owned h0 h cal"
  by (simp add: working_def owned_def list_all_iff)

lemma working_untouched:
  assumes w: "working h0 cur cal h" and u: "untouched h h1"
  shows "working h0 cur cal h1" "nums_of h1 cur = nums_of h cur"
    "matrix_of h1 cal = matrix_of h cal"
proof -
  have r: "refs_of h1 cal = refs_of h cal"
    using refs_of_untouched [OF u] w by (simp add: working_def)
  have l: "length h \<le> length h1" using u by (simp add: untouched_def)
  have "untouched h0 h1" using w u by (auto simp: working_def intro: untouched_trans)
  then show "working h0 cur cal h1"
    using w l by (auto simp: working_def r list_all_iff)
  show "nums_of h1 cur = nums_of h cur"
    using nums_of_untouched [OF u] w by (simp add: working_def)
  show "matrix_of h1 cal = matrix_of h cal"
    using matrix_of_untouched [OF u working_refs_in [OF w]] .
qed

lemma working_caller:
  assumes w: "working h0 cur cal h"
  shows "refs_in h0 b \<Longrightarrow> refs_in h b" "refs_in h0 b \<Longrightarrow> matrix_of h b = matrix_of h0 b"
    "a < length h0 \<Longrightarrow> h ! a = h0 ! a" "a < length h0 \<Longrightarrow> nums_of h a = nums_of h0 a"
    "a < length h0 \<Longrightarrow> a < length h"
proof -
  have u: "untouched h0 h" using w by (simp add: working_def)
  show "refs_in h0 b \<Longrightarrow> refs_in h b" using refs_in_untouched [OF u] .
  show "refs_in h0 b \<Longrightarrow> matrix_of h b = matrix_of h0 b" using matrix_of_untouched [OF u] .
  show "a < length h0 \<Longrightarrow> h ! a = h0 ! a" using untouched_nth [OF u] .
  show "a < length h0 \<Longrightarrow> nums_of h a = nums_of h0 a" using nums_of_untouched [OF u] .
  show "a < length h0 \<Longrightarrow> a < length h" using u by (simp add: untouched_def)
qed

lemma working_apply:
  fixes req :: "jsnum list"
  assumes w: "working h0 cur cal h" and n: "n \<noteq> 0" and pid: "pid < length (matrix_of h cal)"
  defines "h' \<equiv> snd (apply_request_h n req cur cal pid h)"
  shows "fst (apply_request_h n req cur cal pid h) = Inr ()"
    and "working h0 cur cal h'"
    and "nums_of h' cur = take_away n req (nums_of h cur)"
    and "matrix_of h' cal = (matrix_of h cal)[pid := add_on n req (matrix_of h cal ! pid)]"
proof -
  have p: "pid < length (refs_of h cal)" using pid by (simp add: matrix_of_def)
  have w': "cur < length h" "cur \<noteq> cal" "cur \<notin> set (refs_of h cal)"
    "distinct (refs_of h cal)" "cal \<notin> set (refs_of h cal)" "untouched h0 h" "length h0 \<le> cur"
    using w by (simp_all add: working_def)
  note r = apply_request_h_read [OF n p w'(1) working_refs_in [OF w] w'(2,3,4,5),
      where req = req, folded h'_def]
  show "fst (apply_request_h n req cur cal pid h) = Inr ()" by (rule r(1))
  show "nums_of h' cur = take_away n req (nums_of h cur)" by (rule r(2))
  show "matrix_of h' cal = (matrix_of h cal)[pid := add_on n req (matrix_of h cal ! pid)]"
    by (rule r(3))
  have "untouched h0 h'"
    unfolding h'_def by (rule apply_request_h_untouched [OF w'(6,7) working_owned [OF w]])
  then show "working h0 cur cal h'"
    using w by (simp add: working_def r(4,5))
qed

lemma commit_zero: "length req = 0 \<Longrightarrow> commit pid req s = Inr s"
  by (cases s) (simp add: commit_def)

lemma replay_h_adequate:
  assumes "working h0 cur cal h" and b: "refs_in h0 b" and "list_all (is_request h0) rs"
  shows "map_sum id (map (entry_of h0)) (fst (replay_h b rs cur cal h)) =
         replay (matrix_of h0 b) (map (request_of h0) rs) (nums_of h cur, matrix_of h cal)"
  using assms(1,3)
proof (induction rs arbitrary: h)
  case Nil
  then show ?case by simp
next
  case (Cons r rs)
  note w = Cons.prems(1)
  have isr: "is_request h0 r" and rest: "list_all (is_request h0) rs"
    using Cons.prems(2) by simp_all
  then obtain pid a where cell0: "h0 ! r = Request pid a" and a0: "a < length h0"
    and r0: "r < length h0"
    by (auto simp: is_request_def split: cell.splits)
  have cell: "h ! r = Request pid a" using working_caller(3) [OF w r0] cell0 by simp
  let ?req = "nums_of h0 a"
  have rq: "request_of h0 r = \<lparr>processId = pid, request = ?req\<rparr>"
    by (simp add: request_of_def cell0)
  obtain x h1 where rr: "resourceRequest_h cur b cal pid a h = (x, h1)"
    by (cases "resourceRequest_h cur b cal pid a h")
  have cur: "cur < length h" using w by (simp add: working_def)
  have x: "x = resourceRequest (nums_of h cur) (matrix_of h0 b) (matrix_of h cal) pid ?req"
    using resourceRequest_h_adequate [OF cur working_caller(1) [OF w b] working_refs_in [OF w]
        working_caller(5) [OF w a0], of pid] rr
    by (simp add: working_caller(2) [OF w b] working_caller(4) [OF w a0])
  have u1: "untouched h h1" using resourceRequest_h_untouched [of h cur b cal pid a] rr by simp
  note w1 = working_untouched [OF w u1]
  have a1: "nums_of h1 a = ?req" using working_caller(4) [OF w1(1) a0] .
  show ?case
  proof (cases x)
    case (Inl e)
    then show ?thesis using cell rr x [symmetric] by (simp add: rq)
  next
    case (Inr res)
    define step where "step = (if granted res
                      then apply_request_h (length ?req) ?req cur cal pid h1
                      else (Inr (), h1))"
    define s' where "s' = (if granted res then commit pid ?req (nums_of h cur, matrix_of h cal)
                           else Inr (nums_of h cur, matrix_of h cal))"
    obtain y h2 where st: "step = (y, h2)" by (cases step)
    have link: "(y = Inr () \<and> working h0 cur cal h2 \<and> s' = Inr (nums_of h2 cur, matrix_of h2 cal)) \<or>
                (y = Inl TypeError \<and> s' = Inl TypeError)"
    proof (cases "granted res \<and> length ?req \<noteq> 0")
      case False
      then have "step = (Inr (), h1)" by (auto simp: step_def apply_request_h_def)
      then have "y = Inr ()" "h2 = h1" using st by simp_all
      moreover have "s' = Inr (nums_of h cur, matrix_of h cal)"
        using False by (auto simp: s'_def commit_zero)
      ultimately show ?thesis using w1 by simp
    next
      case True
      show ?thesis
      proof (cases "pid < length (matrix_of h cal)")
        case p: True
        then have p1: "pid < length (matrix_of h1 cal)" by (simp add: w1(3))
        have h2: "snd (apply_request_h (length ?req) ?req cur cal pid h1) = h2"
          using st True by (simp add: step_def)
        note ap = working_apply [OF w1(1) _ p1, where n = "length ?req" and req = ?req,
            unfolded h2]
        have "y = Inr ()" using ap(1) st True by (simp add: step_def)
        moreover have "working h0 cur cal h2" using ap(2) True by simp
        moreover have "s' = Inr (nums_of h2 cur, matrix_of h2 cal)"
          using True p ap(3,4) by (simp add: s'_def commit_def row_at_def w1(2,3))
        ultimately show ?thesis by simp
      next
        case p: False
        have "length (refs_of h1 cal) = length (matrix_of h1 cal)" by (simp add: matrix_of_def)
        then have "\<not> pid < length (refs_of h1 cal)" using p by (simp add: w1(3))
        then have "y = Inl TypeError"
          using st True apply_request_h_error [where n = "length ?req" and pid = pid
              and h = h1 and aal = cal and req = ?req and aw = cur]
          by (simp add: step_def)
        then show ?thesis using True p by (simp add: s'_def commit_def row_at_def)
      qed
    qed
    have lhs: "replay_h b (r # rs) cur cal h =
       (case y of Inl e \<Rightarrow> (Inl e, h2)
        | Inr u \<Rightarrow>
            (case replay_h b rs cur cal h2 of
               (Inl e, h3) \<Rightarrow> (Inl e, h3)
             | (Inr results, h3) \<Rightarrow>
                 (Inr (\<lparr>entry_processId_h = pid, entry_request_h = a, outcome_h = res\<rparr> # results),
                  h3)))"
    proof -
      have step_eq: "(if granted res
                      then apply_request_h (length (nums_of h1 a)) (nums_of h1 a) cur cal pid h1
                      else (Inr (), h1)) = (y, h2)"
        using st by (simp only: step_def a1)
      show ?thesis
        using cell rr Inr by (simp only: replay_h.simps cell.case prod.case sum.case step_eq)
    qed
    have rhs: "replay (matrix_of h0 b) (map (request_of h0) (r # rs)) (nums_of h cur, matrix_of h cal) =
       (case s' of Inl e \<Rightarrow> Inl e
        | Inr s2 \<Rightarrow>
            (case replay (matrix_of h0 b) (map (request_of h0) rs) s2 of
               Inl e \<Rightarrow> Inl e
             | Inr results \<Rightarrow>
                 Inr (\<lparr>entry_processId = pid, entry_request = ?req, outcome = res\<rparr> # results)))"
      using x [symmetric] Inr by (auto simp: rq s'_def split: sum.splits)
    from link show ?thesis
    proof
      assume "y = Inl TypeError \<and> s' = Inl TypeError"
      then show ?thesis unfolding lhs rhs by simp
    next
      assume ok: "y = Inr () \<and> working h0 cur cal h2 \<and> s' = Inr (nums_of h2 cur, matrix_of h2 cal)"
      obtain z h3 where rp: "replay_h b rs cur cal h2 = (z, h3)"
        by (cases "replay_h b rs cur cal h2")
      have w2: "working h0 cur cal h2" using ok by simp
      have ih: "map_sum id (map (entry_of h0)) z =
                replay (matrix_of h0 b) (map (request_of h0) rs) (nums_of h2 cur, matrix_of h2 cal)"
        using Cons.IH [OF w2 rest] by (simp only: rp fst_conv)
      show ?thesis
        unfolding lhs rhs using ok rp ih [symmetric]
        by (cases z) (simp_all add: entry_of_def)
    qed
  qed
qed

lemma runBankersAlgorithm_h_adequate:
  assumes a: "a < length h" and b: "refs_in h b" and c: "refs_in h c" and rq: "rq < length h"
    and rs: "list_all (is_request h) (refs_of h rq)"
  shows "map_sum id (output_of h) (fst (runBankersAlgorithm_h a b c rq h)) =
         runBankersAlgorithm (nums_of h a) (matrix_of h b) (matrix_of h c)
           (map (request_of h) (refs_of h rq))"
proof -
  obtain x h1 where i: "isSafeState_h a b c h = (x, h1)" by (cases "isSafeState_h a b c h")
  have x: "x = isSafeState (nums_of h a) (matrix_of h b) (matrix_of h c)"
    using isSafeState_h_adequate [OF a b c] i by simp
  have u1: "untouched h h1" using isSafeState_h_untouched [of h a b c] i by simp
  obtain cur h2 where s: "spread a h1 = (cur, h2)" by (cases "spread a h1")
  obtain cal h3 where l: "json_clone_matrix c h2 = (cal, h3)" by (cases "json_clone_matrix c h2")
  have a1: "a < length h1" using a u1 by (simp add: untouched_def)
  note f1 = spread_fresh [OF s] and r1 = spread_read [OF s a1]
    and f3 = json_clone_matrix_owned [OF l] and r3 = json_clone_matrix_read [OF l]
  have u2: "untouched h h2" using u1 f1(1) by (rule untouched_trans)
  have u3: "untouched h h3" using u2 f3(1) by (rule untouched_trans)
  have l01: "length h \<le> length h1" using u1 by (simp add: untouched_def)
  have cur_lt: "cur < length h2" using r1(1,2) by simp
  have w: "working h cur cal h3"
    unfolding working_def r3(1)
    using u3 r1(1,2) r3(2,3) l01 by (auto simp: list_all_iff)
  have cur: "nums_of h3 cur = nums_of h a"
    using nums_of_untouched [OF f3(1) cur_lt] r1(3) nums_of_untouched [OF u1 a] by simp
  have cal: "matrix_of h3 cal = json_copy (matrix_of h c)"
    using r3(4) matrix_of_untouched [OF u2 c] by simp
  have rq1: "refs_of h1 rq = refs_of h rq" using refs_of_untouched [OF u1 rq] .
  have rq3: "refs_of h3 rq = refs_of h rq" using refs_of_untouched [OF u3 rq] .
  obtain z h4 where rp: "replay_h b (refs_of h rq) cur cal h3 = (z, h4)"
    by (cases "replay_h b (refs_of h rq) cur cal h3")
  have z: "map_sum id (map (entry_of h)) z =
           replay (matrix_of h b) (map (request_of h) (refs_of h rq))
             (nums_of h a, json_copy (matrix_of h c))"
    using replay_h_adequate [OF w b rs] by (simp only: rp fst_conv cur cal)
  show ?thesis
  proof (cases x)
    case (Inl e)
    then show ?thesis
      using i x [symmetric] by (simp add: runBankersAlgorithm_h_def runBankersAlgorithm_def)
  next
    case (Inr init)
    show ?thesis
    proof (cases "safe init \<and> refs_of h rq \<noteq> []")
      case False
      then show ?thesis
        using i Inr x [symmetric]
        by (auto simp: runBankersAlgorithm_h_def runBankersAlgorithm_def rq1 output_of_def)
    next
      case True
      have "fst (runBankersAlgorithm_h a b c rq h) =
            (case z of Inl e \<Rightarrow> Inl e
             | Inr results \<Rightarrow> Inr \<lparr>initialState_h = init, requestResults_h = results\<rparr>)"
        using i Inr True s l rp
        by (simp add: runBankersAlgorithm_h_def rq1 rq3 split: sum.splits)
      moreover have "runBankersAlgorithm (nums_of h a) (matrix_of h b) (matrix_of h c)
           (map (request_of h) (refs_of h rq)) =
            (case map_sum id (map (entry_of h)) z of Inl e \<Rightarrow> Inl e
             | Inr results \<Rightarrow> Inr \<lparr>initialState = init, requestResults = results\<rparr>)"
        using Inr True x [symmetric] unfolding z
        by (auto simp: runBankersAlgorithm_def split: sum.splits)
      ultimately show ?thesis by (cases z) (simp_all add: output_of_def)
    qed
  qed
qed

subsection \<open>The block allocators\<close>

lemma allocate_block_h_synced:
  assumes sy: "mem_synced b p procs (st, h)" and j: "j < length (st_blocks st)"
  shows "fst (allocate_block_h b i j psize (st, h)) = allocate_block i j psize st"
    and "mem_synced b p procs (allocate_block_h b i j psize (st, h))"
proof -
  let ?st' = "allocate_block i j psize st"
  let ?r = "refs_of h b ! j"
  let ?h' = "h[?r := Item (st_blocks ?st' ! j)]"
  have bl: "items_of h b = st_blocks st" and pr: "items_of h p = procs"
    and d: "distinct (refs_of h b)" and nb: "b \<notin> set (refs_of h b)"
    and np: "p \<notin> set (refs_of h b)" and dj: "set (refs_of h b) \<inter> set (refs_of h p) = {}"
    and rb: "refs_in h b"
    using sy by (simp_all add: mem_synced_def)
  have same: "st\<lparr>st_blocks := items_of h b\<rparr> = st" by (simp add: bl)
  have jr: "j < length (refs_of h b)" using j bl [symmetric] by (simp add: items_of_def)
  have r_in: "?r \<in> set (refs_of h b)" using jr by simp
  have r_lt: "?r < length h" using rb r_in by (auto simp: refs_in_def list_all_iff)
  have eq: "allocate_block_h b i j psize (st, h) = (?st', ?h')"
    by (simp add: allocate_block_h_def Let_def same)
  show "fst (allocate_block_h b i j psize (st, h)) = ?st'" by (simp add: eq)
  have r_ne: "b \<noteq> ?r" "p \<noteq> ?r" using r_in nb np by auto
  have r_np: "?r \<notin> set (refs_of h p)" using r_in dj by auto
  have refs_b: "refs_of ?h' b = refs_of h b" using r_ne(1) by (simp add: refs_of_update_other)
  have refs_p: "refs_of ?h' p = refs_of h p" using r_ne(2) by (simp add: refs_of_update_other)
  have items_b: "items_of ?h' b = st_blocks ?st'"
    using items_of_update_item [OF jr d nb r_lt, of "st_blocks ?st' ! j"] j
    by (simp add: bl allocate_block_def)
  have items_p: "items_of ?h' p = procs"
    using items_of_update_other [OF r_ne(2) r_np] pr by simp
  have "refs_in ?h' b" using rb by (simp add: refs_in_def refs_b)
  then show "mem_synced b p procs (allocate_block_h b i j psize (st, h))"
    using d nb np dj items_b items_p by (simp add: eq mem_synced_def refs_b refs_p)
qed

lemma step_h_synced:
  assumes bound: "\<And>blocks psize j. search blocks psize = Some j \<Longrightarrow> j < length blocks"
    and sy: "mem_synced b p procs s"
  shows "fst (step_h search b p i s) = gen_step search procs i (fst s) \<and>
         mem_synced b p procs (step_h search b p i s)"
proof -
  obtain st h where s: "s = (st, h)" by (cases s)
  have bl: "items_of h b = st_blocks st" and pr: "items_of h p = procs"
    using sy s by (simp_all add: mem_synced_def)
  show ?thesis
  proof (cases "search (st_blocks st) (size_of (procs ! i))")
    case None
    then show ?thesis using sy s by (simp add: step_h_def gen_step_def bl pr)
  next
    case (Some j)
    from bound [OF Some] have j: "j < length (st_blocks st)" .
    from allocate_block_h_synced [OF sy [unfolded s] j, of i "size_of (procs ! i)"] Some
    show ?thesis by (simp add: s step_h_def gen_step_def bl pr)
  qed
qed

lemma fold_step_h_synced:
  assumes bound: "\<And>blocks psize j. search blocks psize = Some j \<Longrightarrow> j < length blocks"
  shows "mem_synced b p procs s \<Longrightarrow>
         fst (fold (step_h search b p) ids s) = fold (gen_step search procs) ids (fst s) \<and>
         mem_synced b p procs (fold (step_h search b p) ids s)"
proof (induction ids arbitrary: s)
  case Nil
  then show ?case by simp
next
  case (Cons i ids)
  from step_h_synced [where search = search and i = i, OF bound Cons.prems]
  show ?case using Cons.IH [of "step_h search b p i s"] by simp
qed

lemma finish_h_synced:
  "mem_synced b p procs s \<Longrightarrow> fst (finish_h name b p s) = finish name procs (fst s)"
  by (cases s) (simp add: finish_h_def mem_synced_def)

text \<open>The two copies an allocator starts with.\<close>

lemma clones_synced:
  assumes cb: "json_clone_items a_mb h = (b, h1)" and cp: "json_clone_items a_ps h1 = (p, h2)"
    and mb: "refs_in h a_mb" and ps: "refs_in h a_ps"
  shows "items_of h2 b = items_of h a_mb" "items_of h2 p = items_of h a_ps"
    and "mem_synced b p (items_of h a_ps) (st\<lparr>st_blocks := items_of h a_mb\<rparr>, h2)"
proof -
  note f1 = json_clone_items_owned [OF cb] and r1 = json_clone_items_read [OF cb]
    and f2 = json_clone_items_owned [OF cp] and r2 = json_clone_items_read [OF cp]
  have b1: "refs_in h1 b" using r1 by (simp add: refs_in_def list_all_iff)
  have rb: "refs_of h2 b = [length h..<length h + length (refs_of h a_mb)]"
    using refs_of_untouched [OF f2(1) f1(3)] r1(1) by simp
  show ib: "items_of h2 b = items_of h a_mb"
    using items_of_untouched [OF f2(1) b1] r1(4) by simp
  show ip: "items_of h2 p = items_of h a_ps"
    using r2(4) items_of_untouched [OF f1(1) ps] by simp
  have b2: "refs_in h2 b" using refs_in_untouched [OF f2(1) b1] .
  have b_lt: "b < length h1" using f1(3) .
  have "b \<notin> set (refs_of h2 b)" unfolding rb using r1(2) by simp
  moreover have "p \<notin> set (refs_of h2 b)" unfolding rb using r2(2) r1(3) by simp
  moreover have "set (refs_of h2 b) \<inter> set (refs_of h2 p) = {}"
    unfolding rb r2(1) using r1(3) by auto
  moreover have "distinct (refs_of h2 b)" unfolding rb by simp
  ultimately show "mem_synced b p (items_of h a_ps) (st\<lparr>st_blocks := items_of h a_mb\<rparr>, h2)"
    using b2 ib ip by (simp add: mem_synced_def)
qed

lemma simple_fit_h_adequate:
  assumes bound: "\<And>blocks psize j. search blocks psize = Some j \<Longrightarrow> j < length blocks"
    and mb: "refs_in h a_mb" and ps: "refs_in h a_ps"
  shows "fst (simple_fit_h name search a_mb a_ps h) =
         finish name (items_of h a_ps)
           (fold (gen_step search (items_of h a_ps)) [0..<length (items_of h a_ps)]
              (init_state (items_of h a_mb) (items_of h a_ps)))"
proof -
  obtain b h1 where cb: "json_clone_items a_mb h = (b, h1)" by (cases "json_clone_items a_mb h")
  obtain p h2 where cp: "json_clone_items a_ps h1 = (p, h2)" by (cases "json_clone_items a_ps h1")
  let ?procs = "items_of h a_ps" and ?blocks = "items_of h a_mb"
  note c = clones_synced [OF cb cp mb ps]
  let ?s = "(init_state ?blocks ?procs, h2)"
  have sy: "mem_synced b p ?procs ?s"
    using c(3) [of "init_state ?blocks ?procs"] by (simp add: init_state_def)
  let ?end = "fold (step_h search b p) [0..<length ?procs] ?s"
  have run: "fst ?end = fold (gen_step search ?procs) [0..<length ?procs] (fst ?s) \<and>
        mem_synced b p ?procs ?end"
    by (rule fold_step_h_synced) (use bound sy in auto)
  then have "fst (finish_h name b p ?end) = finish name ?procs (fst ?end)"
    by (intro finish_h_synced) simp
  then show ?thesis
    using cb cp run by (simp add: simple_fit_h_def c(1,2))
qed

lemma ff_step_gen: "ff_step = gen_step ff_search"
  by (intro ext) (simp add: ff_step_def gen_step_def)

lemma allocate_block_length [simp]:
  "length (st_blocks (allocate_block i j psize st)) = length (st_blocks st)"
  by (simp add: allocate_block_def)

lemma nf_step_h_synced:
  assumes sy: "mem_synced b p procs (fst sl)"
    and l: "st_blocks (fst (fst sl)) = [] \<or> snd sl < length (st_blocks (fst (fst sl)))"
  shows "(fst (fst (nf_step_h b p i sl)), snd (nf_step_h b p i sl)) =
           nf_step procs i (fst (fst sl), snd sl) \<and>
         mem_synced b p procs (fst (nf_step_h b p i sl)) \<and>
         (st_blocks (fst (fst (nf_step_h b p i sl))) = [] \<or>
          snd (nf_step_h b p i sl) < length (st_blocks (fst (fst (nf_step_h b p i sl)))))"
proof -
  obtain st h k where sl: "sl = ((st, h), k)" by (cases sl) auto
  have bl: "items_of h b = st_blocks st" and pr: "items_of h p = procs"
    using sy sl by (simp_all add: mem_synced_def)
  show ?thesis
  proof (cases "nf_search (st_blocks st) (size_of (procs ! i)) k 0")
    case None
    then show ?thesis using sy l sl by (simp add: nf_step_h_def nf_step_def bl pr)
  next
    case (Some j)
    have j: "j < length (st_blocks st)" using nf_search_bound [OF Some] l sl by simp
    note al = allocate_block_h_synced [OF sy [unfolded sl fst_conv] j, of i "size_of (procs ! i)"]
    have "(j + 1) mod length (st_blocks st) < length (st_blocks st)"
      using j by (intro mod_less_divisor) auto
    then show ?thesis
      using al Some by (simp add: sl nf_step_h_def nf_step_def bl pr)
  qed
qed

lemma fold_nf_step_h_synced:
  "mem_synced b p procs (fst sl) \<Longrightarrow>
   st_blocks (fst (fst sl)) = [] \<or> snd sl < length (st_blocks (fst (fst sl))) \<Longrightarrow>
   fst (fst (fold (nf_step_h b p) ids sl)) =
     fst (fold (nf_step procs) ids (fst (fst sl), snd sl)) \<and>
   mem_synced b p procs (fst (fold (nf_step_h b p) ids sl))"
proof (induction ids arbitrary: sl)
  case Nil
  then show ?case by simp
next
  case (Cons i ids)
  note st = nf_step_h_synced [OF Cons.prems, of i]
  from Cons.IH [of "nf_step_h b p i sl"] st
  show ?case by simp
qed

lemma nextFit_h_adequate:
  assumes mb: "refs_in h a_mb" and ps: "refs_in h a_ps"
  shows "fst (nextFit_h a_mb a_ps h) = nextFit (items_of h a_mb) (items_of h a_ps)"
proof -
  obtain b h1 where cb: "json_clone_items a_mb h = (b, h1)" by (cases "json_clone_items a_mb h")
  obtain p h2 where cp: "json_clone_items a_ps h1 = (p, h2)" by (cases "json_clone_items a_ps h1")
  let ?procs = "items_of h a_ps" and ?blocks = "items_of h a_mb"
  note c = clones_synced [OF cb cp mb ps]
  let ?sl = "((init_state ?blocks ?procs, h2), 0::nat)"
  have sy: "mem_synced b p ?procs (fst ?sl)"
    using c(3) [of "init_state ?blocks ?procs"] by (simp add: init_state_def)
  have z: "st_blocks (fst (fst ?sl)) = [] \<or> snd ?sl < length (st_blocks (fst (fst ?sl)))"
    by (auto simp: init_state_def)
  let ?end = "fold (nf_step_h b p) [0..<length ?procs] ?sl"
  note run = fold_nf_step_h_synced [OF sy z, of "[0..<length ?procs]"]
  then have "fst (finish_h ''Next Fit'' b p (fst ?end)) = finish ''Next Fit'' ?procs (fst (fst ?end))"
    by (intro finish_h_synced) simp
  then show ?thesis
    using cb cp run by (simp add: nextFit_h_def nextFit_def nextFit_run_def c(1,2))
qed

text \<open>
  The four allocators on the store return what the allocators on lists return, when the
  two arrays passed and their objects are in the store.
\<close>

lemma allocators_h_adequate:
  assumes "refs_in h a_mb" "refs_in h a_ps"
  shows "fst (firstFit_h a_mb a_ps h) = firstFit (items_of h a_mb) (items_of h a_ps)"
    and "fst (nextFit_h a_mb a_ps h) = nextFit (items_of h a_mb) (items_of h a_ps)"
    and "fst (bestFit_h a_mb a_ps h) = bestFit (items_of h a_mb) (items_of h a_ps)"
    and "fst (worstFit_h a_mb a_ps h) = worstFit (items_of h a_mb) (items_of h a_ps)"
proof -
  show "fst (firstFit_h a_mb a_ps h) = firstFit (items_of h a_mb) (items_of h a_ps)"
    unfolding firstFit_h_def firstFit_def firstFit_run_def ff_step_gen
    by (rule simple_fit_h_adequate [OF _ assms]) (simp add: ff_search_Some)
  show "fst (bestFit_h a_mb a_ps h) = bestFit (items_of h a_mb) (items_of h a_ps)"
    unfolding bestFit_h_def bestFit_def bestFit_run_def bf_step_gen
    by (rule simple_fit_h_adequate [OF _ assms]) (simp add: bf_search_Some)
  show "fst (worstFit_h a_mb a_ps h) = worstFit (items_of h a_mb) (items_of h a_ps)"
    unfolding worstFit_h_def worstFit_def worstFit_run_def wf_step_gen
    by (rule simple_fit_h_adequate [OF _ assms]) (simp add: wf_search_Some)
  show "fst (nextFit_h a_mb a_ps h) = nextFit (items_of h a_mb) (items_of h a_ps)"
    by (rule nextFit_h_adequate [OF assms])
qed

section \<open>The frame property of the seven operations\<close>

text \<open>
  Claim C6. Whatever the store and the addresses passed, each of the seven operations
  leaves every cell that existed before the call as it was, whether it returns a
  result, a denial or an exception: the caller's \<open>available\<close>, \<open>max\<close>, \<open>allocation\<close>,
  \<open>request\<close>, \<open>requests\<close>, \<open>memoryBlocks\<close> and \<open>processes\<close>, their rows and their objects
  are among these cells. All assignments go to cells the call has made itself.
\<close>

theorem caller_arrays_untouched:
  "untouched h (snd (isSafeState_h a_available a_max a_allocation h)) \<and>
   untouched h (snd (resourceRequest_h a_available a_max a_allocation pid a_request h)) \<and>
   untouched h (snd (runBankersAlgorithm_h a_available a_max a_allocation a_requests h)) \<and>
   untouched h (snd (firstFit_h a_memoryBlocks a_processes h)) \<and>
   untouched h (snd (nextFit_h a_memoryBlocks a_processes h)) \<and>
   untouched h (snd (bestFit_h a_memoryBlocks a_processes h)) \<and>
   untouched h (snd (worstFit_h a_memoryBlocks a_processes h))"
proof -
  have ff: "untouched h (snd (firstFit_h a_memoryBlocks a_processes h))"
    unfolding firstFit_h_def
    by (rule simple_fit_h_untouched) (simp add: ff_search_Some)
  have bf: "untouched h (snd (bestFit_h a_memoryBlocks a_processes h))"
    unfolding bestFit_h_def
    by (rule simple_fit_h_untouched) (simp add: bf_search_Some)
  have wf: "untouched h (snd (worstFit_h a_memoryBlocks a_processes h))"
    unfolding worstFit_h_def
    by (rule simple_fit_h_untouched) (simp add: wf_search_Some)
  show ?thesis
    using isSafeState_h_untouched resourceRequest_h_untouched runBankersAlgorithm_h_untouched
      nextFit_h_untouched ff bf wf
    by blast
qed

text \<open>
  Process 0 asks for all that is available. The request passes both checks, is applied
  to the copies and is then denied as unsafe: the copy of the available vector, at the
  first new address 14, ends as \<open>[0, 0, 0]\<close>, while the caller's vector at address 0
  is still \<open>[3, 3, 2]\<close>.
\<close>

theorem caller_arrays_untouched_witness:
  "fst (resourceRequest_h 0 6 12 0 13 store_5x3) = Inr (denied_unsafe [0, 1, 2, 3, 4]) \<and>
   length store_5x3 = 14 \<and>
   snd (resourceRequest_h 0 6 12 0 13 store_5x3) ! 14 = Nums (nums [0, 0, 0]) \<and>
   snd (resourceRequest_h 0 6 12 0 13 store_5x3) ! 0 = Nums (nums [3, 3, 2]) \<and>
   take 14 (snd (resourceRequest_h 0 6 12 0 13 store_5x3)) = store_5x3"
proof -
  have r: "fst (resourceRequest_h 0 6 12 0 13 store_5x3) = Inr (denied_unsafe [0, 1, 2, 3, 4])"
    by code_simp
  have l: "length store_5x3 = 14" by code_simp
  have c: "snd (resourceRequest_h 0 6 12 0 13 store_5x3) ! 14 = Nums (nums [0, 0, 0])"
    by code_simp
  have z: "store_5x3 ! 0 = Nums (nums [3, 3, 2])" by code_simp
  from caller_arrays_untouched [of store_5x3 0 6 12 0 13]
  have u: "untouched store_5x3 (snd (resourceRequest_h 0 6 12 0 13 store_5x3))" by blast
  then have t: "take 14 (snd (resourceRequest_h 0 6 12 0 13 store_5x3)) = store_5x3"
    by (simp add: untouched_def l)
  have "snd (resourceRequest_h 0 6 12 0 13 store_5x3) ! 0 = store_5x3 ! 0"
    using untouched_nth [OF u, of 0] l by simp
  then show ?thesis using r l c z t by simp
qed

end
